(* ===== verification/Base.thy ===== *)
theory Base
  imports
    "HOL-Library.Word"
    "HOL-Library.List_Lexorder"
    "HOL-Library.Product_Lexorder"
begin

section \<open>Prelude: machine types, results, byte strings, ordered maps\<close>

text \<open>
  The vocabulary every component of the development shares:
  \<^item> the machine types of the Rust sources: bytes and unsigned words as words of
    HOL-Library.Word, \<open>i64\<close> as a type of its own whose order is the signed one, \<open>usize\<close> as
    \<open>nat\<close> with the 64-bit limit written out where the code checks it, \<open>f64\<close> as its bit pattern;
  \<^item> \<open>Result<T, String>\<close> as \<open>err + 'a\<close>, with \<open>and_then\<close> for the \<open>?\<close> operator. An error value
    records which check failed and the field it names; the wording of the message is not modelled.
    A Rust panic (an index out of bounds, an \<open>unwrap\<close> of \<open>None\<close>) is the error \<open>Panic\<close>, so that
    "never panics" is a statement of the model;
  \<^item> little-endian integers as byte strings;
  \<^item> \<open>BTreeMap\<close> as an association list in ascending key order.
\<close>

named_theorems codec_simps \<open>equations that evaluate encoders and decoders on what they meet\<close>

subsection \<open>Machine types\<close>

type_synonym byte = "8 word"
type_synonym u16 = "16 word"
type_synonym u32 = "32 word"
type_synonym u64 = "64 word"

text \<open>A 64-bit float is carried as its bit pattern (\<open>f64::to_bits\<close>).\<close>

type_synonym f64 = "64 word"

text \<open>A Rust \<open>str\<close> is a byte string that is valid UTF-8; see theory \<open>Text\<close>.\<close>

type_synonym bytes = "8 word list"
type_synonym str = "8 word list"

definition str_lit :: "string \<Rightarrow> str" where
  "str_lit s = map of_char s"

definition U16_MAX :: nat where "U16_MAX = 65535"
definition U32_MAX :: nat where "U32_MAX = 4294967295"
definition USIZE_MAX :: nat where "USIZE_MAX = 18446744073709551615"
definition ISIZE_MAX :: nat where "ISIZE_MAX = 9223372036854775807"

lemmas machine_limits = U16_MAX_def U32_MAX_def USIZE_MAX_def ISIZE_MAX_def

lemma of_char_word: "(of_char c :: byte) = of_nat (of_char c)"
  by (cases c) (simp add: of_char_def horner_sum_simps)

lemma unat_of_char [simp]: "unat (of_char c :: byte) = of_char c"
  using nat_of_char_less_256 [of c] by (simp add: of_char_word unat_of_nat)

lemma str_lit_inj [simp]: "str_lit s = str_lit t \<longleftrightarrow> s = t"
proof
  have "inj (of_char :: char \<Rightarrow> byte)"
    by (rule injI) (metis unat_of_char char_of_char)
  then show "str_lit s = str_lit t \<Longrightarrow> s = t"
    by (simp add: str_lit_def inj_map_eq_map)
qed simp

lemma unat_bound: "unat (w :: 'a::len word) < 2 ^ LENGTH('a)"
  by (rule unsigned_less)

text \<open>Signed 64-bit integers: 64 bits, read as two's complement for comparisons.\<close>

datatype i64 = I64 (i64_bits: "64 word")

definition i64_int :: "i64 \<Rightarrow> int" where
  "i64_int x = sint (i64_bits x)"

definition i64_of_int :: "int \<Rightarrow> i64" where
  "i64_of_int k = I64 (word_of_int k)"

lemma i64_int_inj [simp]: "i64_int x = i64_int y \<longleftrightarrow> x = y"
  by (cases x; cases y) (auto simp: i64_int_def intro: signed_word_eqI)

lemma i64_of_int_int [simp]: "i64_of_int (i64_int x) = x"
  by (cases x) (simp add: i64_int_def i64_of_int_def)

lemma i64_int_of_int [simp]: "- (2 ^ 63) \<le> k \<Longrightarrow> k < 2 ^ 63 \<Longrightarrow> i64_int (i64_of_int k) = k"
  by (simp add: i64_int_def i64_of_int_def signed_of_int signed_take_bit_int_eq_self)

lemma unat_i64_of_nat: "k < 2 ^ 63 \<Longrightarrow> unat (i64_bits (i64_of_int (int k))) = k"
  by (simp add: i64_of_int_def unat_of_nat)

instantiation i64 :: linorder
begin

definition less_eq_i64 :: "i64 \<Rightarrow> i64 \<Rightarrow> bool" where
  "less_eq_i64 x y \<longleftrightarrow> i64_int x \<le> i64_int y"

definition less_i64 :: "i64 \<Rightarrow> i64 \<Rightarrow> bool" where
  "less_i64 x y \<longleftrightarrow> i64_int x < i64_int y"

instance
  by standard (auto simp: less_eq_i64_def less_i64_def)

end

definition I64_MIN :: i64 where "I64_MIN = I64 0x8000000000000000"
definition I64_MAX :: i64 where "I64_MAX = I64 0x7FFFFFFFFFFFFFFF"

definition i64_wrapping_add :: "i64 \<Rightarrow> i64 \<Rightarrow> i64" where
  "i64_wrapping_add x y = I64 (i64_bits x + i64_bits y)"

definition i64_wrapping_sub :: "i64 \<Rightarrow> i64 \<Rightarrow> i64" where
  "i64_wrapping_sub x y = I64 (i64_bits x - i64_bits y)"

lemma i64_add_sub_cancel [simp]: "i64_wrapping_add p (i64_wrapping_sub v p) = v"
  by (cases v) (simp add: i64_wrapping_add_def i64_wrapping_sub_def)

lemma I64_MIN_least [simp]: "I64_MIN \<le> x"
proof -
  have "- (2 ^ 63) \<le> i64_int x"
    unfolding i64_int_def using sint_greater_eq [of "i64_bits x"] by simp
  then show ?thesis by (simp add: less_eq_i64_def I64_MIN_def i64_int_def)
qed

lemma I64_MAX_greatest [simp]: "x \<le> I64_MAX"
proof -
  have "i64_int x < 2 ^ 63"
    unfolding i64_int_def using sint_less [of "i64_bits x"] by simp
  then show ?thesis by (simp add: less_eq_i64_def I64_MAX_def i64_int_def)
qed

subsection \<open>Results\<close>

datatype err =
    Panic string
  | Truncated string nat nat nat
  | LengthOverflow string
  | CountOverflow string
  | TooShort string nat nat nat
  | AllocFailed string nat
  | ExceedsU32 string nat
  | ExceedsU16 string nat
  | Trailing string nat
  | CompressFailed string
  | DecompressFailed string
  | WrongCount string nat nat
  | NotMultiple string nat nat
  | UnknownEncoding string byte
  | EntryLimit string nat
  | RangeMismatch string
  | InvalidUtf8 string nat
  | CodeOutOfRange string nat nat
  | RunsExceed string nat
  | BadSelection string
  | PadBits string
  | Invalid string

type_synonym 'a res = "err + 'a"

fun and_then :: "'a res \<Rightarrow> ('a \<Rightarrow> 'b res) \<Rightarrow> 'b res" where
  "and_then (Inl e) f = Inl e"
| "and_then (Inr x) f = f x"

lemma and_then_eq_Inr [simp]: "and_then r f = Inr y \<longleftrightarrow> (\<exists>x. r = Inr x \<and> f x = Inr y)"
  by (cases r) auto

lemma and_then_eq_Inl: "and_then r f = Inl e \<longleftrightarrow> r = Inl e \<or> (\<exists>x. r = Inr x \<and> f x = Inl e)"
  by (cases r) auto

lemma and_then_cong [fundef_cong]:
  "r = r' \<Longrightarrow> (\<And>x. r' = Inr x \<Longrightarrow> f x = g x) \<Longrightarrow> and_then r f = and_then r' g"
  by (cases r') auto

lemma and_then_assoc [simp]: "and_then (and_then r f) g = and_then r (\<lambda>x. and_then (f x) g)"
  by (cases r) auto

lemma and_then_Inr_id [simp]: "and_then r Inr = r"
  by (cases r) auto

text \<open>\<open>Option::ok_or\<close> and the \<open>if ... return Err\<close> guard.\<close>

fun ok_or :: "'a option \<Rightarrow> err \<Rightarrow> 'a res" where
  "ok_or None e = Inl e"
| "ok_or (Some x) e = Inr x"

definition ensure :: "bool \<Rightarrow> err \<Rightarrow> unit res" where
  "ensure b e = (if b then Inr () else Inl e)"

lemma ok_or_eq_Inr [simp]: "ok_or m e = Inr x \<longleftrightarrow> m = Some x"
  by (cases m) auto

lemma ensure_eq_Inr [simp]: "ensure b e = Inr u \<longleftrightarrow> b"
  by (simp add: ensure_def)

lemma ensure_simps [simp]: "ensure True e = Inr ()" "ensure False e = Inl e"
  by (simp_all add: ensure_def)

text \<open>\<open>iter().map(f).collect::<Result<Vec<_>, _>>()\<close>: the first error stops the walk.\<close>

fun collect_r :: "('a \<Rightarrow> 'b res) \<Rightarrow> 'a list \<Rightarrow> 'b list res" where
  "collect_r f [] = Inr []"
| "collect_r f (x # xs) = and_then (f x) (\<lambda>y. and_then (collect_r f xs) (\<lambda>ys. Inr (y # ys)))"

lemma collect_r_Inr_conv:
  "collect_r f xs = Inr ys \<longleftrightarrow> list_all2 (\<lambda>x y. f x = Inr y) xs ys"
  by (induction xs arbitrary: ys) (auto simp: list_all2_Cons1)

lemma collect_r_comp: "collect_r f (map g xs) = collect_r (\<lambda>x. f (g x)) xs"
  by (induction xs) simp_all

lemma collect_r_length: "collect_r f xs = Inr ys \<Longrightarrow> length ys = length xs"
  by (simp add: collect_r_Inr_conv list_all2_lengthD)

lemma collect_r_map: "(\<And>x. x \<in> set xs \<Longrightarrow> f x = Inr (g x)) \<Longrightarrow> collect_r f xs = Inr (map g xs)"
  by (induction xs) auto

lemma collect_r_cong [fundef_cong]:
  "xs = ys \<Longrightarrow> (\<And>x. x \<in> set ys \<Longrightarrow> f x = g x) \<Longrightarrow> collect_r f xs = collect_r g ys"
  by (induction xs arbitrary: ys) auto

text \<open>Indexing with \<open>[]\<close>: out of bounds is a panic.\<close>

definition index_r :: "string \<Rightarrow> 'a list \<Rightarrow> nat \<Rightarrow> 'a res" where
  "index_r w xs i = (if i < length xs then Inr (xs ! i) else Inl (Panic w))"

lemma index_r_simps [simp]:
  "i < length xs \<Longrightarrow> index_r w xs i = Inr (xs ! i)"
  "\<not> i < length xs \<Longrightarrow> index_r w xs i = Inl (Panic w)"
  by (simp_all add: index_r_def)

text \<open>Slicing with \<open>[a..b]\<close>, \<open>try_into().unwrap()\<close> to an array of \<open>n\<close> bytes, and the allocation of \<open>n\<close> elements.\<close>

definition slice_r :: "string \<Rightarrow> 'a list \<Rightarrow> nat \<Rightarrow> nat \<Rightarrow> 'a list res" where
  "slice_r w xs a b = (if a \<le> b \<and> b \<le> length xs then Inr (take (b - a) (drop a xs)) else Inl (Panic w))"

definition array_r :: "nat \<Rightarrow> bytes \<Rightarrow> bytes res" where
  "array_r n bs = (if length bs = n then Inr bs else Inl (Panic ''try_into''))"

definition alloc_r :: "nat \<Rightarrow> nat \<Rightarrow> unit res" where
  "alloc_r n width = (if n * width \<le> ISIZE_MAX then Inr () else Inl (Panic ''capacity overflow''))"

definition is_panic :: "'a res \<Rightarrow> bool" where
  "is_panic r \<longleftrightarrow> (\<exists>w. r = Inl (Panic w))"

lemma is_panic_Inr [simp]: "\<not> is_panic (Inr x)"
  by (simp add: is_panic_def)

lemma is_panic_Inl [simp]: "is_panic (Inl e) \<longleftrightarrow> (\<exists>w. e = Panic w)"
  by (simp add: is_panic_def)

lemma is_panic_and_then [simp]:
  "is_panic (and_then r f) \<longleftrightarrow> is_panic r \<or> (\<exists>x. r = Inr x \<and> is_panic (f x))"
  by (cases r) auto

lemma is_panic_ensure [simp]: "is_panic (ensure b e) \<longleftrightarrow> \<not> b \<and> (\<exists>w. e = Panic w)"
  by (simp add: ensure_def)

lemma is_panic_ok_or [simp]: "is_panic (ok_or m e) \<longleftrightarrow> m = None \<and> (\<exists>w. e = Panic w)"
  by (cases m) auto

lemma is_panic_slices [simp]:
  "is_panic (slice_r w xs a b) \<longleftrightarrow> \<not> (a \<le> b \<and> b \<le> length xs)" "is_panic (array_r n bs) \<longleftrightarrow> length bs \<noteq> n"
  "is_panic (alloc_r n width) \<longleftrightarrow> ISIZE_MAX < n * width"
  by (auto simp: slice_r_def array_r_def alloc_r_def)

lemma is_panic_index_r [simp]: "is_panic (index_r w xs i) \<longleftrightarrow> \<not> i < length xs"
  by (simp add: index_r_def)

lemma is_panic_collect_r: "(\<And>x. x \<in> set xs \<Longrightarrow> \<not> is_panic (f x)) \<Longrightarrow> \<not> is_panic (collect_r f xs)"
  by (induction xs) auto

subsection \<open>Checked arithmetic on usize\<close>

definition checked_add :: "nat \<Rightarrow> nat \<Rightarrow> nat option" where
  "checked_add a b = (if a + b \<le> USIZE_MAX then Some (a + b) else None)"

definition checked_mul :: "nat \<Rightarrow> nat \<Rightarrow> nat option" where
  "checked_mul a b = (if a * b \<le> USIZE_MAX then Some (a * b) else None)"

lemma checked_mul_Some_conv [simp]: "checked_mul a b = Some c \<longleftrightarrow> c = a * b \<and> a * b \<le> USIZE_MAX"
  by (auto simp: checked_mul_def)

lemma checked_add_Some_conv [simp]: "checked_add a b = Some c \<longleftrightarrow> c = a + b \<and> a + b \<le> USIZE_MAX"
  by (auto simp: checked_add_def)

subsection \<open>Little-endian integers\<close>

text \<open>\<open>to_le_bytes\<close> and \<open>from_le_bytes\<close> at any width.\<close>

fun le_bytes :: "nat \<Rightarrow> nat \<Rightarrow> bytes" where
  "le_bytes 0 x = []"
| "le_bytes (Suc k) x = of_nat (x mod 256) # le_bytes k (x div 256)"

fun le_nat :: "bytes \<Rightarrow> nat" where
  "le_nat [] = 0"
| "le_nat (b # bs) = unat b + 256 * le_nat bs"

lemma length_le_bytes [simp]: "length (le_bytes k x) = k"
  by (induction k arbitrary: x) auto

lemma le_nat_bound: "le_nat bs < 256 ^ length bs"
proof (induction bs)
  case Nil
  show ?case by simp
next
  case (Cons b bs)
  have "unat b < 256" using unat_bound [of b] by simp
  with Cons.IH show ?case by simp
qed

lemma le_nat_le_bytes [simp]: "x < 256 ^ k \<Longrightarrow> le_nat (le_bytes k x) = x"
proof (induction k arbitrary: x)
  case 0
  then show ?case by simp
next
  case (Suc k)
  then have "x div 256 < 256 ^ k" by (simp add: less_mult_imp_div_less ac_simps)
  then have "le_nat (le_bytes k (x div 256)) = x div 256" by (rule Suc.IH)
  moreover have "unat (of_nat (x mod 256) :: byte) = x mod 256"
    by (simp add: unat_of_nat)
  ultimately show ?case by simp
qed

lemma le_bytes_le_nat [simp]: "k = length bs \<Longrightarrow> le_bytes k (le_nat bs) = bs"
proof (induction bs arbitrary: k)
  case Nil
  then show ?case by simp
next
  case (Cons b bs)
  have b: "unat b < 256" using unat_bound [of b] by simp
  then have "(unat b + 256 * le_nat bs) mod 256 = unat b"
    and "(unat b + 256 * le_nat bs) div 256 = le_nat bs" by simp_all
  with Cons show ?case by simp
qed

definition u16_le :: "u16 \<Rightarrow> bytes" where "u16_le x = le_bytes 2 (unat x)"
definition u32_le :: "u32 \<Rightarrow> bytes" where "u32_le x = le_bytes 4 (unat x)"
definition u64_le :: "u64 \<Rightarrow> bytes" where "u64_le x = le_bytes 8 (unat x)"
definition i64_le :: "i64 \<Rightarrow> bytes" where "i64_le x = u64_le (i64_bits x)"

definition u16_from_le :: "bytes \<Rightarrow> u16" where "u16_from_le bs = of_nat (le_nat bs)"
definition u32_from_le :: "bytes \<Rightarrow> u32" where "u32_from_le bs = of_nat (le_nat bs)"
definition u64_from_le :: "bytes \<Rightarrow> u64" where "u64_from_le bs = of_nat (le_nat bs)"
definition i64_from_le :: "bytes \<Rightarrow> i64" where "i64_from_le bs = I64 (u64_from_le bs)"

lemma length_u_le [simp]:
  "length (u16_le a) = 2" "length (u32_le b) = 4" "length (u64_le c) = 8" "length (i64_le d) = 8"
  by (simp_all add: u16_le_def u32_le_def u64_le_def i64_le_def)

lemma u16_from_le_le [simp]: "u16_from_le (u16_le x) = x"
proof -
  have "unat x < 256 ^ 2" using unat_bound [of x] by simp
  then show ?thesis by (simp add: u16_from_le_def u16_le_def)
qed

lemma u32_from_le_le [simp]: "u32_from_le (u32_le x) = x"
proof -
  have "unat x < 256 ^ 4" using unat_bound [of x] by simp
  then show ?thesis by (simp add: u32_from_le_def u32_le_def)
qed

lemma u64_from_le_le [simp]: "u64_from_le (u64_le x) = x"
proof -
  have "unat x < 256 ^ 8" using unat_bound [of x] by simp
  then show ?thesis by (simp add: u64_from_le_def u64_le_def)
qed

lemma i64_from_le_le [simp]: "i64_from_le (i64_le x) = x"
  by (cases x) (simp add: i64_from_le_def i64_le_def)

lemma u64_le_from_le [simp]: "length bs = 8 \<Longrightarrow> u64_le (u64_from_le bs) = bs"
proof -
  assume l: "length bs = 8"
  then have "le_nat bs < 2 ^ 64" using le_nat_bound [of bs] by simp
  then have "unat (of_nat (le_nat bs) :: u64) = le_nat bs"
    by (simp add: unat_of_nat)
  with l show ?thesis by (simp add: u64_le_def u64_from_le_def)
qed

lemma unat_u32_of_nat [simp]: "n \<le> U32_MAX \<Longrightarrow> unat (of_nat n :: u32) = n"
  by (simp add: unat_of_nat U32_MAX_def)

lemma unat_u16_of_nat [simp]: "n \<le> U16_MAX \<Longrightarrow> unat (of_nat n :: u16) = n"
  by (simp add: unat_of_nat U16_MAX_def)

lemma unat_u32_le_max [simp]: "unat (x :: u32) \<le> U32_MAX"
  using unat_bound [of x] by (simp add: U32_MAX_def)

lemma unat_u16_le_max [simp]: "unat (x :: u16) \<le> U16_MAX"
  using unat_bound [of x] by (simp add: U16_MAX_def)

subsection \<open>Fixed-size chunks of a byte string\<close>

text \<open>\<open>as_chunks::<N>().0\<close>: the complete chunks, the remainder dropped.\<close>

function as_chunks :: "nat \<Rightarrow> 'a list \<Rightarrow> 'a list list" where
  "as_chunks k xs = (if k = 0 \<or> length xs < k then [] else take k xs # as_chunks k (drop k xs))"
  by pat_completeness auto
termination
  by (relation "measure (\<lambda>(k, xs). length xs)") (simp_all, linarith)

declare as_chunks.simps [simp del]

lemma as_chunks_Nil [simp]: "as_chunks k [] = []"
  by (subst as_chunks.simps) auto

lemma as_chunks_append [simp]:
  "0 < k \<Longrightarrow> length x = k \<Longrightarrow> as_chunks k (x @ xs) = x # as_chunks k xs"
  by (subst as_chunks.simps) simp

lemma as_chunks_concat:
  "0 < k \<Longrightarrow> (\<And>x. x \<in> set xss \<Longrightarrow> length x = k) \<Longrightarrow> as_chunks k (concat xss) = xss"
  by (induction xss) auto

lemma length_as_chunks: "0 < k \<Longrightarrow> length (as_chunks k xs) = length xs div k"
proof (induction k xs rule: as_chunks.induct)
  case (1 k xs)
  show ?case
  proof (cases "length xs < k")
    case True
    then show ?thesis by (simp add: as_chunks.simps [of k xs])
  next
    case False
    with 1 show ?thesis by (simp add: as_chunks.simps [of k xs] le_div_geq)
  qed
qed

lemma in_as_chunks: "c \<in> set (as_chunks k xs) \<Longrightarrow> length c = k"
proof (induction k xs rule: as_chunks.induct)
  case (1 k xs)
  then show ?case by (auto simp: as_chunks.simps [of k xs] split: if_splits)
qed

lemma length_concat_const: "(\<And>x. x \<in> set xs \<Longrightarrow> length (f x) = k) \<Longrightarrow>
    length (concat (map f xs)) = k * length xs"
  by (induction xs) auto

lemma take_all_of_length: "length (take k xs) = length xs \<Longrightarrow> take k xs = xs"
  by (metis length_take min_def nle_le take_all)

subsection \<open>BTreeMap and BTreeSet\<close>

text \<open>
  A \<open>BTreeMap\<close> is an association list in strictly ascending key order, a \<open>BTreeSet\<close> the list of
  its elements in that order; iteration is the list itself.
\<close>

type_synonym ('k, 'v) btree = "('k \<times> 'v) list"

abbreviation bt_get :: "('k, 'v) btree \<Rightarrow> 'k \<Rightarrow> 'v option" where
  "bt_get \<equiv> map_of"

definition bt_wf :: "('k::linorder, 'v) btree \<Rightarrow> bool" where
  "bt_wf m \<longleftrightarrow> sorted_wrt (<) (map fst m)"

fun bt_insert :: "'k::linorder \<Rightarrow> 'v \<Rightarrow> ('k, 'v) btree \<Rightarrow> ('k, 'v) btree" where
  "bt_insert k v [] = [(k, v)]"
| "bt_insert k v ((k', v') # m) =
     (if k < k' then (k, v) # (k', v') # m
      else if k = k' then (k, v) # m
      else (k', v') # bt_insert k v m)"

definition bt_remove :: "'k \<Rightarrow> ('k, 'v) btree \<Rightarrow> ('k, 'v) btree" where
  "bt_remove k m = filter (\<lambda>(k', _). k' \<noteq> k) m"

definition btree_set :: "'a::linorder list \<Rightarrow> 'a list" where
  "btree_set xs = sort (remdups xs)"

lemma bt_wf_Nil [simp]: "bt_wf []"
  by (simp add: bt_wf_def)

lemma bt_wf_Cons: "bt_wf ((k, v) # m) \<longleftrightarrow> (\<forall>k' \<in> fst ` set m. k < k') \<and> bt_wf m"
  by (auto simp: bt_wf_def)

lemma bt_insert_keys: "fst ` set (bt_insert k v m) = insert k (fst ` set m)"
  by (induction k v m rule: bt_insert.induct) auto

lemma bt_wf_insert [simp]: "bt_wf m \<Longrightarrow> bt_wf (bt_insert k v m)"
  by (induction k v m rule: bt_insert.induct) (auto simp: bt_wf_Cons bt_insert_keys image_iff)

lemma bt_get_insert [simp]: "bt_wf m \<Longrightarrow> bt_get (bt_insert k v m) = (bt_get m)(k \<mapsto> v)"
  by (induction k v m rule: bt_insert.induct) (auto simp: bt_wf_Cons fun_eq_iff)

lemma bt_wf_filter [simp]: "bt_wf m \<Longrightarrow> bt_wf (filter P m)"
  unfolding bt_wf_def by (induction m) auto

lemma bt_wf_remove [simp]: "bt_wf m \<Longrightarrow> bt_wf (bt_remove k m)"
  by (simp add: bt_remove_def)

lemma bt_get_remove [simp]: "bt_get (bt_remove k m) = (bt_get m)(k := None)"
  by (induction m) (auto simp: bt_remove_def fun_eq_iff)

lemma bt_wf_distinct: "bt_wf m \<Longrightarrow> distinct (map fst m)"
  unfolding bt_wf_def using strict_sorted_iff by blast

lemma bt_get_Some_iff: "bt_wf m \<Longrightarrow> bt_get m k = Some v \<longleftrightarrow> (k, v) \<in> set m"
  by (rule map_of_eq_Some_iff) (rule bt_wf_distinct)

lemma bt_insert_last: "bt_wf m \<Longrightarrow> \<forall>k' \<in> fst ` set m. k' < k \<Longrightarrow> bt_insert k v m = m @ [(k, v)]"
  by (induction k v m rule: bt_insert.induct) (auto simp: bt_wf_Cons)

lemma btree_set_props [simp]:
  "set (btree_set xs) = set xs" "distinct (btree_set xs)" "sorted (btree_set xs)"
  by (simp_all add: btree_set_def)

lemma btree_set_strict: "sorted_wrt (<) (btree_set xs)"
  by (simp add: strict_sorted_iff)

end
