(* ===== verification/Text.thy ===== *)
theory Text
  imports Base
begin

section \<open>Text: the parts of str and u8 of the standard library the sources use\<close>

text \<open>
  UTF-8 validation as \<open>std::str::from_utf8\<close> does it (no overlong forms, no surrogates, nothing
  above U+10FFFF), the ASCII classes of \<open>u8\<close>, ASCII-case-insensitive comparison and search,
  decimal parsing as \<open>str::parse::<i64>\<close> does it, and zero-padded decimal rendering.
\<close>

subsection \<open>UTF-8\<close>

definition utf8_cont :: "byte \<Rightarrow> bool" where
  "utf8_cont b \<longleftrightarrow> 0x80 \<le> b \<and> b \<le> 0xBF"

text \<open>The width in bytes of the scalar value a byte string starts with, if it starts with one.\<close>

fun utf8_width :: "bytes \<Rightarrow> nat option" where
  "utf8_width [] = None"
| "utf8_width (b0 # r) =
     (if b0 < 0x80 then Some 1
      else if 0xC2 \<le> b0 \<and> b0 \<le> 0xDF then
        (case r of b1 # _ \<Rightarrow> if utf8_cont b1 then Some 2 else None | _ \<Rightarrow> None)
      else if 0xE0 \<le> b0 \<and> b0 \<le> 0xEF then
        (case r of
           b1 # b2 # _ \<Rightarrow>
             if (if b0 = 0xE0 then 0xA0 \<le> b1 \<and> b1 \<le> 0xBF
                 else if b0 = 0xED then 0x80 \<le> b1 \<and> b1 \<le> 0x9F
                 else utf8_cont b1) \<and> utf8_cont b2
             then Some 3 else None
         | _ \<Rightarrow> None)
      else if 0xF0 \<le> b0 \<and> b0 \<le> 0xF4 then
        (case r of
           b1 # b2 # b3 # _ \<Rightarrow>
             if (if b0 = 0xF0 then 0x90 \<le> b1 \<and> b1 \<le> 0xBF
                 else if b0 = 0xF4 then 0x80 \<le> b1 \<and> b1 \<le> 0x8F
                 else utf8_cont b1) \<and> utf8_cont b2 \<and> utf8_cont b3
             then Some 4 else None
         | _ \<Rightarrow> None)
      else None)"

declare utf8_width.simps(2) [simp del]

lemma utf8_width_pos: "utf8_width xs = Some k \<Longrightarrow> 0 < k"
  by (cases xs) (auto simp: utf8_width.simps split: if_splits list.splits)

lemma utf8_width_le: "utf8_width xs = Some k \<Longrightarrow> k \<le> length xs"
  by (cases xs) (auto simp: utf8_width.simps split: if_splits list.splits)

lemma utf8_width_append: "utf8_width xs = Some k \<Longrightarrow> utf8_width (xs @ ys) = Some k"
  by (cases xs) (auto simp: utf8_width.simps split: if_splits list.splits)

lemma utf8_width_take: "utf8_width xs = Some k \<Longrightarrow> utf8_width (take k xs) = Some k"
  by (cases xs)
    (auto simp: utf8_width.simps split: if_splits list.splits simp: numeral_eq_Suc)

function valid_utf8 :: "bytes \<Rightarrow> bool" where
  "valid_utf8 xs =
     (if xs = [] then True
      else (case utf8_width xs of None \<Rightarrow> False | Some k \<Rightarrow> valid_utf8 (drop k xs)))"
  by pat_completeness auto
termination
  by (relation "measure length") (auto dest: utf8_width_pos)

declare valid_utf8.simps [simp del]

lemma valid_utf8_Nil [simp]: "valid_utf8 []"
  by (simp add: valid_utf8.simps)

lemma valid_utf8_width: "utf8_width xs = Some k \<Longrightarrow> valid_utf8 xs \<longleftrightarrow> valid_utf8 (drop k xs)"
  by (subst valid_utf8.simps) auto

lemma valid_utf8_widthE:
  assumes "valid_utf8 xs" "xs \<noteq> []"
  obtains k where "utf8_width xs = Some k" "0 < k" "k \<le> length xs" "valid_utf8 (drop k xs)"
  using assms utf8_width_pos utf8_width_le by (subst (asm) valid_utf8.simps) (auto split: option.splits)

lemma valid_utf8_append [simp]: "valid_utf8 xs \<Longrightarrow> valid_utf8 (xs @ ys) \<longleftrightarrow> valid_utf8 ys"
proof (induction xs rule: valid_utf8.induct)
  case (1 xs)
  show ?case
  proof (cases "xs = []")
    case False
    with 1 obtain k where k: "utf8_width xs = Some k" "k \<le> length xs" "valid_utf8 (drop k xs)"
      by (auto elim: valid_utf8_widthE)
    with False 1 have "valid_utf8 (drop k xs @ ys) \<longleftrightarrow> valid_utf8 ys" by auto
    with k show ?thesis
      using valid_utf8_width [OF utf8_width_append [OF k(1)]] by simp
  qed simp
qed

lemma valid_utf8_ascii_Cons [simp]: "b < 0x80 \<Longrightarrow> valid_utf8 (b # xs) \<longleftrightarrow> valid_utf8 xs"
  by (subst valid_utf8.simps) (simp add: utf8_width.simps)

definition is_ascii :: "bytes \<Rightarrow> bool" where
  "is_ascii xs \<longleftrightarrow> list_all (\<lambda>b. b < 0x80) xs"

lemma is_ascii_valid: "is_ascii xs \<Longrightarrow> valid_utf8 xs"
  unfolding is_ascii_def by (induction xs) auto

text \<open>\<open>str::chars\<close>, each character as its bytes.\<close>

function chars :: "str \<Rightarrow> str list" where
  "chars xs =
     (if xs = [] then []
      else (case utf8_width xs of None \<Rightarrow> [xs] | Some k \<Rightarrow> take k xs # chars (drop k xs)))"
  by pat_completeness auto
termination
  by (relation "measure length") (auto dest: utf8_width_pos)

declare chars.simps [simp del]

lemma chars_Nil [simp]: "chars [] = []"
  by (simp add: chars.simps)

text \<open>A function of the characters that leaves every non-ASCII character to its bytes acts bytewise.\<close>

lemma byte_ge_80: "(c :: byte) \<le> b \<Longrightarrow> 0x80 \<le> c \<Longrightarrow> 0x80 \<le> b"
  by (rule order_trans)

lemma utf8_cont_ge_80: "utf8_cont b \<Longrightarrow> 0x80 \<le> b"
  by (simp add: utf8_cont_def)

lemma utf8_width_bytes:
  assumes "utf8_width xs = Some k"
  shows "(k = 1 \<and> hd xs < 0x80) \<or> (k \<noteq> 1 \<and> (\<forall>b \<in> set (take k xs). 0x80 \<le> b))"
proof -
  obtain b0 r where xs: "xs = b0 # r" using assms by (cases xs) auto
  consider "b0 < 0x80" "k = 1" | "0xC2 \<le> b0" "\<exists>b1 r'. r = b1 # r' \<and> 0x80 \<le> b1" "k = 2"
    | "0xE0 \<le> b0" "\<exists>b1 b2 r'. r = b1 # b2 # r' \<and> 0x80 \<le> b1 \<and> 0x80 \<le> b2" "k = 3"
    | "0xF0 \<le> b0" "\<exists>b1 b2 b3 r'. r = b1 # b2 # b3 # r' \<and> 0x80 \<le> b1 \<and> 0x80 \<le> b2 \<and> 0x80 \<le> b3" "k = 4"
    using assms unfolding xs utf8_width.simps
    by (auto simp: byte_ge_80 [of "0xA0"] byte_ge_80 [of "0x90"] utf8_cont_ge_80
        split: if_split_asm list.splits)
  then show ?thesis
    using byte_ge_80 [of "0xC2" b0] byte_ge_80 [of "0xE0" b0] byte_ge_80 [of "0xF0" b0]
    by cases (auto simp: xs take_Cons')
qed

lemma chars_bytewise:
  assumes "\<And>b. b < 0x80 \<Longrightarrow> f [b] = g b" "\<And>c. length c \<noteq> 1 \<Longrightarrow> f c = c" "\<And>b. 0x80 \<le> b \<Longrightarrow> g b = [b]"
    and "valid_utf8 s"
  shows "concat (map f (chars s)) = concat (map g s)"
  using assms(4)
proof (induction s rule: chars.induct)
  case (1 xs)
  show ?case
  proof (cases "xs = []")
    case False
    with 1 obtain k where k: "utf8_width xs = Some k" "0 < k" "k \<le> length xs" "valid_utf8 (drop k xs)"
      using valid_utf8_widthE by blast
    have "f (take k xs) = concat (map g (take k xs))"
    proof (cases "k = 1")
      case True
      with utf8_width_bytes [OF k(1)] False assms(1) show ?thesis by (cases xs) auto
    next
      case False
      then have "\<forall>b \<in> set (take k xs). 0x80 \<le> b" using utf8_width_bytes [OF k(1)] by blast
      then have "map g (take k xs) = map (\<lambda>b. [b]) (take k xs)" using assms(3) by simp
      then have "concat (map g (take k xs)) = take k xs" by (simp only: concat_map_singleton map_ident)
      then show ?thesis using assms(2) False k(3) by simp
    qed
    moreover have "concat (map f (chars (drop k xs))) = concat (map g (drop k xs))"
      using 1 k False by simp
    ultimately have "concat (map f (chars xs)) = concat (map g (take k xs)) @ concat (map g (drop k xs))"
      using k False by (simp add: chars.simps [of xs])
    then show ?thesis by (metis append_take_drop_id concat_append map_append)
  qed simp
qed

text \<open>\<open>std::str::from_utf8(..).map_err(..)?\<close>\<close>

definition from_utf8 :: "bytes \<Rightarrow> err \<Rightarrow> str res" where
  "from_utf8 bs e = (if valid_utf8 bs then Inr bs else Inl e)"

lemma from_utf8_eq_Inr [simp]: "from_utf8 bs e = Inr s \<longleftrightarrow> s = bs \<and> valid_utf8 bs"
  by (auto simp: from_utf8_def)

lemma is_panic_from_utf8 [simp]:
  "is_panic (from_utf8 bs e) \<longleftrightarrow> \<not> valid_utf8 bs \<and> (\<exists>w. e = Panic w)"
  by (simp add: from_utf8_def)

subsection \<open>ASCII classes\<close>

definition is_ascii_digit :: "byte \<Rightarrow> bool" where
  "is_ascii_digit b \<longleftrightarrow> 0x30 \<le> b \<and> b \<le> 0x39"

definition is_ascii_upper :: "byte \<Rightarrow> bool" where
  "is_ascii_upper b \<longleftrightarrow> 0x41 \<le> b \<and> b \<le> 0x5A"

definition is_ascii_lower :: "byte \<Rightarrow> bool" where
  "is_ascii_lower b \<longleftrightarrow> 0x61 \<le> b \<and> b \<le> 0x7A"

definition is_ascii_alphabetic :: "byte \<Rightarrow> bool" where
  "is_ascii_alphabetic b \<longleftrightarrow> is_ascii_upper b \<or> is_ascii_lower b"

definition is_ascii_alphanumeric :: "byte \<Rightarrow> bool" where
  "is_ascii_alphanumeric b \<longleftrightarrow> is_ascii_alphabetic b \<or> is_ascii_digit b"

definition is_ascii_hexdigit :: "byte \<Rightarrow> bool" where
  "is_ascii_hexdigit b \<longleftrightarrow> is_ascii_digit b \<or> (0x41 \<le> b \<and> b \<le> 0x46) \<or> (0x61 \<le> b \<and> b \<le> 0x66)"

text \<open>\<open>u8::is_ascii_whitespace\<close>: space, tab, line feed, form feed, carriage return.\<close>

definition is_ascii_whitespace :: "byte \<Rightarrow> bool" where
  "is_ascii_whitespace b \<longleftrightarrow> b = 0x20 \<or> b = 0x09 \<or> b = 0x0A \<or> b = 0x0C \<or> b = 0x0D"

definition trim_ascii :: "bytes \<Rightarrow> bytes" where
  "trim_ascii xs = rev (dropWhile is_ascii_whitespace (rev (dropWhile is_ascii_whitespace xs)))"

definition to_ascii_lowercase :: "byte \<Rightarrow> byte" where
  "to_ascii_lowercase b = (if is_ascii_upper b then b + 0x20 else b)"

definition eq_ignore_ascii_case :: "bytes \<Rightarrow> bytes \<Rightarrow> bool" where
  "eq_ignore_ascii_case xs ys \<longleftrightarrow> map to_ascii_lowercase xs = map to_ascii_lowercase ys"

lemma is_ascii_digit_ascii: "is_ascii_digit b \<Longrightarrow> b < 0x80"
  by (simp add: is_ascii_digit_def word_le_nat_alt word_less_nat_alt)

lemma to_ascii_lowercase_digit: "is_ascii_digit b \<Longrightarrow> to_ascii_lowercase b = b"
  by (auto simp: to_ascii_lowercase_def is_ascii_digit_def is_ascii_upper_def
      word_le_nat_alt word_less_nat_alt)

lemma eq_ignore_ascii_case_refl [simp]: "eq_ignore_ascii_case xs xs"
  by (simp add: eq_ignore_ascii_case_def)

lemma eq_ignore_ascii_case_length: "eq_ignore_ascii_case xs ys \<Longrightarrow> length xs = length ys"
  unfolding eq_ignore_ascii_case_def by (metis length_map)

subsection \<open>Search\<close>

text \<open>
  \<open>slice.windows(k)\<close> for \<open>k > 0\<close>, and the case-insensitive substring test the sources build
  from it: \<open>haystack.windows(n.len()).any(|w| w.eq_ignore_ascii_case(n))\<close>.
\<close>

definition windows :: "nat \<Rightarrow> 'a list \<Rightarrow> 'a list list" where
  "windows k xs = map (\<lambda>i. take k (drop i xs)) [0..<Suc (length xs) - k]"

definition any_window_ci :: "bytes \<Rightarrow> bytes \<Rightarrow> bool" where
  "any_window_ci hay needle \<longleftrightarrow> list_ex (\<lambda>w. eq_ignore_ascii_case w needle) (windows (length needle) hay)"

lemma in_windows_iff: "w \<in> set (windows k xs) \<longleftrightarrow> length w = k \<and> (\<exists>p s. xs = p @ w @ s)"
proof
  assume "w \<in> set (windows k xs)"
  then obtain i where i: "i < Suc (length xs) - k" and w: "w = take k (drop i xs)"
    by (auto simp: windows_def)
  then have "drop i xs = w @ drop k (drop i xs)" by (simp only: append_take_drop_id)
  then have "xs = take i xs @ w @ drop k (drop i xs)"
    using append_take_drop_id [of i xs] by argo
  moreover have "length w = k" using i w by simp
  ultimately show "length w = k \<and> (\<exists>p s. xs = p @ w @ s)" by blast
next
  assume "length w = k \<and> (\<exists>p s. xs = p @ w @ s)"
  then obtain p s where l: "length w = k" and xs: "xs = p @ w @ s" by blast
  then have "take k (drop (length p) xs) = w" by simp
  moreover have "length p \<in> set [0..<Suc (length xs) - k]" using l xs by simp
  ultimately show "w \<in> set (windows k xs)" unfolding windows_def set_map by blast
qed

lemma any_window_ci_iff:
  "any_window_ci hay needle \<longleftrightarrow> (\<exists>p w s. hay = p @ w @ s \<and> eq_ignore_ascii_case w needle)"
proof -
  have "any_window_ci hay needle \<longleftrightarrow>
      (\<exists>w. w \<in> set (windows (length needle) hay) \<and> eq_ignore_ascii_case w needle)"
    by (auto simp: any_window_ci_def list_ex_iff)
  also have "\<dots> \<longleftrightarrow> (\<exists>w. (\<exists>p s. hay = p @ w @ s) \<and> eq_ignore_ascii_case w needle)"
    by (auto simp: in_windows_iff dest: eq_ignore_ascii_case_length)
  finally show ?thesis by metis
qed

subsection \<open>Decimal numbers\<close>

definition digit_val :: "byte \<Rightarrow> nat" where
  "digit_val b = unat b - 48"

fun decimal_val :: "nat \<Rightarrow> bytes \<Rightarrow> nat" where
  "decimal_val acc [] = acc"
| "decimal_val acc (b # bs) = decimal_val (10 * acc + digit_val b) bs"

text \<open>\<open>s.parse::<i64>()\<close>: an optional sign, at least one digit, a value in range.\<close>

definition parse_i64 :: "str \<Rightarrow> i64 option" where
  "parse_i64 s =
     (let neg = (s \<noteq> [] \<and> hd s = 0x2D);
          ds = (if s \<noteq> [] \<and> (hd s = 0x2B \<or> hd s = 0x2D) then tl s else s)
      in if ds = [] \<or> \<not> list_all is_ascii_digit ds then None
         else let v = (if neg then - int (decimal_val 0 ds) else int (decimal_val 0 ds))
              in if - (2 ^ 63) \<le> v \<and> v < 2 ^ 63 then Some (i64_of_int v) else None)"

text \<open>The decimal digits of a number, most significant first.\<close>

fun decimal_digits :: "nat \<Rightarrow> bytes" where
  "decimal_digits n =
     (if n < 10 then [of_nat (48 + n)] else decimal_digits (n div 10) @ [of_nat (48 + n mod 10)])"

declare decimal_digits.simps [simp del]

lemma decimal_val_append: "decimal_val acc (xs @ ys) = decimal_val (decimal_val acc xs) ys"
  by (induction xs arbitrary: acc) auto

lemma decimal_val_acc: "decimal_val acc xs = acc * 10 ^ length xs + decimal_val 0 xs"
proof (induction xs arbitrary: acc)
  case Nil
  show ?case by simp
next
  case (Cons b xs)
  have "decimal_val acc (b # xs) = (10 * acc + digit_val b) * 10 ^ length xs + decimal_val 0 xs"
    by (simp add: Cons [of "10 * acc + digit_val b"])
  also have "\<dots> = acc * 10 ^ length (b # xs) + (digit_val b * 10 ^ length xs + decimal_val 0 xs)"
    by (simp add: algebra_simps)
  also have "digit_val b * 10 ^ length xs + decimal_val 0 xs = decimal_val 0 (b # xs)"
    by (simp add: Cons [of "digit_val b"])
  finally show ?case .
qed

lemma digit_val_bound: "is_ascii_digit b \<Longrightarrow> digit_val b < 10"
  by (auto simp: is_ascii_digit_def digit_val_def word_le_nat_alt)

lemma unat_digit: "k < 10 \<Longrightarrow> unat (of_nat (48 + k) :: byte) = 48 + k"
  by (simp add: unat_of_nat del: of_nat_add)

lemma is_digit_of_nat: "k < 10 \<Longrightarrow> is_ascii_digit (of_nat (48 + k))"
  using unat_digit [of k] by (simp add: is_ascii_digit_def word_le_nat_alt del: of_nat_add)

lemma of_nat_digit_val: "is_ascii_digit b \<Longrightarrow> of_nat (48 + digit_val b) = b"
proof -
  assume "is_ascii_digit b"
  then have "48 + digit_val b = unat b"
    by (simp add: is_ascii_digit_def digit_val_def word_le_nat_alt)
  then show ?thesis by (simp del: of_nat_add)
qed

lemma decimal_val_bound: "list_all is_ascii_digit ds \<Longrightarrow> decimal_val 0 ds < 10 ^ length ds"
proof (induction ds)
  case Nil
  show ?case by simp
next
  case (Cons b ds)
  then have *: "decimal_val 0 ds < 10 ^ length ds" and "digit_val b \<le> 9"
    using digit_val_bound [of b] by auto
  then have "digit_val b * 10 ^ length ds \<le> 9 * 10 ^ length ds"
    by (intro mult_right_mono) simp_all
  with * have "digit_val b * 10 ^ length ds + decimal_val 0 ds < 10 * 10 ^ length ds"
    by linarith
  then show ?case by (simp add: decimal_val_acc [of "digit_val b"])
qed

lemma decimal_digits_ne [simp]: "decimal_digits n \<noteq> []"
  by (subst decimal_digits.simps) simp

lemma decimal_digits_all: "list_all is_ascii_digit (decimal_digits n)"
proof (induction n rule: decimal_digits.induct)
  case (1 n)
  from 1 is_digit_of_nat [of n] is_digit_of_nat [of "n mod 10"] show ?case
    by (subst decimal_digits.simps) (simp del: of_nat_add)
qed

subsection \<open>Trimming and splitting\<close>

text \<open>\<open>char::is_whitespace\<close> on the encoded character.\<close>

definition char_is_whitespace :: "str \<Rightarrow> bool" where
  "char_is_whitespace c \<longleftrightarrow>
     (case c of
        [b] \<Rightarrow> b = 0x20 \<or> (0x09 \<le> b \<and> b \<le> 0x0D)
      | [b1, b2] \<Rightarrow> b1 = 0xC2 \<and> (b2 = 0x85 \<or> b2 = 0xA0)
      | [b1, b2, b3] \<Rightarrow> (b1 = 0xE1 \<and> b2 = 0x9A \<and> b3 = 0x80) \<or>
          (b1 = 0xE2 \<and> b2 = 0x80 \<and> (b3 \<le> 0x8A \<or> b3 = 0xA8 \<or> b3 = 0xA9 \<or> b3 = 0xAF)) \<or>
          (b1 = 0xE2 \<and> b2 = 0x81 \<and> b3 = 0x9F) \<or> (b1 = 0xE3 \<and> b2 = 0x80 \<and> b3 = 0x80)
      | _ \<Rightarrow> False)"

definition str_trim :: "str \<Rightarrow> str" where
  "str_trim s = concat (rev (dropWhile char_is_whitespace (rev (dropWhile char_is_whitespace (chars s)))))"

text \<open>\<open>split\<close> at every byte that satisfies a predicate, and \<open>split_once\<close> at an ASCII character.\<close>

fun split_by :: "(byte \<Rightarrow> bool) \<Rightarrow> bytes \<Rightarrow> bytes list" where
  "split_by P [] = [[]]"
| "split_by P (b # s) = (if P b then [] # split_by P s else (b # hd (split_by P s)) # tl (split_by P s))"

definition split_once :: "byte \<Rightarrow> str \<Rightarrow> (str \<times> str) option" where
  "split_once c s = (if c \<in> set s then Some (takeWhile (\<lambda>b. b \<noteq> c) s, tl (dropWhile (\<lambda>b. b \<noteq> c) s)) else None)"

end
