(* ===== verification/Reader.thy ===== *)
theory Reader
  imports Text
begin

section \<open>The bounds-checked reader, column frames and presence bitmaps\<close>

text \<open>
  The byte-level primitives of \<open>crates/timeless-codec/src/lib.rs\<close>: the cursor \<open>Reader\<close> every
  decoder reads through, the column frame \<open>[u8 id][u32 len][payload]\<close>, the checks on counts and
  ranges read from container headers, and the presence bitmaps.
\<close>

subsection \<open>Reader\<close>

record reader =
  rd_buf :: bytes
  rd_pos :: nat

definition reader_new :: "bytes \<Rightarrow> reader" where
  "reader_new buf = \<lparr>rd_buf = buf, rd_pos = 0\<rparr>"

definition reader_remaining :: "reader \<Rightarrow> nat" where
  "reader_remaining r = length (rd_buf r) - rd_pos r"

definition reader_take :: "reader \<Rightarrow> nat \<Rightarrow> string \<Rightarrow> (bytes \<times> reader) res" where
  "reader_take r n what =
     and_then (ok_or (checked_add (rd_pos r) n) (LengthOverflow what)) (\<lambda>fin.
     if fin > length (rd_buf r) then Inl (Truncated what n (rd_pos r) (reader_remaining r))
     else and_then (slice_r ''buf'' (rd_buf r) (rd_pos r) fin) (\<lambda>s. Inr (s, r\<lparr>rd_pos := fin\<rparr>)))"

definition reader_u8 :: "reader \<Rightarrow> string \<Rightarrow> (byte \<times> reader) res" where
  "reader_u8 r what = and_then (reader_take r 1 what) (\<lambda>(s, r'). and_then (index_r ''take'' s 0) (\<lambda>b. Inr (b, r')))"

definition reader_u16 :: "reader \<Rightarrow> string \<Rightarrow> (u16 \<times> reader) res" where
  "reader_u16 r what = and_then (reader_take r 2 what) (\<lambda>(s, r'). and_then (array_r 2 s) (\<lambda>a. Inr (u16_from_le a, r')))"

definition reader_u32 :: "reader \<Rightarrow> string \<Rightarrow> (u32 \<times> reader) res" where
  "reader_u32 r what = and_then (reader_take r 4 what) (\<lambda>(s, r'). and_then (array_r 4 s) (\<lambda>a. Inr (u32_from_le a, r')))"

definition reader_i64 :: "reader \<Rightarrow> string \<Rightarrow> (i64 \<times> reader) res" where
  "reader_i64 r what = and_then (reader_take r 8 what) (\<lambda>(s, r'). and_then (array_r 8 s) (\<lambda>a. Inr (i64_from_le a, r')))"

definition reader_framed_column :: "reader \<Rightarrow> string \<Rightarrow> (bytes \<times> reader) res" where
  "reader_framed_column r what =
     (let start = rd_pos r in
      and_then (reader_u8 r what) (\<lambda>(_, r).
      and_then (reader_u32 r what) (\<lambda>(len, r).
      and_then (reader_take r (unat len) what) (\<lambda>(_, r).
      and_then (slice_r ''buf'' (rd_buf r) start (rd_pos r)) (\<lambda>f. Inr (f, r))))))"

text \<open>The panics of the reader are never reached: its bounds check is what the slice needs.\<close>

lemma reader_take_eq:
  "reader_take r n what =
     and_then (ok_or (checked_add (rd_pos r) n) (LengthOverflow what)) (\<lambda>fin.
     if fin > length (rd_buf r) then Inl (Truncated what n (rd_pos r) (reader_remaining r))
     else Inr (take n (drop (rd_pos r) (rd_buf r)), r\<lparr>rd_pos := fin\<rparr>))"
  unfolding reader_take_def by (rule and_then_cong) (auto simp: slice_r_def)

lemma reader_take_length: "reader_take r n what = Inr (s, r') \<Longrightarrow> length s = n"
  by (auto simp: reader_take_eq split: if_split_asm)

lemma reader_fields_eq:
  "reader_u8 r what = and_then (reader_take r 1 what) (\<lambda>(s, r'). Inr (hd s, r'))"
  "reader_u16 r what = and_then (reader_take r 2 what) (\<lambda>(s, r'). Inr (u16_from_le s, r'))"
  "reader_u32 r what = and_then (reader_take r 4 what) (\<lambda>(s, r'). Inr (u32_from_le s, r'))"
  "reader_i64 r what = and_then (reader_take r 8 what) (\<lambda>(s, r'). Inr (i64_from_le s, r'))"
proof -
  have "index_r ''take'' s 0 = Inr (hd s)" if "length s = 1" for s :: bytes using that by (cases s) simp_all
  then show "reader_u8 r what = and_then (reader_take r 1 what) (\<lambda>(s, r'). Inr (hd s, r'))"
    unfolding reader_u8_def by (cases "reader_take r 1 what") (auto dest!: reader_take_length)
  show "reader_u16 r what = and_then (reader_take r 2 what) (\<lambda>(s, r'). Inr (u16_from_le s, r'))"
    unfolding reader_u16_def by (cases "reader_take r 2 what") (auto simp: array_r_def dest!: reader_take_length)
  show "reader_u32 r what = and_then (reader_take r 4 what) (\<lambda>(s, r'). Inr (u32_from_le s, r'))"
    unfolding reader_u32_def by (cases "reader_take r 4 what") (auto simp: array_r_def dest!: reader_take_length)
  show "reader_i64 r what = and_then (reader_take r 8 what) (\<lambda>(s, r'). Inr (i64_from_le s, r'))"
    unfolding reader_i64_def by (cases "reader_take r 8 what") (auto simp: array_r_def dest!: reader_take_length)
qed

lemma reader_framed_column_eq:
  "reader_framed_column r what =
     (let start = rd_pos r in
      and_then (reader_u8 r what) (\<lambda>(_, r).
      and_then (reader_u32 r what) (\<lambda>(len, r).
      and_then (reader_take r (unat len) what) (\<lambda>(_, r).
      Inr (take (rd_pos r - start) (drop start (rd_buf r)), r)))))"
proof -
  have 1: "rd_pos r \<le> rd_pos r' \<and> rd_pos r' \<le> length (rd_buf r') \<and> rd_buf r' = rd_buf r" if "reader_take r k w = Inr (s, r')" for r k w s r'
    using that by (auto simp: reader_take_eq split: if_split_asm)
  have "slice_r ''buf'' (rd_buf r3) (rd_pos r) (rd_pos r3) = Inr (take (rd_pos r3 - rd_pos r) (drop (rd_pos r) (rd_buf r3)))"
    if r: "reader_u8 r what = Inr (x, r1)" "reader_u32 r1 what = Inr (l, r2)" "reader_take r2 (unat l) what = Inr (y, r3)" for x r1 l r2 y r3
  proof -
    obtain s1 s2 where "reader_take r 1 what = Inr (s1, r1)" "reader_take r1 4 what = Inr (s2, r2)" using r(1,2) by (auto simp: reader_fields_eq)
    from 1 [OF this(1)] 1 [OF this(2)] 1 [OF r(3)] show ?thesis by (auto simp: slice_r_def)
  qed
  then show ?thesis unfolding reader_framed_column_def Let_def by (auto intro!: and_then_cong simp: split_def)
qed

text \<open>
  Reasoning about a reader: what is left of its buffer, and the reader some bytes further on. A
  well-formed reader is one whose position is inside its buffer and whose buffer is a slice that
  fits the address space.
\<close>

definition rest :: "reader \<Rightarrow> bytes" where
  "rest r = drop (rd_pos r) (rd_buf r)"

definition adv :: "nat \<Rightarrow> reader \<Rightarrow> reader" where
  "adv n r = r\<lparr>rd_pos := rd_pos r + n\<rparr>"

definition reader_wf :: "reader \<Rightarrow> bool" where
  "reader_wf r \<longleftrightarrow> rd_pos r \<le> length (rd_buf r) \<and> length (rd_buf r) \<le> USIZE_MAX"

lemma rest_new [simp]: "rest (reader_new b) = b"
  by (simp add: rest_def reader_new_def)

lemma rest_adv [simp]: "rest (adv n r) = drop n (rest r)"
  by (simp add: rest_def adv_def add.commute)

lemma adv_adv [simp]: "adv n (adv m r) = adv (m + n) r"
  by (simp add: adv_def add.assoc)

lemma adv_0 [simp]: "adv 0 r = r"
  by (simp add: adv_def)

lemma reader_wf_new [simp]: "reader_wf (reader_new b) \<longleftrightarrow> length b \<le> USIZE_MAX"
  by (simp add: reader_wf_def reader_new_def)

lemma reader_wf_adv [simp]: "reader_wf r \<Longrightarrow> n \<le> length (rest r) \<Longrightarrow> reader_wf (adv n r)"
  by (auto simp: reader_wf_def adv_def rest_def)

lemma reader_remaining_rest: "reader_remaining r = length (rest r)"
  by (simp add: reader_remaining_def rest_def)

lemma reader_wf_rest: "reader_wf r \<Longrightarrow> length (rest r) \<le> USIZE_MAX"
  by (auto simp: reader_wf_def rest_def)

lemma reader_take_ok [codec_simps]:
  "reader_wf r \<Longrightarrow> n \<le> length (rest r) \<Longrightarrow> reader_take r n w = Inr (take n (rest r), adv n r)"
  by (auto simp: reader_take_eq reader_wf_def rest_def adv_def checked_add_def)

text \<open>What a successful read says, for readers that are not known to hold anything.\<close>

lemma reader_take_Inr:
  "reader_take r n w = Inr (s, r') \<longleftrightarrow>
     s = take n (rest r) \<and> r' = adv n r \<and> rd_pos r + n \<le> length (rd_buf r) \<and> rd_pos r + n \<le> USIZE_MAX"
  by (auto simp: reader_take_eq rest_def adv_def)

lemma reader_take_wf: "reader_take r n w = Inr (s, r') \<Longrightarrow> reader_wf r \<Longrightarrow>
    n \<le> length (rest r) \<and> s = take n (rest r) \<and> r' = adv n r \<and> reader_wf r'"
  by (auto simp: reader_take_Inr reader_wf_def rest_def adv_def)

lemma reader_u8_ok [codec_simps]:
  "reader_wf r \<Longrightarrow> 1 \<le> length (rest r) \<Longrightarrow> reader_u8 r w = Inr (hd (rest r), adv 1 r)"
  by (cases "rest r") (simp_all add: reader_fields_eq reader_take_ok)

lemma reader_u16_ok [codec_simps]:
  "reader_wf r \<Longrightarrow> 2 \<le> length (rest r) \<Longrightarrow> reader_u16 r w = Inr (u16_from_le (take 2 (rest r)), adv 2 r)"
  by (simp add: reader_fields_eq reader_take_ok)

lemma reader_u32_ok [codec_simps]:
  "reader_wf r \<Longrightarrow> 4 \<le> length (rest r) \<Longrightarrow> reader_u32 r w = Inr (u32_from_le (take 4 (rest r)), adv 4 r)"
  by (simp add: reader_fields_eq reader_take_ok)

lemma reader_i64_ok [codec_simps]:
  "reader_wf r \<Longrightarrow> 8 \<le> length (rest r) \<Longrightarrow> reader_i64 r w = Inr (i64_from_le (take 8 (rest r)), adv 8 r)"
  by (simp add: reader_fields_eq reader_take_ok)

lemma reader_u8_wf: "reader_u8 r w = Inr (s, r') \<Longrightarrow> reader_wf r \<Longrightarrow>
    1 \<le> length (rest r) \<and> s = hd (rest r) \<and> r' = adv 1 r \<and> reader_wf r'"
  by (cases "rest r") (auto simp: reader_fields_eq dest!: reader_take_wf)

lemma reader_u16_wf: "reader_u16 r w = Inr (s, r') \<Longrightarrow> reader_wf r \<Longrightarrow>
    2 \<le> length (rest r) \<and> s = u16_from_le (take 2 (rest r)) \<and> r' = adv 2 r \<and> reader_wf r'"
  by (auto simp: reader_fields_eq dest!: reader_take_wf)

lemma reader_u32_wf: "reader_u32 r w = Inr (s, r') \<Longrightarrow> reader_wf r \<Longrightarrow>
    4 \<le> length (rest r) \<and> s = u32_from_le (take 4 (rest r)) \<and> r' = adv 4 r \<and> reader_wf r'"
  by (auto simp: reader_fields_eq dest!: reader_take_wf)

lemma reader_i64_wf: "reader_i64 r w = Inr (s, r') \<Longrightarrow> reader_wf r \<Longrightarrow>
    8 \<le> length (rest r) \<and> s = i64_from_le (take 8 (rest r)) \<and> r' = adv 8 r \<and> reader_wf r'"
  by (auto simp: reader_fields_eq dest!: reader_take_wf)

lemmas reader_wf_dests = reader_take_wf reader_u8_wf reader_u16_wf reader_u32_wf reader_i64_wf

text \<open>No read panics, whatever the reader's state.\<close>

lemma reader_no_panic [simp]:
  "\<not> is_panic (reader_take r n w)" "\<not> is_panic (reader_u8 r w)" "\<not> is_panic (reader_u16 r w)"
  "\<not> is_panic (reader_u32 r w)" "\<not> is_panic (reader_i64 r w)" "\<not> is_panic (reader_framed_column r w)"
  by (auto simp: reader_take_eq reader_fields_eq reader_fields_eq reader_fields_eq reader_fields_eq
      reader_framed_column_eq Let_def)

subsection \<open>Counts, lengths and ranges read from headers\<close>

definition MAX_BLOCK_ENTRIES :: nat where "MAX_BLOCK_ENTRIES = 1048576"
definition DECOMPRESS_MAX_BYTES :: nat where "DECOMPRESS_MAX_BYTES = 67108864"

definition u32_len :: "nat \<Rightarrow> string \<Rightarrow> u32 res" where
  "u32_len len what = (if len \<le> U32_MAX then Inr (of_nat len) else Inl (ExceedsU32 what len))"

lemma u32_len_Inr [simp]: "u32_len len w = Inr x \<longleftrightarrow> len \<le> U32_MAX \<and> x = of_nat len"
  by (auto simp: u32_len_def)

definition exact_cap :: "nat \<Rightarrow> nat \<Rightarrow> string \<Rightarrow> nat res" where
  "exact_cap n width what = ok_or (checked_mul n width) (CountOverflow what)"

definition check_entry_count :: "nat \<Rightarrow> string \<Rightarrow> unit res" where
  "check_entry_count n what = ensure (\<not> n > MAX_BLOCK_ENTRIES) (EntryLimit what n)"

definition validate_minimum_encoded_len :: "nat \<Rightarrow> nat \<Rightarrow> nat \<Rightarrow> string \<Rightarrow> unit res" where
  "validate_minimum_encoded_len count width available what =
     and_then (ok_or (checked_mul count width) (CountOverflow what)) (\<lambda>minimum.
     if minimum > available then Inl (TooShort what count minimum available) else Inr ())"

text \<open>
  \<open>Vec::try_reserve\<close> refuses a capacity of more than \<open>isize::MAX\<close> bytes; a \<open>String\<close> is 24 bytes.
  Running out of memory is not modelled.
\<close>

definition reserve_decoded :: "nat \<Rightarrow> string \<Rightarrow> unit res" where
  "reserve_decoded count what = ensure (count * 24 \<le> USIZE_MAX div 2) (AllocFailed what count)"

definition check_block_range :: "string \<Rightarrow> nat \<Rightarrow> i64 \<Rightarrow> i64 \<Rightarrow> i64 list \<Rightarrow> unit res" where
  "check_block_range what n ts_min ts_max timestamps =
     (if length timestamps \<noteq> n then Inl (WrongCount what (length timestamps) n)
      else let (lo, hi) = fold (\<lambda>t (a, b). (min a t, max b t)) timestamps (I64_MAX, I64_MIN)
           in if lo \<noteq> ts_min \<or> hi \<noteq> ts_max then Inl (RangeMismatch what) else Inr ())"

lemma fold_min_max:
  "fold (\<lambda>t (a, b). (min a t, max b t)) ts (a, b) = (fold min ts a, fold max ts (b :: 'a::linorder))"
  by (induction ts arbitrary: a b) (auto simp: min.commute max.commute)

lemma fold_min_Min: "ts \<noteq> [] \<Longrightarrow> fold min ts I64_MAX = Min (set ts)"
proof -
  assume "ts \<noteq> []"
  have "fold min ts I64_MAX = Min (set (I64_MAX # ts))"
    by (rule Min.set_eq_fold [symmetric])
  also have "\<dots> = Min (set ts)"
    using \<open>ts \<noteq> []\<close> by (simp add: min_absorb2)
  finally show ?thesis .
qed

lemma fold_max_Max: "ts \<noteq> [] \<Longrightarrow> fold max ts I64_MIN = Max (set ts)"
proof -
  assume "ts \<noteq> []"
  have "fold max ts I64_MIN = Max (set (I64_MIN # ts))"
    by (rule Max.set_eq_fold [symmetric])
  also have "\<dots> = Max (set ts)"
    using \<open>ts \<noteq> []\<close> by (simp add: max_absorb2)
  finally show ?thesis .
qed

lemma check_block_range_iff:
  assumes "ts \<noteq> []"
  shows "check_block_range w n lo hi ts = Inr () \<longleftrightarrow>
      length ts = n \<and> lo = Min (set ts) \<and> hi = Max (set ts)"
  using assms
  by (auto simp: check_block_range_def fold_min_max fold_min_Min fold_max_Max)

lemma header_checks_no_panic [simp]:
  "\<not> is_panic (u32_len n w)" "\<not> is_panic (exact_cap n k w)" "\<not> is_panic (check_entry_count n w)"
  "\<not> is_panic (validate_minimum_encoded_len c k a w)" "\<not> is_panic (reserve_decoded c w)"
  "\<not> is_panic (check_block_range w n lo hi ts)"
  by (auto simp: u32_len_def exact_cap_def check_entry_count_def validate_minimum_encoded_len_def
      reserve_decoded_def check_block_range_def split: prod.splits)

subsection \<open>Column frames\<close>

record column_enc =
  ce_encoding :: byte
  ce_payload :: bytes

definition FRAME_LEN :: nat where "FRAME_LEN = 5"

definition to_bytes :: "column_enc \<Rightarrow> bytes res" where
  "to_bytes c =
     and_then (u32_len (length (ce_payload c)) ''column payload'') (\<lambda>len.
     Inr ([ce_encoding c] @ u32_le len @ ce_payload c))"

definition encoded_len :: "column_enc \<Rightarrow> nat" where
  "encoded_len c = FRAME_LEN + length (ce_payload c)"

definition read_column_frame :: "bytes \<Rightarrow> string \<Rightarrow> (byte \<times> bytes) res" where
  "read_column_frame bytes what =
     and_then (reader_u8 (reader_new bytes) what) (\<lambda>(enc, r).
     and_then (reader_u32 r what) (\<lambda>(len, r).
     and_then (reader_take r (unat len) what) (\<lambda>(payload, r).
     if reader_remaining r \<noteq> 0 then Inl (Trailing what (reader_remaining r))
     else Inr (enc, payload))))"

lemma to_bytes_Inr [simp]:
  "to_bytes c = Inr b \<longleftrightarrow>
     length (ce_payload c) \<le> U32_MAX \<and>
     b = ce_encoding c # u32_le (of_nat (length (ce_payload c))) @ ce_payload c"
  by (auto simp: to_bytes_def)

lemma to_bytes_length: "to_bytes c = Inr b \<Longrightarrow> length b = encoded_len c"
  by (simp add: encoded_len_def FRAME_LEN_def)

lemma read_column_frame_to_bytes [codec_simps]:
  assumes "to_bytes c = Inr b"
  shows "read_column_frame b w = Inr (ce_encoding c, ce_payload c)"
proof -
  have "length b \<le> USIZE_MAX" using assms by (simp add: machine_limits)
  with assms show ?thesis
    by (simp add: read_column_frame_def codec_simps reader_remaining_rest)
qed

lemma read_column_frame_inverse:
  assumes "length b \<le> USIZE_MAX" "read_column_frame b w = Inr (e, p)"
  shows "to_bytes \<lparr>ce_encoding = e, ce_payload = p\<rparr> = Inr b"
proof -
  let ?l = "u32_from_le (take 4 (drop 1 b))"
  from assms have len: "1 \<le> length b" "4 \<le> length (drop 1 b)" and e: "e = hd b"
    and p: "p = take (unat ?l) (drop 5 b)" and "unat ?l \<le> length (drop 5 b)"
    and "drop (unat ?l) (drop 5 b) = []"
    by (auto simp: read_column_frame_def reader_remaining_rest dest!: reader_wf_dests split: if_splits)
  then have p': "p = drop 5 b" and lp: "length p = unat ?l" by auto
  have "le_nat (take 4 (drop 1 b)) < 2 ^ 32"
    using le_nat_bound [of "take 4 (drop 1 b)"] len by simp
  then have "u32_le ?l = take 4 (drop 1 b)"
    using len by (simp add: u32_le_def u32_from_le_def unat_of_nat)
  moreover have "b = hd b # take 4 (drop 1 b) @ drop 5 b"
  proof -
    have "b = hd b # drop 1 b" using len(1) by (cases b) auto
    moreover have "drop 1 b = take 4 (drop 1 b) @ drop 5 b"
      using append_take_drop_id [of 4 "drop 1 b"] by simp
    ultimately show ?thesis by argo
  qed
  ultimately show ?thesis using e p' lp by simp
qed

lemma reader_framed_column_ok [codec_simps]:
  assumes "reader_wf r" "to_bytes c = Inr b" "rest r = b @ ys"
  shows "reader_framed_column r w = Inr (b, adv (length b) r)"
proof -
  let ?p = "ce_payload c"
  have l: "length (rest r) = 5 + length ?p + length ys" using assms by simp
  have u: "unat (u32_from_le (take 4 (drop 1 (rest r)))) = length ?p" using assms by simp
  have "take (length b) (drop (rd_pos r) (rd_buf r)) = b"
    using assms(3) by (simp add: rest_def)
  moreover have "rd_pos (adv n r) = rd_pos r + n" "rd_buf (adv n r) = rd_buf r" for n
    by (simp_all add: adv_def)
  ultimately show ?thesis
    using assms l u by (simp add: reader_framed_column_eq Let_def codec_simps)
qed

lemma column_frame_no_panic [simp]:
  "\<not> is_panic (read_column_frame b w)" "\<not> is_panic (to_bytes c)"
  by (auto simp: read_column_frame_def to_bytes_def)

end
