(* ===== verification/Column.thy ===== *)
theory Column
  imports Reader
begin

unbundle bit_operations_syntax

section \<open>Typed column encoders\<close>

text \<open>
  The column encoders and decoders of \<open>crates/timeless-codec/src/lib.rs\<close> for presence bitmaps and
  for \<open>i64\<close>, \<open>f64\<close>, \<open>u8\<close> and fixed-width byte columns, and the contract every typed column codec
  keeps (locale \<open>column_codec\<close>). String columns are in theory \<open>StrColumn\<close>.

  The two third-party compressors are parameters of the encoders and decoders: the record
  \<open>codec_lib\<close> holds zstd's bulk compressor and decompressor and pco's standalone ones. What the
  code relies on is \<open>codec_lib_ok\<close>: a zstd frame decompresses to the bytes it was made from
  whenever the capacity allows and is refused otherwise, no frame decompresses past the capacity,
  and a pco stream decompresses into a destination of its own length with nothing left over.
\<close>

subsection \<open>Presence bitmaps\<close>

definition bitmap_len :: "nat \<Rightarrow> nat" where
  "bitmap_len n = (n + 7) div 8"

fun bitmap_set :: "nat \<Rightarrow> bool list \<Rightarrow> bytes \<Rightarrow> bytes" where
  "bitmap_set i [] out = out"
| "bitmap_set i (b # bs) out =
     bitmap_set (Suc i) bs
       (if b then out[i div 8 := (out ! (i div 8)) OR push_bit (i mod 8) 1] else out)"

definition encode_bitmap :: "bool list \<Rightarrow> bytes" where
  "encode_bitmap bits = bitmap_set 0 bits (replicate (bitmap_len (length bits)) 0)"

definition decode_bitmap :: "bytes \<Rightarrow> nat \<Rightarrow> bool list res" where
  "decode_bitmap bs n =
     (if length bs \<noteq> bitmap_len n then Inl (WrongCount ''bitmap'' (length bs) (bitmap_len n))
      else
        and_then
          (if n mod 8 \<noteq> 0 then
             and_then (index_r ''bytes'' bs (length bs - 1)) (\<lambda>lst.
             if lst AND NOT (push_bit (n mod 8) 1 - 1) \<noteq> 0 then Inl (PadBits ''bitmap'') else Inr ())
           else Inr ()) (\<lambda>_.
        collect_r (\<lambda>i. and_then (index_r ''bytes'' bs (i div 8)) (\<lambda>b. Inr (b AND push_bit (i mod 8) 1 \<noteq> 0))) [0..<n]))"

lemma bitmap_index: "i < n \<Longrightarrow> i div 8 < bitmap_len n"
  by (auto simp: bitmap_len_def)

text \<open>The length check is what the two indexings need.\<close>

lemma decode_bitmap_eq:
  "decode_bitmap bs n =
     (if length bs \<noteq> bitmap_len n then Inl (WrongCount ''bitmap'' (length bs) (bitmap_len n))
      else if n mod 8 \<noteq> 0 \<and> last bs AND NOT (push_bit (n mod 8) 1 - 1) \<noteq> 0
        then Inl (PadBits ''bitmap'')
      else Inr (map (\<lambda>i. bs ! (i div 8) AND push_bit (i mod 8) 1 \<noteq> 0) [0..<n]))"
proof (cases "length bs = bitmap_len n")
  case True
  have "collect_r (\<lambda>i. and_then (index_r ''bytes'' bs (i div 8)) (\<lambda>b. Inr (b AND push_bit (i mod 8) 1 \<noteq> 0))) [0..<n] =
      Inr (map (\<lambda>i. bs ! (i div 8) AND push_bit (i mod 8) 1 \<noteq> 0) [0..<n])"
    by (rule collect_r_map) (simp add: True bitmap_index)
  moreover have "index_r ''bytes'' bs (length bs - 1) = Inr (last bs)" if "n mod 8 \<noteq> 0"
  proof -
    have "bs \<noteq> []" using that True by (auto simp: bitmap_len_def)
    then show ?thesis by (simp add: last_conv_nth)
  qed
  ultimately show ?thesis using True by (simp add: decode_bitmap_def)
qed (simp add: decode_bitmap_def)

lemma length_bitmap_set [simp]: "length (bitmap_set i bs out) = length out"
  by (induction i bs out rule: bitmap_set.induct) auto

lemma length_encode_bitmap [simp]: "length (encode_bitmap bits) = bitmap_len (length bits)"
  by (simp add: encode_bitmap_def)

lemma bit_bitmap_set:
  assumes "i + length bs \<le> 8 * length out" "j < length out" "k < 8"
  shows "bit (bitmap_set i bs out ! j) k \<longleftrightarrow>
     bit (out ! j) k \<or> (i \<le> 8 * j + k \<and> 8 * j + k < i + length bs \<and> bs ! (8 * j + k - i))"
  using assms
proof (induction i bs out rule: bitmap_set.induct)
  case (1 i out)
  then show ?case by auto
next
  case (2 i b bs out)
  let ?out = "if b then out[i div 8 := (out ! (i div 8)) OR push_bit (i mod 8) 1] else out"
  have IH: "bit (bitmap_set (Suc i) bs ?out ! j) k \<longleftrightarrow>
     bit (?out ! j) k \<or>
     (Suc i \<le> 8 * j + k \<and> 8 * j + k < Suc i + length bs \<and> bs ! (8 * j + k - Suc i))"
    using 2 by auto
  have eq: "i div 8 = j \<and> i mod 8 = k \<longleftrightarrow> 8 * j + k = i"
    using \<open>k < 8\<close> by auto
  have lt: "i div 8 < length out" using 2(2) by auto
  have "bit (?out ! j) k \<longleftrightarrow> bit (out ! j) k \<or> (b \<and> 8 * j + k = i)"
    using lt \<open>k < 8\<close> \<open>j < length out\<close> eq
    by (auto simp: nth_list_update bit_simps)
  then show ?case using IH
    by (auto simp: nth_Cons' Suc_le_eq simp flip: diff_Suc_eq_diff_pred)
qed

lemma bit_encode_bitmap:
  assumes "j < bitmap_len (length bits)" "k < 8"
  shows "bit (encode_bitmap bits ! j) k \<longleftrightarrow> 8 * j + k < length bits \<and> bits ! (8 * j + k)"
proof -
  have "length bits \<le> 8 * bitmap_len (length bits)" by (simp add: bitmap_len_def)
  then show ?thesis
    using bit_bitmap_set [of 0 bits "replicate (bitmap_len (length bits)) 0" j k] assms
    by (simp add: encode_bitmap_def)
qed

lemma and_push_bit_1: "(x :: byte) AND push_bit k 1 \<noteq> 0 \<longleftrightarrow> bit x k"
  by (simp add: bit_iff_and_push_bit_not_eq_0)

lemma pad_bits_iff:
  "(x :: byte) AND NOT (push_bit m 1 - 1) = 0 \<longleftrightarrow> (\<forall>k. m \<le> k \<and> k < 8 \<longrightarrow> \<not> bit x k)"
proof -
  have "push_bit m 1 - 1 = (mask m :: byte)"
    by (simp add: mask_eq_exp_minus_1)
  then show ?thesis
    by (auto simp: bit_eq_iff bit_simps)
qed

lemma and_exp_1: "(x :: byte) AND 2 ^ k \<noteq> 0 \<longleftrightarrow> bit x k"
  using and_push_bit_1 [of x k] by simp

lemma bitmap_len_partial: "n mod 8 \<noteq> 0 \<Longrightarrow> bitmap_len n = Suc (n div 8)"
proof -
  have "(8 * q + m + 7) div 8 = Suc q" if "0 < m" "m < 8" for q m :: nat
    using that by (intro div_nat_eqI) simp_all
  from this [of "n mod 8" "n div 8"] show "n mod 8 \<noteq> 0 \<Longrightarrow> ?thesis"
    by (simp add: bitmap_len_def)
qed

lemma bitmap_pad_index:
  assumes "\<not> 8 * j + k < n" "j < bitmap_len n" "k < 8"
  shows "j = bitmap_len n - 1 \<and> n mod 8 \<noteq> 0 \<and> n mod 8 \<le> k"
proof -
  have "Suc j * 8 \<le> n + 7"
    using assms(2) unfolding bitmap_len_def Suc_le_eq [symmetric]
    by (simp add: less_eq_div_iff_mult_less_eq)
  then have "n div 8 = j" using assms by (intro div_nat_eqI) auto
  moreover from this have "n mod 8 = n - 8 * j" by (metis minus_mult_div_eq_mod)
  ultimately show ?thesis
    using assms \<open>Suc j * 8 \<le> n + 7\<close> by (simp add: bitmap_len_partial)
qed

lemma decode_encode_bitmap [codec_simps]: "decode_bitmap (encode_bitmap bits) (length bits) = Inr bits"
proof -
  let ?n = "length bits"
  have pads: "\<not> bit (last (encode_bitmap bits)) k"
    if "?n mod 8 \<noteq> 0" "?n mod 8 \<le> k" "k < 8" for k
  proof -
    have "last (encode_bitmap bits) = encode_bitmap bits ! (bitmap_len ?n - 1)"
      using that(1) by (subst last_conv_nth) (auto simp: bitmap_len_def simp flip: length_0_conv)
    moreover have "8 * (bitmap_len ?n - 1) + ?n mod 8 = ?n" "bitmap_len ?n - 1 < bitmap_len ?n"
      using that(1) by (simp_all add: bitmap_len_partial)
    ultimately show ?thesis
      using that by (simp add: bit_encode_bitmap)
  qed
  have "map (\<lambda>i. encode_bitmap bits ! (i div 8) AND push_bit (i mod 8) 1 \<noteq> 0) [0..<?n] = bits"
    by (rule nth_equalityI) (simp_all add: and_exp_1 bit_encode_bitmap bitmap_index)
  moreover have "last (encode_bitmap bits) AND NOT (push_bit (?n mod 8) 1 - 1) = 0"
    if "?n mod 8 \<noteq> 0"
    unfolding pad_bits_iff using pads that by blast
  ultimately show ?thesis
    unfolding decode_bitmap_eq by auto
qed

lemma encode_decode_bitmap:
  assumes "decode_bitmap bs n = Inr bits"
  shows "encode_bitmap bits = bs"
proof -
  from assms have len: "length bs = bitmap_len n"
    and bits: "bits = map (\<lambda>i. bs ! (i div 8) AND push_bit (i mod 8) 1 \<noteq> 0) [0..<n]"
    and pad: "n mod 8 \<noteq> 0 \<Longrightarrow> last bs AND NOT (push_bit (n mod 8) 1 - 1) = 0"
    by (auto simp: decode_bitmap_eq split: if_splits)
  then have ln: "length bits = n" by simp
  show ?thesis
  proof (rule nth_equalityI)
    show "length (encode_bitmap bits) = length bs" using len ln by simp
  next
    fix j assume "j < length (encode_bitmap bits)"
    then have j: "j < bitmap_len n" using ln by simp
    have "bit (encode_bitmap bits ! j) k = bit (bs ! j) k" if "k < 8" for k
    proof (cases "8 * j + k < n")
      case True
      moreover have "(8 * j + k) div 8 = j" "(8 * j + k) mod 8 = k" using that by auto
      ultimately show ?thesis
        using j that ln by (simp add: bit_encode_bitmap bits and_exp_1)
    next
      case False
      then have "j = bitmap_len n - 1" "n mod 8 \<noteq> 0" "n mod 8 \<le> k"
        using bitmap_pad_index [OF False j that] by auto
      moreover from this have "bs ! j = last bs"
        using len j by (subst last_conv_nth) auto
      ultimately have "\<not> bit (bs ! j) k"
        using pad [unfolded pad_bits_iff] that by simp
      with False j that ln show ?thesis by (simp add: bit_encode_bitmap)
    qed
    then show "encode_bitmap bits ! j = bs ! j" by (intro bit_word_eqI) simp
  qed
qed

lemma decode_bitmap_length: "decode_bitmap bs n = Inr bits \<Longrightarrow> length bits = n"
  by (auto simp: decode_bitmap_eq split: if_splits)

lemma decode_bitmap_no_panic [simp]: "\<not> is_panic (decode_bitmap bs n)"
  by (simp add: decode_bitmap_eq)

subsection \<open>The compressors\<close>

record codec_lib =
  zstd_bulk_compress :: "bytes \<Rightarrow> int \<Rightarrow> bytes option"
  zstd_bulk_decompress :: "bytes \<Rightarrow> nat \<Rightarrow> bytes option"
  pco_simple_compress_i64 :: "i64 list \<Rightarrow> bytes option"
  pco_simple_compress_f64 :: "f64 list \<Rightarrow> bytes option"
  pco_decompress_into_i64 :: "bytes \<Rightarrow> nat \<Rightarrow> (i64 list \<times> bool \<times> nat) option"
  pco_decompress_into_f64 :: "bytes \<Rightarrow> nat \<Rightarrow> (f64 list \<times> bool \<times> nat) option"

text \<open>
  \<open>pco_decompress_into\<close> is given the destination's length and yields the filled destination with
  the progress it reports: whether the stream finished and how many values were written.
\<close>

definition zstd_ok :: "codec_lib \<Rightarrow> bool" where
  "zstd_ok lib \<longleftrightarrow>
     (\<forall>d level c cap. zstd_bulk_compress lib d level = Some c \<longrightarrow>
        zstd_bulk_decompress lib c cap = (if length d \<le> cap then Some d else None)) \<and>
     (\<forall>c cap d. zstd_bulk_decompress lib c cap = Some d \<longrightarrow> length d \<le> cap)"

definition pco_ok :: "codec_lib \<Rightarrow> bool" where
  "pco_ok lib \<longleftrightarrow>
     (\<forall>xs c. pco_simple_compress_i64 lib xs = Some c \<longrightarrow>
        pco_decompress_into_i64 lib c (length xs) = Some (xs, True, length xs)) \<and>
     (\<forall>xs c. pco_simple_compress_f64 lib xs = Some c \<longrightarrow>
        pco_decompress_into_f64 lib c (length xs) = Some (xs, True, length xs))"

text \<open>A decompressor never writes past the destination it is given.\<close>

definition pco_dest_ok :: "codec_lib \<Rightarrow> bool" where
  "pco_dest_ok lib \<longleftrightarrow>
     (\<forall>c n xs f k. pco_decompress_into_i64 lib c n = Some (xs, f, k) \<longrightarrow> length xs = n) \<and>
     (\<forall>c n xs f k. pco_decompress_into_f64 lib c n = Some (xs, f, k) \<longrightarrow> length xs = n)"

definition codec_lib_ok :: "codec_lib \<Rightarrow> bool" where
  "codec_lib_ok lib \<longleftrightarrow> zstd_ok lib \<and> pco_ok lib \<and> pco_dest_ok lib"

definition zstd_compress :: "codec_lib \<Rightarrow> bytes \<Rightarrow> int \<Rightarrow> bytes res" where
  "zstd_compress lib data level = ok_or (zstd_bulk_compress lib data level) (CompressFailed ''zstd'')"

definition zstd_decompress_capped :: "codec_lib \<Rightarrow> bytes \<Rightarrow> string \<Rightarrow> nat \<Rightarrow> bytes res" where
  "zstd_decompress_capped lib data what cap =
     ok_or (zstd_bulk_decompress lib data cap) (DecompressFailed what)"

definition zstd_decompress :: "codec_lib \<Rightarrow> bytes \<Rightarrow> string \<Rightarrow> bytes res" where
  "zstd_decompress lib data what = zstd_decompress_capped lib data what DECOMPRESS_MAX_BYTES"

definition pco_compress_i64 :: "codec_lib \<Rightarrow> i64 list \<Rightarrow> bytes res" where
  "pco_compress_i64 lib nums = ok_or (pco_simple_compress_i64 lib nums) (CompressFailed ''pco'')"

definition pco_compress_f64 :: "codec_lib \<Rightarrow> f64 list \<Rightarrow> bytes res" where
  "pco_compress_f64 lib nums = ok_or (pco_simple_compress_f64 lib nums) (CompressFailed ''pco'')"

definition pco_decompress_capped_i64 :: "codec_lib \<Rightarrow> bytes \<Rightarrow> nat \<Rightarrow> string \<Rightarrow> i64 list res" where
  "pco_decompress_capped_i64 lib bs n what =
     and_then (alloc_r n 8) (\<lambda>_.
     and_then (ok_or (pco_decompress_into_i64 lib bs n) (DecompressFailed what)) (\<lambda>(out, finished, n_processed).
     if \<not> finished \<or> n_processed \<noteq> n then Inl (WrongCount what n_processed n) else Inr out))"

definition pco_decompress_capped_f64 :: "codec_lib \<Rightarrow> bytes \<Rightarrow> nat \<Rightarrow> string \<Rightarrow> f64 list res" where
  "pco_decompress_capped_f64 lib bs n what =
     and_then (alloc_r n 8) (\<lambda>_.
     and_then (ok_or (pco_decompress_into_f64 lib bs n) (DecompressFailed what)) (\<lambda>(out, finished, n_processed).
     if \<not> finished \<or> n_processed \<noteq> n then Inl (WrongCount what n_processed n) else Inr out))"

lemma zstd_compress_Inr [simp]:
  "zstd_compress lib d l = Inr c \<longleftrightarrow> zstd_bulk_compress lib d l = Some c"
  by (simp add: zstd_compress_def)

lemma zstd_roundtrip [codec_simps]:
  "codec_lib_ok lib \<Longrightarrow> zstd_bulk_compress lib d l = Some c \<Longrightarrow> length d \<le> cap \<Longrightarrow>
     zstd_decompress_capped lib c w cap = Inr d"
  by (auto simp: codec_lib_ok_def zstd_ok_def zstd_decompress_capped_def)

lemma zstd_over_cap:
  "codec_lib_ok lib \<Longrightarrow> zstd_bulk_compress lib d l = Some c \<Longrightarrow> cap < length d \<Longrightarrow>
     zstd_decompress_capped lib c w cap = Inl (DecompressFailed w)"
  by (auto simp: codec_lib_ok_def zstd_ok_def zstd_decompress_capped_def)

lemma zstd_decompress_capped_length:
  "zstd_decompress_capped lib c w cap = Inr d \<Longrightarrow> codec_lib_ok lib \<Longrightarrow> length d \<le> cap"
  by (auto simp: codec_lib_ok_def zstd_ok_def zstd_decompress_capped_def)

lemma zstd_roundtrip_default [codec_simps]:
  "codec_lib_ok lib \<Longrightarrow> zstd_bulk_compress lib d l = Some c \<Longrightarrow> length d \<le> DECOMPRESS_MAX_BYTES \<Longrightarrow>
     zstd_decompress lib c w = Inr d"
  by (simp add: zstd_decompress_def zstd_roundtrip)

lemma pco_roundtrip [codec_simps]:
  "codec_lib_ok lib \<Longrightarrow> pco_compress_i64 lib xs = Inr c \<Longrightarrow> n = length xs \<Longrightarrow> n * 8 \<le> ISIZE_MAX \<Longrightarrow>
     pco_decompress_capped_i64 lib c n w = Inr xs"
  "codec_lib_ok lib \<Longrightarrow> pco_compress_f64 lib ys = Inr c \<Longrightarrow> n = length ys \<Longrightarrow> n * 8 \<le> ISIZE_MAX \<Longrightarrow>
     pco_decompress_capped_f64 lib c n w = Inr ys"
  by (simp_all add: pco_compress_i64_def pco_compress_f64_def pco_decompress_capped_i64_def
      pco_decompress_capped_f64_def codec_lib_ok_def pco_ok_def alloc_r_def)

lemma compressors_no_panic [simp]:
  "\<not> is_panic (zstd_compress lib d l)" "\<not> is_panic (zstd_decompress_capped lib b w c)"
  "\<not> is_panic (zstd_decompress lib b w)" "is_panic (pco_decompress_capped_i64 lib b n w) \<longleftrightarrow> ISIZE_MAX < n * 8"
  "is_panic (pco_decompress_capped_f64 lib b n w) \<longleftrightarrow> ISIZE_MAX < n * 8"
  by (auto simp: zstd_compress_def zstd_decompress_capped_def zstd_decompress_def
      pco_decompress_capped_i64_def pco_decompress_capped_f64_def split: prod.splits)

subsection \<open>The contract of a typed column codec\<close>

text \<open>
  What the containers (log blocks, span blocks, template columns) rely on: a column that was
  encoded and framed decodes to exactly its values; a decode yields exactly the number of values
  it was asked for; no byte string makes a decoder panic, if the count it is asked for can be allocated. The predicate \<open>fits\<close> is what the encoder
  needs of its input beyond its type (valid UTF-8, sizes the decoder's caps allow).
\<close>

locale column_codec =
  fixes enc :: "codec_lib \<Rightarrow> 'a list \<Rightarrow> int \<Rightarrow> column_enc res"
    and dec :: "codec_lib \<Rightarrow> bytes \<Rightarrow> nat \<Rightarrow> 'a list res"
    and fits :: "'a list \<Rightarrow> bool"
  assumes column_roundtrip:
      "codec_lib_ok lib \<Longrightarrow> fits xs \<Longrightarrow> enc lib xs level = Inr c \<Longrightarrow> to_bytes c = Inr b \<Longrightarrow>
         dec lib b (length xs) = Inr xs"
    and column_count: "codec_lib_ok lib \<Longrightarrow> dec lib b n = Inr xs \<Longrightarrow> length xs = n"
    and column_no_panic: "n * 8 \<le> ISIZE_MAX \<Longrightarrow> \<not> is_panic (dec lib b n)"
begin

text \<open>Encoder and framing in one step, as the containers use them.\<close>

lemma framed_roundtrip:
  assumes "codec_lib_ok lib" "fits xs" "and_then (enc lib xs level) to_bytes = Inr b" "n = length xs"
  shows "dec lib b n = Inr xs"
proof -
  from assms(3) obtain c where "enc lib xs level = Inr c" "to_bytes c = Inr b"
    by (auto simp del: to_bytes_Inr)
  then show ?thesis unfolding assms(4) by (rule column_roundtrip [OF assms(1,2)])
qed

text \<open>Two columns of one length with the same bytes are the same column.\<close>

lemma framed_injective:
  assumes "codec_lib_ok lib" "fits xs" "fits ys" "length xs = length ys"
    and "and_then (enc lib xs level) to_bytes = Inr b" "and_then (enc lib ys level') to_bytes = Inr b"
  shows "xs = ys"
  using framed_roundtrip [OF assms(1,2,5) refl] framed_roundtrip [OF assms(1,3,6) assms(4)] by simp

text \<open>A framed column in the middle of a buffer is read back by \<open>framed_column\<close> and decoded.\<close>

lemma framed_in_container:
  assumes "codec_lib_ok lib" "fits xs" "and_then (enc lib xs level) to_bytes = Inr b"
    and "reader_wf r" "rest r = b @ ys"
  shows "and_then (reader_framed_column r w) (\<lambda>(f, r'). and_then (dec lib f (length xs)) (\<lambda>v. Inr (v, r'))) =
     Inr (xs, adv (length b) r)"
proof -
  from assms(3) obtain c where "to_bytes c = Inr b" by (auto simp del: to_bytes_Inr)
  then have "reader_framed_column r w = Inr (b, adv (length b) r)"
    by (rule reader_framed_column_ok [OF assms(4) _ assms(5)])
  then show ?thesis using framed_roundtrip [OF assms(1-3) refl] by simp
qed

end

end
