(* ===== verification/NumColumn.thy ===== *)
theory NumColumn
  imports Column
begin

section \<open>i64, f64, u8 and fixed-width columns\<close>

text \<open>
  The encoders and decoders of \<open>crates/timeless-codec/src/lib.rs\<close> for numeric and byte columns:
  each picks a strategy by measuring candidates, records its id in the column, and is undone by
  its decoder. The interpretations at the end discharge the contract \<open>column_codec\<close> for them.
\<close>

definition ENC_I64_DELTA_PCO :: byte where "ENC_I64_DELTA_PCO = 1"
definition ENC_I64_DELTA_ZSTD :: byte where "ENC_I64_DELTA_ZSTD = 2"
definition ENC_F64_PCO :: byte where "ENC_F64_PCO = 3"
definition ENC_F64_ZSTD :: byte where "ENC_F64_ZSTD = 4"
definition ENC_U8_RLE :: byte where "ENC_U8_RLE = 7"
definition ENC_U8_ZSTD :: byte where "ENC_U8_ZSTD = 8"
definition ENC_FIXED_ZSTD :: byte where "ENC_FIXED_ZSTD = 9"

lemmas num_encodings = ENC_I64_DELTA_PCO_def ENC_I64_DELTA_ZSTD_def ENC_F64_PCO_def
  ENC_F64_ZSTD_def ENC_U8_RLE_def ENC_U8_ZSTD_def ENC_FIXED_ZSTD_def

definition SAMPLE_LEN :: nat where "SAMPLE_LEN = 65536"

abbreviation column :: "byte \<Rightarrow> bytes \<Rightarrow> column_enc" where
  "column e p \<equiv> \<lparr>ce_encoding = e, ce_payload = p\<rparr>"

subsection \<open>i64 columns\<close>

fun deltas :: "i64 \<Rightarrow> i64 list \<Rightarrow> i64 list" where
  "deltas prev [] = []"
| "deltas prev (v # vs) = i64_wrapping_sub v prev # deltas v vs"

fun undeltas :: "i64 \<Rightarrow> i64 list \<Rightarrow> i64 list" where
  "undeltas prev [] = []"
| "undeltas prev (d # ds) =
     (let p = i64_wrapping_add prev d in p # undeltas p ds)"

definition i64s_to_le_bytes :: "i64 list \<Rightarrow> bytes" where
  "i64s_to_le_bytes values = concat (map i64_le values)"

definition encode_i64 :: "codec_lib \<Rightarrow> i64 list \<Rightarrow> int \<Rightarrow> column_enc res" where
  "encode_i64 lib values zstd_level =
     (if values = [] then
        and_then (zstd_compress lib [] zstd_level) (\<lambda>p. Inr (column ENC_I64_DELTA_ZSTD p))
      else
        let ds = deltas (I64 0) values;
            sample = take (min (length ds) SAMPLE_LEN) ds;
            sample_is_all = (length sample = length ds)
        in and_then (pco_compress_i64 lib sample) (\<lambda>pco_sample.
           and_then (zstd_compress lib (i64s_to_le_bytes sample) zstd_level) (\<lambda>zstd_sample.
           if length pco_sample < length zstd_sample then
             and_then (if sample_is_all then Inr pco_sample else pco_compress_i64 lib ds)
               (\<lambda>p. Inr (column ENC_I64_DELTA_PCO p))
           else
             and_then (if sample_is_all then Inr zstd_sample
                       else zstd_compress lib (i64s_to_le_bytes ds) zstd_level)
               (\<lambda>p. Inr (column ENC_I64_DELTA_ZSTD p)))))"

definition decode_i64 :: "codec_lib \<Rightarrow> bytes \<Rightarrow> nat \<Rightarrow> i64 list res" where
  "decode_i64 lib bytes n =
     and_then (read_column_frame bytes ''i64 column'') (\<lambda>(enc, payload).
     and_then
       (if enc = ENC_I64_DELTA_PCO then pco_decompress_capped_i64 lib payload n ''i64 column''
        else if enc = ENC_I64_DELTA_ZSTD then
          and_then (exact_cap n 8 ''i64 column'') (\<lambda>cap.
          and_then (zstd_decompress_capped lib payload ''i64 column'' cap) (\<lambda>raw.
          if length raw mod 8 \<noteq> 0 then Inl (NotMultiple ''i64 column'' (length raw) 8)
          else Inr (map i64_from_le (as_chunks 8 raw))))
        else Inl (UnknownEncoding ''i64 column'' enc)) (\<lambda>ds.
     if length ds \<noteq> n then Inl (WrongCount ''i64 column'' (length ds) n)
     else Inr (undeltas (I64 0) ds)))"

lemma length_deltas [simp]: "length (deltas p vs) = length vs"
  by (induction vs arbitrary: p) auto

lemma length_undeltas [simp]: "length (undeltas p ds) = length ds"
  by (induction ds arbitrary: p) (auto simp: Let_def)

lemma undeltas_deltas [simp]: "undeltas p (deltas p vs) = vs"
  by (induction vs arbitrary: p) (auto simp: Let_def)

lemma length_i64s_to_le_bytes [simp]: "length (i64s_to_le_bytes vs) = 8 * length vs"
  unfolding i64s_to_le_bytes_def by (rule length_concat_const) simp

lemma i64_chunks_roundtrip [simp]: "map i64_from_le (as_chunks 8 (i64s_to_le_bytes vs)) = vs"
proof -
  have "as_chunks 8 (concat (map i64_le vs)) = map i64_le vs"
    by (rule as_chunks_concat) auto
  then show ?thesis by (simp add: i64s_to_le_bytes_def comp_def)
qed

text \<open>What either strategy leaves in the column: a payload that decompresses to the deltas.\<close>

lemma encode_i64_cases:
  assumes "encode_i64 lib vs level = Inr c"
  shows "(pco_compress_i64 lib (deltas (I64 0) vs) = Inr (ce_payload c) \<and>
            ce_encoding c = ENC_I64_DELTA_PCO) \<or>
         (zstd_bulk_compress lib (i64s_to_le_bytes (deltas (I64 0) vs)) level = Some (ce_payload c) \<and>
            ce_encoding c = ENC_I64_DELTA_ZSTD)"
proof (cases "vs = []")
  case True
  with assms show ?thesis by (auto simp: encode_i64_def i64s_to_le_bytes_def)
next
  case False
  define s where "s = take (min (length (deltas (I64 0) vs)) SAMPLE_LEN) (deltas (I64 0) vs)"
  have "length s = length (deltas (I64 0) vs) \<Longrightarrow> s = deltas (I64 0) vs" unfolding s_def by (rule take_all_of_length)
  with assms False show ?thesis
    unfolding encode_i64_def Let_def s_def [symmetric]
    by (cases "s = deltas (I64 0) vs") (auto split: if_split_asm)
qed

lemma decode_encode_i64:
  assumes "codec_lib_ok lib" "8 * length vs \<le> ISIZE_MAX"
    and "encode_i64 lib vs level = Inr c" "to_bytes c = Inr b"
  shows "decode_i64 lib b (length vs) = Inr vs"
proof -
  have frame: "read_column_frame b w = Inr (ce_encoding c, ce_payload c)" for w
    using assms(4) by (rule read_column_frame_to_bytes)
  let ?ds = "deltas (I64 0) vs"
  from encode_i64_cases [OF assms(3)] show ?thesis
  proof
    assume "pco_compress_i64 lib ?ds = Inr (ce_payload c) \<and> ce_encoding c = ENC_I64_DELTA_PCO"
    then show ?thesis
      using frame pco_roundtrip(1) [OF assms(1), of ?ds "ce_payload c"] assms(2)
      by (simp add: decode_i64_def mult.commute)
  next
    assume z: "zstd_bulk_compress lib (i64s_to_le_bytes ?ds) level = Some (ce_payload c) \<and>
      ce_encoding c = ENC_I64_DELTA_ZSTD"
    then have "zstd_decompress_capped lib (ce_payload c) w (length vs * 8) = Inr (i64s_to_le_bytes ?ds)" for w
      using assms(1) by (intro zstd_roundtrip) auto
    moreover have "exact_cap (length vs) 8 w = Inr (length vs * 8)" for w
      using assms(2) by (simp add: exact_cap_def checked_mul_def machine_limits)
    ultimately show ?thesis
      using frame z by (simp add: decode_i64_def num_encodings)
  qed
qed

lemma decode_i64_length: "decode_i64 lib b n = Inr vs \<Longrightarrow> length vs = n"
  by (auto simp: decode_i64_def split: if_splits)

lemma decode_i64_no_panic: "n * 8 \<le> ISIZE_MAX \<Longrightarrow> \<not> is_panic (decode_i64 lib b n)"
  by (auto simp: decode_i64_def)

subsection \<open>f64 columns\<close>

definition f64s_to_le_bytes :: "f64 list \<Rightarrow> bytes" where
  "f64s_to_le_bytes values = concat (map u64_le values)"

definition encode_f64 :: "codec_lib \<Rightarrow> f64 list \<Rightarrow> int \<Rightarrow> column_enc res" where
  "encode_f64 lib values zstd_level =
     (if values = [] then
        and_then (zstd_compress lib [] zstd_level) (\<lambda>p. Inr (column ENC_F64_ZSTD p))
      else
        let sample = take (min (length values) SAMPLE_LEN) values;
            sample_is_all = (length sample = length values)
        in and_then (pco_compress_f64 lib sample) (\<lambda>pco_sample.
           and_then (zstd_compress lib (f64s_to_le_bytes sample) zstd_level) (\<lambda>zstd_sample.
           if length pco_sample < length zstd_sample then
             and_then (if sample_is_all then Inr pco_sample else pco_compress_f64 lib values)
               (\<lambda>p. Inr (column ENC_F64_PCO p))
           else
             and_then (if sample_is_all then Inr zstd_sample
                       else zstd_compress lib (f64s_to_le_bytes values) zstd_level)
               (\<lambda>p. Inr (column ENC_F64_ZSTD p)))))"

definition decode_f64 :: "codec_lib \<Rightarrow> bytes \<Rightarrow> nat \<Rightarrow> f64 list res" where
  "decode_f64 lib bytes n =
     and_then (read_column_frame bytes ''f64 column'') (\<lambda>(enc, payload).
     and_then
       (if enc = ENC_F64_PCO then pco_decompress_capped_f64 lib payload n ''f64 column''
        else if enc = ENC_F64_ZSTD then
          and_then (exact_cap n 8 ''f64 column'') (\<lambda>cap.
          and_then (zstd_decompress_capped lib payload ''f64 column'' cap) (\<lambda>raw.
          if length raw mod 8 \<noteq> 0 then Inl (NotMultiple ''f64 column'' (length raw) 8)
          else Inr (map u64_from_le (as_chunks 8 raw))))
        else Inl (UnknownEncoding ''f64 column'' enc)) (\<lambda>out.
     if length out \<noteq> n then Inl (WrongCount ''f64 column'' (length out) n) else Inr out))"

lemma length_f64s_to_le_bytes [simp]: "length (f64s_to_le_bytes vs) = 8 * length vs"
  unfolding f64s_to_le_bytes_def by (rule length_concat_const) simp

lemma f64_chunks_roundtrip [simp]: "map u64_from_le (as_chunks 8 (f64s_to_le_bytes vs)) = vs"
proof -
  have "as_chunks 8 (concat (map u64_le vs)) = map u64_le vs"
    by (rule as_chunks_concat) auto
  then show ?thesis by (simp add: f64s_to_le_bytes_def comp_def)
qed

lemma encode_f64_cases:
  assumes "encode_f64 lib vs level = Inr c"
  shows "(pco_compress_f64 lib vs = Inr (ce_payload c) \<and> ce_encoding c = ENC_F64_PCO) \<or>
         (zstd_bulk_compress lib (f64s_to_le_bytes vs) level = Some (ce_payload c) \<and>
            ce_encoding c = ENC_F64_ZSTD)"
proof (cases "vs = []")
  case True
  with assms show ?thesis by (auto simp: encode_f64_def f64s_to_le_bytes_def)
next
  case False
  define s where "s = take (min (length vs) SAMPLE_LEN) vs"
  have "length s = length vs \<Longrightarrow> s = vs" unfolding s_def by (rule take_all_of_length)
  with assms False show ?thesis
    unfolding encode_f64_def Let_def s_def [symmetric]
    by (cases "s = vs") (auto split: if_split_asm)
qed

lemma decode_encode_f64:
  assumes "codec_lib_ok lib" "8 * length vs \<le> ISIZE_MAX"
    and "encode_f64 lib vs level = Inr c" "to_bytes c = Inr b"
  shows "decode_f64 lib b (length vs) = Inr vs"
proof -
  have frame: "read_column_frame b w = Inr (ce_encoding c, ce_payload c)" for w
    using assms(4) by (rule read_column_frame_to_bytes)
  from encode_f64_cases [OF assms(3)] show ?thesis
  proof
    assume "pco_compress_f64 lib vs = Inr (ce_payload c) \<and> ce_encoding c = ENC_F64_PCO"
    then show ?thesis
      using frame pco_roundtrip(2) [OF assms(1), of vs "ce_payload c"] assms(2)
      by (simp add: decode_f64_def mult.commute)
  next
    assume z: "zstd_bulk_compress lib (f64s_to_le_bytes vs) level = Some (ce_payload c) \<and>
      ce_encoding c = ENC_F64_ZSTD"
    then have "zstd_decompress_capped lib (ce_payload c) w (length vs * 8) = Inr (f64s_to_le_bytes vs)" for w
      using assms(1) by (intro zstd_roundtrip) auto
    moreover have "exact_cap (length vs) 8 w = Inr (length vs * 8)" for w
      using assms(2) by (simp add: exact_cap_def checked_mul_def machine_limits)
    ultimately show ?thesis
      using frame z by (simp add: decode_f64_def num_encodings)
  qed
qed

lemma decode_f64_length: "decode_f64 lib b n = Inr vs \<Longrightarrow> length vs = n"
  by (auto simp: decode_f64_def split: if_splits)

lemma decode_f64_no_panic: "n * 8 \<le> ISIZE_MAX \<Longrightarrow> \<not> is_panic (decode_f64 lib b n)"
  by (auto simp: decode_f64_def)

subsection \<open>Run-length encoding\<close>

text \<open>
  The run loop the \<open>u8\<close> columns and the dictionary codes of string columns share: the run in
  progress is the value and its length so far, and a run that reaches \<open>u32::MAX\<close> is closed.
\<close>

fun rle_runs :: "'a \<Rightarrow> nat \<Rightarrow> 'a list \<Rightarrow> (nat \<times> 'a) list" where
  "rle_runs cur run [] = [(run, cur)]"
| "rle_runs cur run (v # vs) =
     (if v = cur \<and> run < U32_MAX then rle_runs cur (run + 1) vs
      else (run, cur) # rle_runs v 1 vs)"

definition unrle :: "(nat \<times> 'a) list \<Rightarrow> 'a list" where
  "unrle ps = concat (map (\<lambda>(run, v). replicate run v) ps)"

lemma unrle_simps [simp]: "unrle [] = []" "unrle ((run, v) # ps) = replicate run v @ unrle ps"
  by (simp_all add: unrle_def)

lemma unrle_rle_runs: "unrle (rle_runs cur run vs) = replicate run cur @ vs"
  by (induction cur run vs rule: rle_runs.induct)
    (auto simp: replicate_app_Cons_same)

lemma rle_runs_bounds:
  "1 \<le> run \<Longrightarrow> run \<le> U32_MAX \<Longrightarrow> (k, v) \<in> set (rle_runs cur run vs) \<Longrightarrow>
     1 \<le> k \<and> k \<le> U32_MAX \<and> v \<in> insert cur (set vs)"
  by (induction cur run vs rule: rle_runs.induct)
    (fastforce simp: U32_MAX_def split: if_splits)+

lemma length_rle_runs: "length (rle_runs cur run vs) \<le> Suc (length vs)"
  by (induction cur run vs rule: rle_runs.induct) auto

subsection \<open>u8 columns\<close>

definition u8_pair :: "nat \<times> byte \<Rightarrow> bytes" where
  "u8_pair p = u32_le (of_nat (fst p)) @ [snd p]"

definition encode_u8 :: "codec_lib \<Rightarrow> bytes \<Rightarrow> int \<Rightarrow> column_enc res" where
  "encode_u8 lib values zstd_level =
     (if values = [] then
        and_then (zstd_compress lib [] zstd_level) (\<lambda>p. Inr (column ENC_U8_ZSTD p))
      else
        let rle = concat (map u8_pair (rle_runs (hd values) 1 (tl values)))
        in and_then (zstd_compress lib values zstd_level) (\<lambda>zstd_payload.
           if length rle \<le> length zstd_payload then Inr (column ENC_U8_RLE rle)
           else Inr (column ENC_U8_ZSTD zstd_payload)))"

fun u8_expand :: "nat \<Rightarrow> bytes \<Rightarrow> bytes list \<Rightarrow> bytes res" where
  "u8_expand n out [] = Inr out"
| "u8_expand n out (p # ps) =
     (let run = unat (u32_from_le (take 4 p)) in
      and_then (index_r ''pair'' p 4) (\<lambda>v.
      if run = 0 \<or> length out + run > n then Inl (RunsExceed ''u8 column'' n)
      else u8_expand n (out @ replicate run v) ps))"

definition decode_u8 :: "codec_lib \<Rightarrow> bytes \<Rightarrow> nat \<Rightarrow> bytes res" where
  "decode_u8 lib bytes n =
     and_then (read_column_frame bytes ''u8 column'') (\<lambda>(enc, payload).
     if enc = ENC_U8_RLE then
       if length payload mod 5 \<noteq> 0 then Inl (NotMultiple ''u8 column'' (length payload) 5)
       else and_then (u8_expand n [] (as_chunks 5 payload)) (\<lambda>out.
            if length out \<noteq> n then Inl (WrongCount ''u8 column'' (length out) n) else Inr out)
     else if enc = ENC_U8_ZSTD then
       and_then (zstd_decompress_capped lib payload ''u8 column'' n) (\<lambda>raw.
       if length raw \<noteq> n then Inl (WrongCount ''u8 column'' (length raw) n) else Inr raw)
     else Inl (UnknownEncoding ''u8 column'' enc))"

lemma length_u8_pair [simp]: "length (u8_pair p) = 5"
  by (simp add: u8_pair_def)

lemma u8_expand_runs:
  assumes "\<forall>(k, v) \<in> set ps. 1 \<le> k \<and> k \<le> U32_MAX" "length out + length (unrle ps) \<le> n"
  shows "u8_expand n out (map u8_pair ps) = Inr (out @ unrle ps)"
  using assms
proof (induction ps arbitrary: out)
  case (Cons p ps)
  obtain k v where p: "p = (k, v)" by (cases p)
  with Cons.prems have k: "1 \<le> k" "k \<le> U32_MAX" "length out + k \<le> n" by auto
  then have "unat (u32_from_le (take 4 (u8_pair p))) = k" "u8_pair p ! 4 = v"
    using p by (simp_all add: u8_pair_def nth_append)
  moreover have "u8_expand n (out @ replicate k v) (map u8_pair ps) = Inr ((out @ replicate k v) @ unrle ps)"
    using Cons.prems p by (intro Cons.IH) auto
  ultimately show ?case using k p by simp
qed simp

lemma decode_encode_u8:
  assumes "codec_lib_ok lib" "encode_u8 lib vs level = Inr c" "to_bytes c = Inr b"
  shows "decode_u8 lib b (length vs) = Inr vs"
proof -
  have frame: "read_column_frame b w = Inr (ce_encoding c, ce_payload c)" for w
    using assms(3) by (rule read_column_frame_to_bytes)
  let ?ps = "rle_runs (hd vs) 1 (tl vs)"
  let ?rle = "concat (map u8_pair ?ps)"
  from assms(2) consider
      (rle) "vs \<noteq> []" "c = column ENC_U8_RLE ?rle"
    | (zstd) p where "zstd_bulk_compress lib vs level = Some p" "c = column ENC_U8_ZSTD p"
    by (auto simp: encode_u8_def Let_def split: if_splits)
  then show ?thesis
  proof cases
    case rle
    have un: "unrle ?ps = vs" using rle(1) by (cases vs) (simp_all add: unrle_rle_runs)
    have "\<forall>(k, v) \<in> set ?ps. 1 \<le> k \<and> k \<le> U32_MAX"
      using rle_runs_bounds [of 1] by (fastforce simp: U32_MAX_def)
    then have "u8_expand (length vs) [] (map u8_pair ?ps) = Inr vs"
      using u8_expand_runs [of ?ps "[]" "length vs"] un by simp
    moreover have "as_chunks 5 ?rle = map u8_pair ?ps" by (rule as_chunks_concat) auto
    moreover have "length ?rle mod 5 = 0"
      using length_concat_const [of ?ps u8_pair 5] by simp
    ultimately show ?thesis using frame rle by (simp add: decode_u8_def num_encodings)
  next
    case zstd
    then show ?thesis
      using frame zstd_roundtrip [OF assms(1) zstd(1), of "length vs"]
      by (simp add: decode_u8_def num_encodings)
  qed
qed

lemma decode_u8_length: "decode_u8 lib b n = Inr vs \<Longrightarrow> length vs = n"
  by (auto simp: decode_u8_def split: if_splits)

lemma u8_expand_no_panic: "(\<And>p. p \<in> set ps \<Longrightarrow> length p = 5) \<Longrightarrow> \<not> is_panic (u8_expand n out ps)"
  by (induction n out ps rule: u8_expand.induct) (auto simp: Let_def)

lemma decode_u8_no_panic: "\<not> is_panic (decode_u8 lib b n)"
  by (auto simp: decode_u8_def u8_expand_no_panic in_as_chunks)

subsection \<open>Fixed-width byte columns\<close>

definition encode_fixed_bytes :: "codec_lib \<Rightarrow> bytes \<Rightarrow> nat \<Rightarrow> int \<Rightarrow> column_enc res" where
  "encode_fixed_bytes lib data width zstd_level =
     (if width = 0 then Inl (Invalid ''width must be > 0'')
      else if length data mod width \<noteq> 0 then
        Inl (NotMultiple ''encode_fixed_bytes'' (length data) width)
      else and_then (zstd_compress lib data zstd_level) (\<lambda>p. Inr (column ENC_FIXED_ZSTD p)))"

definition decode_fixed_bytes :: "codec_lib \<Rightarrow> bytes \<Rightarrow> nat \<Rightarrow> nat \<Rightarrow> bytes res" where
  "decode_fixed_bytes lib bytes n width =
     and_then (read_column_frame bytes ''fixed-bytes column'') (\<lambda>(enc, payload).
     if enc = ENC_FIXED_ZSTD then
       and_then (exact_cap n width ''fixed-bytes column'') (\<lambda>want.
       and_then (zstd_decompress_capped lib payload ''fixed-bytes column'' want) (\<lambda>raw.
       if length raw \<noteq> want then Inl (WrongCount ''fixed-bytes column'' (length raw) want)
       else Inr raw))
     else Inl (UnknownEncoding ''fixed-bytes column'' enc))"

lemma decode_encode_fixed_bytes:
  assumes "codec_lib_ok lib" "length data \<le> USIZE_MAX"
    and "encode_fixed_bytes lib data width level = Inr c" "to_bytes c = Inr b"
  shows "decode_fixed_bytes lib b (length data div width) width = Inr data"
proof -
  have frame: "read_column_frame b w = Inr (ce_encoding c, ce_payload c)" for w
    using assms(4) by (rule read_column_frame_to_bytes)
  from assms(3) obtain p where z: "zstd_bulk_compress lib data level = Some p"
    and c: "c = column ENC_FIXED_ZSTD p" and w: "length data mod width = 0"
    by (auto simp: encode_fixed_bytes_def split: if_splits)
  from w have "length data div width * width = length data" by auto
  then show ?thesis
    using frame c zstd_roundtrip [OF assms(1) z, of "length data"] assms(2)
    by (simp add: decode_fixed_bytes_def exact_cap_def checked_mul_def)
qed

subsection \<open>The contract holds\<close>

text \<open>
  A vector of \<open>n\<close> 64-bit values occupies \<open>8 * n\<close> bytes, and no vector is larger than \<open>isize::MAX\<close> bytes; that is
  all the numeric encoders need of their input.
\<close>

definition words_fit :: "'a list \<Rightarrow> bool" where
  "words_fit xs \<longleftrightarrow> 8 * length xs \<le> ISIZE_MAX"

interpretation i64c: column_codec encode_i64 decode_i64 words_fit
  by unfold_locales
    (simp_all add: words_fit_def decode_encode_i64 decode_i64_length decode_i64_no_panic del: to_bytes_Inr)

interpretation f64c: column_codec encode_f64 decode_f64 words_fit
  by unfold_locales
    (simp_all add: words_fit_def decode_encode_f64 decode_f64_length decode_f64_no_panic del: to_bytes_Inr)

interpretation u8c: column_codec encode_u8 decode_u8 "\<lambda>_. True"
  by unfold_locales
    (simp_all add: decode_encode_u8 decode_u8_length decode_u8_no_panic del: to_bytes_Inr)

end
