(* ===== verification/StrColumn.thy ===== *)
theory StrColumn
  imports NumColumn
begin

section \<open>String columns\<close>

text \<open>
  \<open>encode_str\<close>, \<open>decode_str\<close> and \<open>decode_str_selected\<close> of \<open>crates/timeless-codec/src/lib.rs\<close>:
  length-prefixed strings under zstd, or a sorted dictionary with run-length encoded codes when
  the strings repeat. The two decoders share their dictionary and string loops (\<open>read_strs\<close>,
  \<open>read_dict\<close>). A Rust string is valid UTF-8 by its type; here it is part of \<open>strs_fit\<close>.
\<close>

definition ENC_STR_ZSTD :: byte where "ENC_STR_ZSTD = 6"
definition ENC_STR_DICT :: byte where "ENC_STR_DICT = 5"

definition DICT_MAX_RATIO_NUM :: nat where "DICT_MAX_RATIO_NUM = 1"
definition DICT_MAX_RATIO_DEN :: nat where "DICT_MAX_RATIO_DEN = 8"

lemmas str_encodings = ENC_STR_ZSTD_def ENC_STR_DICT_def

subsection \<open>Encoding\<close>

definition len_prefixed :: "str \<Rightarrow> bytes res" where
  "len_prefixed s =
     (if length s > U32_MAX then Inl (ExceedsU32 ''encode_str: string'' (length s))
      else Inr (u32_le (of_nat (length s)) @ s))"

definition len_prefixed_all :: "str list \<Rightarrow> bytes res" where
  "len_prefixed_all strs = and_then (collect_r len_prefixed strs) (\<lambda>bs. Inr (concat bs))"

definition dict_table :: "str list \<Rightarrow> (str, u32) btree" where
  "dict_table strs = (let keys = btree_set strs in zip keys (map of_nat [0..<length keys]))"

definition code_pair :: "nat \<times> u32 \<Rightarrow> bytes" where
  "code_pair p = u32_le (of_nat (fst p)) @ u32_le (snd p)"

definition encode_str :: "codec_lib \<Rightarrow> str list \<Rightarrow> nat \<Rightarrow> int \<Rightarrow> column_enc res" where
  "encode_str lib strs n zstd_level =
     (if length strs \<noteq> n then Inl (WrongCount ''encode_str'' (length strs) n)
      else if n = 0 then
        and_then (zstd_compress lib [] zstd_level) (\<lambda>p. Inr (column ENC_STR_ZSTD p))
      else
        let sample = take (min n SAMPLE_LEN) strs;
            distinct_len = length (remdups sample);
            dict_worthy = (distinct_len * DICT_MAX_RATIO_DEN \<le> length sample * DICT_MAX_RATIO_NUM)
        in if dict_worthy then
             let table = dict_table strs
             in if length table > U32_MAX then Inl (ExceedsU32 ''encode_str: distinct strings'' (length table))
                else and_then (len_prefixed_all (map fst table)) (\<lambda>dict_blob.
                     and_then (zstd_compress lib dict_blob zstd_level) (\<lambda>dict_zstd.
                     and_then (collect_r (\<lambda>s. ok_or (bt_get table s) (Panic ''table[s]'')) strs) (\<lambda>codes.
                     let rle = concat (map code_pair (rle_runs (hd codes) 1 (tl codes))) in
                     and_then (zstd_compress lib rle zstd_level) (\<lambda>codes_zstd.
                     and_then (u32_len (length table) ''encode_str: dict entry count'') (\<lambda>dict_count.
                     and_then (u32_len (length dict_zstd) ''encode_str: dictionary'') (\<lambda>dict_len.
                     Inr (column ENC_STR_DICT
                            (u32_le dict_count @ u32_le dict_len @ dict_zstd @ codes_zstd))))))))
           else
             and_then (len_prefixed_all strs) (\<lambda>blob.
             and_then (zstd_compress lib blob zstd_level) (\<lambda>p.
             Inr (column ENC_STR_ZSTD p))))"

subsection \<open>Decoding\<close>

text \<open>
  The loop that reads \<open>k\<close> length-prefixed strings; \<open>lw\<close>, \<open>bw\<close> and \<open>uw\<close> are the field names of its
  errors and \<open>i\<close> the index of the next string.
\<close>

fun read_strs :: "string \<Rightarrow> string \<Rightarrow> string \<Rightarrow> nat \<Rightarrow> nat \<Rightarrow> reader \<Rightarrow> (str list \<times> reader) res" where
  "read_strs lw bw uw i 0 r = Inr ([], r)"
| "read_strs lw bw uw i (Suc k) r =
     and_then (reader_u32 r lw) (\<lambda>(len, r).
     and_then (reader_take r (unat len) bw) (\<lambda>(b, r).
     and_then (from_utf8 b (InvalidUtf8 uw i)) (\<lambda>s.
     and_then (read_strs lw bw uw (Suc i) k r) (\<lambda>(ss, r).
     Inr (s # ss, r)))))"

text \<open>The same loop when only the rows of \<open>sel\<close> (those not yet passed) are kept.\<close>

fun read_strs_selected :: "nat \<Rightarrow> nat \<Rightarrow> nat list \<Rightarrow> reader \<Rightarrow> (str list \<times> reader) res" where
  "read_strs_selected row 0 sel r = Inr ([], r)"
| "read_strs_selected row (Suc k) sel r =
     and_then (reader_u32 r ''string length'') (\<lambda>(len, r).
     and_then (reader_take r (unat len) ''string bytes'') (\<lambda>(b, r).
     and_then (from_utf8 b (InvalidUtf8 ''string column'' row)) (\<lambda>s.
     if sel \<noteq> [] \<and> hd sel = row then
       and_then (read_strs_selected (Suc row) k (tl sel) r) (\<lambda>(ss, r). Inr (s # ss, r))
     else read_strs_selected (Suc row) k sel r)))"

text \<open>The head of a dictionary payload: the dictionary and the compressed codes.\<close>

definition read_dict :: "codec_lib \<Rightarrow> bytes \<Rightarrow> (str list \<times> bytes) res" where
  "read_dict lib payload =
     and_then (reader_u32 (reader_new payload) ''dict count'') (\<lambda>(dict_count, r).
     and_then (reader_u32 r ''dict zstd length'') (\<lambda>(dict_zstd_len, r).
     and_then (reader_take r (unat dict_zstd_len) ''dict bytes'') (\<lambda>(dict_zstd, r).
     and_then (reader_take r (reader_remaining r) ''code bytes'') (\<lambda>(codes_zstd, r).
     and_then (zstd_decompress_capped lib dict_zstd ''string dictionary'' DECOMPRESS_MAX_BYTES) (\<lambda>dict_raw.
     and_then (validate_minimum_encoded_len (unat dict_count) 4 (length dict_raw) ''string dictionary'') (\<lambda>_.
     and_then (reserve_decoded (unat dict_count) ''string dictionary'') (\<lambda>_.
     and_then (read_strs ''dict entry length'' ''dict entry bytes'' ''string column: dict entry''
                 0 (unat dict_count) (reader_new dict_raw)) (\<lambda>(dict, dr).
     if reader_remaining dr \<noteq> 0 then Inl (Trailing ''string column: dictionary'' (reader_remaining dr))
     else Inr (dict, codes_zstd)))))))))"

definition read_codes :: "codec_lib \<Rightarrow> bytes \<Rightarrow> bytes list res" where
  "read_codes lib codes_zstd =
     and_then (zstd_decompress_capped lib codes_zstd ''string codes'' DECOMPRESS_MAX_BYTES) (\<lambda>codes_raw.
     if length codes_raw mod 8 \<noteq> 0 then Inl (NotMultiple ''string column: RLE stream'' (length codes_raw) 8)
     else Inr (as_chunks 8 codes_raw))"

definition pair_run :: "bytes \<Rightarrow> nat" where
  "pair_run p = unat (u32_from_le (take 4 p))"

definition pair_code :: "bytes \<Rightarrow> nat" where
  "pair_code p = unat (u32_from_le (take 4 (drop 4 p)))"

text \<open>First pass over the pairs: every code in range, the runs at most \<open>n\<close> rows in all.\<close>

fun codes_total :: "nat \<Rightarrow> nat \<Rightarrow> nat \<Rightarrow> bytes list \<Rightarrow> nat res" where
  "codes_total n dict_len expanded [] = Inr expanded"
| "codes_total n dict_len expanded (p # ps) =
     (if pair_code p \<ge> dict_len then Inl (CodeOutOfRange ''string column'' (pair_code p) dict_len)
      else if pair_run p = 0 \<or> (case checked_add expanded (pair_run p) of
                None \<Rightarrow> True | Some tot \<Rightarrow> tot > n)
        then Inl (RunsExceed ''string column'' n)
      else codes_total n dict_len (expanded + pair_run p) ps)"

text \<open>Second pass: the strings.\<close>

fun codes_expand :: "str list \<Rightarrow> bytes list \<Rightarrow> str list res" where
  "codes_expand dict [] = Inr []"
| "codes_expand dict (p # ps) =
     and_then (collect_r (\<lambda>_. index_r ''dict[code]'' dict (pair_code p)) [0..<pair_run p]) (\<lambda>ss.
     and_then (codes_expand dict ps) (\<lambda>more. Inr (ss @ more)))"

text \<open>The single pass of the selecting decoder: the rows of the run that are selected.\<close>

fun codes_selected :: "nat \<Rightarrow> str list \<Rightarrow> nat \<Rightarrow> nat list \<Rightarrow> bytes list \<Rightarrow> (str list \<times> nat) res" where
  "codes_selected n dict row sel [] = Inr ([], row)"
| "codes_selected n dict row sel (p # ps) =
     (if pair_code p \<ge> length dict then Inl (CodeOutOfRange ''string column'' (pair_code p) (length dict))
      else if pair_run p = 0 \<or> (case checked_add row (pair_run p) of
                None \<Rightarrow> True | Some tot \<Rightarrow> tot > n)
        then Inl (RunsExceed ''string column'' n)
      else let end = row + pair_run p in
           and_then (collect_r (\<lambda>_. index_r ''dict[code]'' dict (pair_code p)) (takeWhile (\<lambda>j. j < end) sel)) (\<lambda>ss.
           and_then (codes_selected n dict end (dropWhile (\<lambda>j. j < end) sel) ps) (\<lambda>(more, tot).
           Inr (ss @ more, tot))))"

definition decode_str :: "codec_lib \<Rightarrow> bytes \<Rightarrow> nat \<Rightarrow> str list res" where
  "decode_str lib bytes n =
     and_then (read_column_frame bytes ''string column'') (\<lambda>(enc, payload).
     if enc = ENC_STR_ZSTD then
       and_then (zstd_decompress_capped lib payload ''string column'' DECOMPRESS_MAX_BYTES) (\<lambda>raw.
       and_then (validate_minimum_encoded_len n 4 (length raw) ''string column'') (\<lambda>_.
       and_then (reserve_decoded n ''string column'') (\<lambda>_.
       and_then (read_strs ''string length'' ''string bytes'' ''string column'' 0 n (reader_new raw)) (\<lambda>(out, r).
       if reader_remaining r \<noteq> 0 then Inl (Trailing ''string column'' (reader_remaining r))
       else Inr out))))
     else if enc = ENC_STR_DICT then
       and_then (read_dict lib payload) (\<lambda>(dict, codes_zstd).
       and_then (read_codes lib codes_zstd) (\<lambda>pairs.
       and_then (codes_total n (length dict) 0 pairs) (\<lambda>expanded.
       if expanded \<noteq> n then Inl (WrongCount ''string column'' expanded n)
       else and_then (reserve_decoded n ''string column'') (\<lambda>_. codes_expand dict pairs))))
     else Inl (UnknownEncoding ''string column'' enc))"

definition decode_str_selected :: "codec_lib \<Rightarrow> bytes \<Rightarrow> nat \<Rightarrow> nat list \<Rightarrow> str list res" where
  "decode_str_selected lib bytes n selected =
     (if list_ex (\<lambda>(a, b). a \<ge> b) (zip selected (tl selected)) \<or>
         (selected \<noteq> [] \<and> last selected \<ge> n)
      then Inl (BadSelection ''string column'')
      else
        and_then (read_column_frame bytes ''string column'') (\<lambda>(enc, payload).
        if enc = ENC_STR_ZSTD then
          and_then (zstd_decompress_capped lib payload ''string column'' DECOMPRESS_MAX_BYTES) (\<lambda>raw.
          and_then (read_strs_selected 0 n selected (reader_new raw)) (\<lambda>(out, r).
          if reader_remaining r \<noteq> 0 then Inl (Trailing ''string column'' (reader_remaining r))
          else Inr out))
        else if enc = ENC_STR_DICT then
          and_then (read_dict lib payload) (\<lambda>(dict, codes_zstd).
          and_then (read_codes lib codes_zstd) (\<lambda>pairs.
          and_then (codes_selected n dict 0 selected pairs) (\<lambda>(out, row).
          if row \<noteq> n then Inl (WrongCount ''string column'' row n) else Inr out)))
        else Inl (UnknownEncoding ''string column'' enc)))"

subsection \<open>Round trip\<close>

text \<open>What a string needs to be encoded and decoded: the bytes of one record of the stream.\<close>

definition str_rec :: "str \<Rightarrow> bytes" where
  "str_rec s = u32_le (of_nat (length s)) @ s"

definition strs_size :: "str list \<Rightarrow> nat" where
  "strs_size ss = sum_list (map (\<lambda>s. 4 + length s) ss)"

definition strs_fit :: "str list \<Rightarrow> bool" where
  "strs_fit ss \<longleftrightarrow> list_all valid_utf8 ss \<and> strs_size ss \<le> DECOMPRESS_MAX_BYTES \<and>
     8 * length ss \<le> DECOMPRESS_MAX_BYTES"

lemma length_str_rec [simp]: "length (str_rec s) = 4 + length s"
  by (simp add: str_rec_def)

lemma length_concat_str_rec [simp]: "length (concat (map str_rec ss)) = strs_size ss"
  by (simp add: strs_size_def length_concat comp_def)

lemma strs_size_simps [simp]: "strs_size [] = 0" "strs_size (s # ss) = 4 + length s + strs_size ss"
  by (simp_all add: strs_size_def)

lemma strs_size_length: "4 * length ss \<le> strs_size ss"
  by (induction ss) auto

lemma in_strs_size: "s \<in> set ss \<Longrightarrow> 4 + length s \<le> strs_size ss"
  by (induction ss) auto

lemma len_prefixed_all_Inr:
  "len_prefixed_all ss = Inr b \<longleftrightarrow> (\<forall>s \<in> set ss. length s \<le> U32_MAX) \<and> b = concat (map str_rec ss)"
proof (induction ss arbitrary: b)
  case Nil
  then show ?case by (auto simp: len_prefixed_all_def)
next
  case (Cons s ss)
  then show ?case
    by (force simp: len_prefixed_all_def len_prefixed_def str_rec_def not_less)
qed

lemma read_strs_ok [codec_simps]:
  assumes "reader_wf r" "rest r = concat (map str_rec ss) @ ys"
    and "\<forall>s \<in> set ss. valid_utf8 s \<and> length s \<le> U32_MAX"
  shows "read_strs lw bw uw i (length ss) r = Inr (ss, adv (strs_size ss) r)"
  using assms
proof (induction ss arbitrary: i r)
  case Nil
  then show ?case by simp
next
  case (Cons s ss)
  have rest: "rest r = u32_le (of_nat (length s)) @ s @ concat (map str_rec ss) @ ys"
    using Cons.prems(2) by (simp add: str_rec_def [of s])
  have len: "unat (u32_from_le (take 4 (rest r))) = length s"
    using rest Cons.prems(3) by simp
  have l: "length (rest r) = 4 + length s + strs_size ss + length ys"
    using rest by simp
  let ?r = "adv (4 + length s) r"
  have "read_strs lw bw uw (Suc i) (length ss) ?r = Inr (ss, adv (strs_size ss) ?r)"
    using Cons.prems rest l by (intro Cons.IH) auto
  moreover have "reader_u32 r lw = Inr (u32_from_le (take 4 (rest r)), adv 4 r)"
    using Cons.prems(1) l by (simp add: codec_simps)
  moreover have "reader_take (adv 4 r) (length s) bw = Inr (s, ?r)"
    using Cons.prems(1) rest l by (simp add: codec_simps)
  ultimately show ?case
    using Cons.prems(3) len by (simp add: from_utf8_def)
qed

lemma dict_table_props:
  "map fst (dict_table ss) = btree_set ss"
  "length (dict_table ss) = length (btree_set ss)"
  by (simp_all add: dict_table_def Let_def)

lemma dict_table_get:
  assumes "s \<in> set ss" "length (dict_table ss) \<le> U32_MAX"
  shows "\<exists>i < length (btree_set ss). bt_get (dict_table ss) s = Some (of_nat i) \<and> btree_set ss ! i = s"
proof -
  from assms obtain i where i: "i < length (btree_set ss)" "btree_set ss ! i = s"
    by (metis btree_set_props(1) in_set_conv_nth)
  let ?codes = "map of_nat [0..<length (btree_set ss)] :: u32 list"
  have "bt_get (zip (btree_set ss) ?codes) (btree_set ss ! i) = Some (?codes ! i)"
    using i by (intro map_of_zip_nth) auto
  then show ?thesis using i by (intro exI [of _ i]) (simp add: dict_table_def Let_def)
qed

lemma strs_size_btree_set: "strs_size (btree_set ss) \<le> strs_size ss"
proof -
  have "strs_size (btree_set ss) = strs_size (remdups ss)"
    unfolding strs_size_def by (simp add: sum_list_distinct_conv_sum_set)
  also have "\<dots> \<le> strs_size ss" by (induction ss) auto
  finally show ?thesis .
qed

lemma code_pair_props [simp]:
  "length (code_pair p) = 8" "pair_code (code_pair p) = unat (snd p)"
  "fst p \<le> U32_MAX \<Longrightarrow> pair_run (code_pair p) = fst p"
  by (simp_all add: code_pair_def pair_run_def pair_code_def)

lemma codes_total_runs:
  assumes "\<forall>(k, c) \<in> set ps. 1 \<le> k \<and> k \<le> U32_MAX \<and> unat c < dl"
    and "e + length (unrle ps) \<le> n" "n \<le> USIZE_MAX"
  shows "codes_total n dl e (map code_pair ps) = Inr (e + length (unrle ps))"
  using assms by (induction ps arbitrary: e) (auto simp: checked_add_def)

lemma collect_r_const: "collect_r (\<lambda>_. Inr x) xs = Inr (replicate (length xs) x)"
  by (induction xs) auto

lemma codes_expand_runs:
  assumes "\<forall>(k, c) \<in> set ps. k \<le> U32_MAX \<and> unat c < length dict"
  shows "codes_expand dict (map code_pair ps) = Inr (map (\<lambda>c. dict ! unat c) (unrle ps))"
  using assms by (induction ps) (auto simp: collect_r_const)

lemma read_codes_runs:
  assumes "codec_lib_ok lib" "zstd_bulk_compress lib (concat (map code_pair ps)) level = Some z"
    and "8 * length ps \<le> DECOMPRESS_MAX_BYTES"
  shows "read_codes lib z = Inr (map code_pair ps)"
proof -
  have len: "length (concat (map code_pair ps)) = 8 * length ps" by (rule length_concat_const) simp
  moreover have "as_chunks 8 (concat (map code_pair ps)) = map code_pair ps"
    by (rule as_chunks_concat) auto
  ultimately show ?thesis
    using zstd_roundtrip [OF assms(1,2), of DECOMPRESS_MAX_BYTES] assms(3)
    by (simp add: read_codes_def)
qed

lemma validate_minimum_ok: "c * k \<le> a \<Longrightarrow> a \<le> USIZE_MAX \<Longrightarrow> validate_minimum_encoded_len c k a w = Inr ()"
  by (simp add: validate_minimum_encoded_len_def checked_mul_def)

lemma reserve_ok: "c \<le> DECOMPRESS_MAX_BYTES \<Longrightarrow> reserve_decoded c w = Inr ()"
  by (simp add: reserve_decoded_def machine_limits DECOMPRESS_MAX_BYTES_def ensure_def)

lemma decompress_max_usize: "n \<le> DECOMPRESS_MAX_BYTES \<Longrightarrow> n \<le> USIZE_MAX"
  by (simp add: machine_limits DECOMPRESS_MAX_BYTES_def)

lemma decompress_max_u32: "n \<le> DECOMPRESS_MAX_BYTES \<Longrightarrow> n \<le> U32_MAX"
  by (simp add: machine_limits DECOMPRESS_MAX_BYTES_def)

text \<open>Reading back a blob of strings, with the checks both decoders make around it.\<close>

lemma read_blob_ok:
  assumes "list_all valid_utf8 ss" "strs_size ss \<le> DECOMPRESS_MAX_BYTES"
  shows "validate_minimum_encoded_len (length ss) 4 (strs_size ss) w = Inr ()"
    and "reserve_decoded (length ss) w = Inr ()"
    and "read_strs lw bw uw i (length ss) (reader_new (concat (map str_rec ss))) =
      Inr (ss, adv (strs_size ss) (reader_new (concat (map str_rec ss))))"
    and "reader_remaining (adv (strs_size ss) (reader_new (concat (map str_rec ss)))) = 0"
proof -
  have "length ss \<le> strs_size ss" using strs_size_length [of ss] by linarith
  then have n: "length ss \<le> DECOMPRESS_MAX_BYTES" using assms(2) by linarith
  show "validate_minimum_encoded_len (length ss) 4 (strs_size ss) w = Inr ()"
    using strs_size_length [of ss] decompress_max_usize [OF assms(2)]
    by (intro validate_minimum_ok) (simp_all add: mult.commute)
  show "reserve_decoded (length ss) w = Inr ()" using n by (rule reserve_ok)
  have "\<forall>s \<in> set ss. valid_utf8 s \<and> length s \<le> U32_MAX"
    using assms in_strs_size [of _ ss] decompress_max_u32
    by (fastforce simp: list_all_iff)
  then show "read_strs lw bw uw i (length ss) (reader_new (concat (map str_rec ss))) =
      Inr (ss, adv (strs_size ss) (reader_new (concat (map str_rec ss))))"
    using decompress_max_usize [OF assms(2)] by (intro read_strs_ok [where ys = "[]"]) simp_all
  show "reader_remaining (adv (strs_size ss) (reader_new (concat (map str_rec ss)))) = 0"
    by (simp add: reader_remaining_rest)
qed

lemma read_dict_ok:
  assumes "codec_lib_ok lib" "list_all valid_utf8 ks" "strs_size ks \<le> DECOMPRESS_MAX_BYTES"
    and "zstd_bulk_compress lib (concat (map str_rec ks)) level = Some dz" "length dz \<le> U32_MAX"
    and "payload = u32_le (of_nat (length ks)) @ u32_le (of_nat (length dz)) @ dz @ cz"
    and "length payload \<le> USIZE_MAX" "length ks \<le> U32_MAX"
  shows "read_dict lib payload = Inr (ks, cz)"
proof -
  have "zstd_decompress_capped lib dz ''string dictionary'' DECOMPRESS_MAX_BYTES =
      Inr (concat (map str_rec ks))"
    using assms(1,3,4) by (intro zstd_roundtrip) simp_all
  then show ?thesis
    using assms(5-8) read_blob_ok [OF assms(2,3)]
    by (simp add: read_dict_def codec_simps reader_remaining_rest)
qed

text \<open>The two shapes an encoded string column has.\<close>

lemma encode_str_cases:
  assumes "encode_str lib ss n level = Inr c" "codec_lib_ok lib"
  obtains (zstd) z where "n = length ss" "\<forall>s \<in> set ss. length s \<le> U32_MAX"
      "zstd_bulk_compress lib (concat (map str_rec ss)) level = Some z" "c = column ENC_STR_ZSTD z"
  | (dict) codes dz cz where "n = length ss" "ss \<noteq> []" "length (btree_set ss) \<le> U32_MAX"
      "length dz \<le> U32_MAX"
      "zstd_bulk_compress lib (concat (map str_rec (btree_set ss))) level = Some dz"
      "collect_r (\<lambda>s. ok_or (bt_get (dict_table ss) s) (Panic ''table[s]'')) ss = Inr codes"
      "zstd_bulk_compress lib (concat (map code_pair (rle_runs (hd codes) 1 (tl codes)))) level = Some cz"
      "c = column ENC_STR_DICT (u32_le (of_nat (length (btree_set ss))) @ u32_le (of_nat (length dz)) @ dz @ cz)"
proof -
  have n: "n = length ss" using assms(1) by (auto simp: encode_str_def split: if_split_asm)
  show thesis
  proof (cases "ss = []")
    case True
    then show thesis using assms(1) n zstd by (auto simp: encode_str_def)
  next
    case False
    define worthy where "worthy \<longleftrightarrow>
      length (remdups (take (min n SAMPLE_LEN) ss)) * DICT_MAX_RATIO_DEN \<le>
      length (take (min n SAMPLE_LEN) ss) * DICT_MAX_RATIO_NUM"
    show thesis
    proof (cases worthy)
      case True
      then show thesis using assms(1) n False dict
        unfolding encode_str_def Let_def worthy_def [symmetric]
        by (auto simp: len_prefixed_all_Inr dict_table_props not_less split: if_split_asm)
    next
      case False
      then show thesis using assms(1) n \<open>ss \<noteq> []\<close> zstd
        unfolding encode_str_def Let_def worthy_def [symmetric]
        by (auto simp: len_prefixed_all_Inr)
    qed
  qed
qed

text \<open>Which shape the encoder picks: the dictionary when at most one sampled string in eight is distinct.\<close>

definition dict_worthy :: "str list \<Rightarrow> bool" where
  "dict_worthy ss \<longleftrightarrow> ss \<noteq> [] \<and> 8 * card (set (take 65536 ss)) \<le> length (take 65536 ss)"

lemma encode_str_worthy:
  "(length (remdups (take (min (length ss) SAMPLE_LEN) ss)) * DICT_MAX_RATIO_DEN \<le>
    length (take (min (length ss) SAMPLE_LEN) ss) * DICT_MAX_RATIO_NUM) \<longleftrightarrow> ss = [] \<or> dict_worthy ss"
  by (auto simp: dict_worthy_def SAMPLE_LEN_def DICT_MAX_RATIO_DEN_def DICT_MAX_RATIO_NUM_def
      length_remdups_card_conv mult.commute min_def)

lemma encode_str_choice:
  assumes "encode_str lib ss (length ss) level = Inr c"
  shows "ce_encoding c = (if dict_worthy ss then 5 else 6)"
  using assms unfolding encode_str_def Let_def encode_str_worthy
  by (auto simp: str_encodings dict_worthy_def split: if_split_asm)

lemma encode_str_concat:
  assumes "ss \<noteq> []" "\<not> dict_worthy ss" "\<forall>s \<in> set ss. length s \<le> U32_MAX"
    and "zstd_bulk_compress lib (concat (map str_rec ss)) level = Some z"
  shows "encode_str lib ss (length ss) level = Inr (column ENC_STR_ZSTD z)"
proof -
  have "len_prefixed_all ss = Inr (concat (map str_rec ss))" using assms(3) by (simp add: len_prefixed_all_Inr)
  then show ?thesis using assms unfolding encode_str_def Let_def encode_str_worthy
    by (simp add: zstd_compress_def)
qed

lemma dict_codes_valid:
  assumes "collect_r (\<lambda>s. ok_or (bt_get (dict_table ss) s) (Panic w)) ss' = Inr codes"
    and "set ss' \<subseteq> set ss" "length (btree_set ss) \<le> U32_MAX"
  shows "(\<forall>c \<in> set codes. unat c < length (btree_set ss)) \<and>
     map (\<lambda>c. btree_set ss ! unat c) codes = ss'"
  using assms
proof (induction ss' arbitrary: codes)
  case (Cons s ss')
  from Cons.prems dict_table_get [of s ss] obtain i where
    i: "i < length (btree_set ss)" "bt_get (dict_table ss) s = Some (of_nat i)" "btree_set ss ! i = s"
    by (auto simp: dict_table_props)
  moreover from i Cons.prems(3) have "unat (of_nat i :: u32) = i" by simp
  ultimately show ?case using Cons by auto
qed simp

lemma decode_encode_str:
  assumes ok: "codec_lib_ok lib" and fit: "strs_fit ss"
    and enc: "encode_str lib ss n level = Inr c" and b: "to_bytes c = Inr b"
  shows "decode_str lib b n = Inr ss"
proof -
  have frame: "read_column_frame b w = Inr (ce_encoding c, ce_payload c)" for w
    using b by (rule read_column_frame_to_bytes)
  have v: "list_all valid_utf8 ss" and sz: "strs_size ss \<le> DECOMPRESS_MAX_BYTES"
    and n8: "8 * length ss \<le> DECOMPRESS_MAX_BYTES" using fit by (simp_all add: strs_fit_def)
  from enc ok show ?thesis
  proof (cases rule: encode_str_cases)
    case (zstd z)
    then show ?thesis
      using frame read_blob_ok [OF v sz] zstd_roundtrip [OF ok zstd(3), of DECOMPRESS_MAX_BYTES] sz
      by (simp add: decode_str_def)
  next
    case (dict codes dz cz)
    let ?ps = "rle_runs (hd codes) 1 (tl codes)"
    have codes: "\<forall>c \<in> set codes. unat c < length (btree_set ss)"
      "map (\<lambda>c. btree_set ss ! unat c) codes = ss"
      using dict_codes_valid [OF dict(6) _ dict(3)] by simp_all
    have len: "length codes = length ss" using dict(6) by (rule collect_r_length)
    with dict(2) have hd: "codes = hd codes # tl codes" by (cases codes) auto
    then have un: "unrle ?ps = codes" by (simp add: unrle_rle_runs)
    have runs: "\<forall>(k, c) \<in> set ?ps. 1 \<le> k \<and> k \<le> U32_MAX \<and> unat c < length (btree_set ss)"
    proof (clarify)
      fix k c assume "(k, c) \<in> set ?ps"
      then have "1 \<le> k \<and> k \<le> U32_MAX \<and> c \<in> set (hd codes # tl codes)"
        using rle_runs_bounds [of 1 k c "hd codes" "tl codes"] by (simp add: U32_MAX_def)
      then show "1 \<le> k \<and> k \<le> U32_MAX \<and> unat c < length (btree_set ss)"
        using hd codes(1) by simp
    qed
    have "length ?ps \<le> length codes"
      using length_rle_runs [of "hd codes" 1 "tl codes"] hd by (metis length_Cons)
    then have rc: "read_codes lib cz = Inr (map code_pair ?ps)"
      using read_codes_runs [OF ok dict(7)] len n8 by linarith
    have rd: "read_dict lib (ce_payload c) = Inr (btree_set ss, cz)"
    proof (rule read_dict_ok [OF ok _ _ dict(5,4)])
      show "list_all valid_utf8 (btree_set ss)" using v by (simp add: list_all_iff)
      show "strs_size (btree_set ss) \<le> DECOMPRESS_MAX_BYTES"
        using sz strs_size_btree_set [of ss] by linarith
      show "length (ce_payload c) \<le> USIZE_MAX" using b by (simp add: machine_limits)
    qed (use dict in simp_all)
    have "codes_total n (length (btree_set ss)) 0 (map code_pair ?ps) = Inr n"
      using codes_total_runs [OF runs, of 0 n] un len dict(1) n8 decompress_max_usize [of n] by simp
    moreover have "codes_expand (btree_set ss) (map code_pair ?ps) = Inr ss"
      using codes_expand_runs [of ?ps "btree_set ss"] runs un codes(2) by fastforce
    moreover have "reserve_decoded n w = Inr ()" for w
      using n8 dict(1) by (intro reserve_ok) linarith
    ultimately show ?thesis
      using frame rd rc dict(8) by (simp add: decode_str_def str_encodings)
  qed
qed

subsection \<open>Counts, panics and the selecting decoder\<close>

lemma read_strs_length: "read_strs lw bw uw i k r = Inr (ss, r') \<Longrightarrow> length ss = k"
  by (induction lw bw uw i k r arbitrary: ss rule: read_strs.induct) auto

lemma read_strs_no_panic [simp]: "\<not> is_panic (read_strs lw bw uw i k r)"
  by (induction lw bw uw i k r rule: read_strs.induct) auto

lemma codes_total_expand:
  assumes "codes_total n (length dict) e ps = Inr t"
  shows "e \<le> t \<and> (\<exists>ss. codes_expand dict ps = Inr ss \<and> length ss = t - e)"
  using assms
proof (induction ps arbitrary: e)
  case (Cons p ps)
  then have c: "pair_code p < length dict" and "codes_total n (length dict) (e + pair_run p) ps = Inr t"
    by (auto split: if_split_asm)
  with Cons.IH [of "e + pair_run p"] show ?case
    by (auto simp: collect_r_const)
qed simp

lemma codes_total_no_panic [simp]: "\<not> is_panic (codes_total n dl e ps)"
  by (induction n dl e ps rule: codes_total.induct) auto

lemma read_dict_no_panic [simp]: "\<not> is_panic (read_dict lib p)"
  by (auto simp: read_dict_def)

lemma read_codes_no_panic [simp]: "\<not> is_panic (read_codes lib z)"
  by (auto simp: read_codes_def)

lemma decode_str_length: "decode_str lib b n = Inr ss \<Longrightarrow> length ss = n"
  by (auto simp: decode_str_def dest!: read_strs_length codes_total_expand split: if_split_asm)

lemma decode_str_no_panic: "\<not> is_panic (decode_str lib b n)"
  by (auto simp: decode_str_def dest!: codes_total_expand)

lemma read_strs_selected_no_panic [simp]: "\<not> is_panic (read_strs_selected row k sel r)"
  by (induction row k sel r rule: read_strs_selected.induct) auto

lemma codes_selected_no_panic [simp]: "\<not> is_panic (codes_selected n dict row sel ps)"
  by (induction n dict row sel ps rule: codes_selected.induct) (auto simp: Let_def collect_r_const intro!: is_panic_collect_r)

lemma decode_str_selected_no_panic: "\<not> is_panic (decode_str_selected lib b n sel)"
  by (auto simp: decode_str_selected_def)

interpretation strc: column_codec "\<lambda>lib ss. encode_str lib ss (length ss)" decode_str strs_fit
  by unfold_locales (auto intro: decode_encode_str decode_str_length simp: decode_str_no_panic
    simp del: to_bytes_Inr)

text \<open>The strictly increasing selections the selecting decoder accepts.\<close>

definition selection :: "nat \<Rightarrow> nat list \<Rightarrow> bool" where
  "selection n sel \<longleftrightarrow> sorted_wrt (<) sel \<and> (\<forall>j \<in> set sel. j < n)"

lemma no_bad_window: "\<not> list_ex (\<lambda>(a, b). a \<ge> b) (zip xs (tl xs)) \<longleftrightarrow> sorted_wrt (<) (xs :: nat list)"
proof (induction xs)
  case (Cons x xs)
  then show ?case by (cases xs) (auto simp: not_le intro: less_trans)
qed simp

lemma selection_check:
  "\<not> (list_ex (\<lambda>(a, b). a \<ge> b) (zip sel (tl sel)) \<or> (sel \<noteq> [] \<and> last sel \<ge> n)) \<longleftrightarrow> selection n sel"
proof -
  have "(sel \<noteq> [] \<longrightarrow> last sel < n) \<longleftrightarrow> (\<forall>j \<in> set sel. j < n)" if "sorted_wrt (<) sel"
  proof (cases sel rule: rev_cases)
    case (snoc ys y)
    with that show ?thesis by (auto simp: sorted_wrt_append)
  qed simp
  then show ?thesis
    unfolding selection_def no_bad_window [symmetric] by (auto simp: not_le)
qed

lemma read_strs_selected_eq:
  assumes "sorted_wrt (<) sel" "\<forall>j \<in> set sel. row \<le> j \<and> j < row + k"
  shows "read_strs_selected row k sel r =
     and_then (read_strs ''string length'' ''string bytes'' ''string column'' row k r)
       (\<lambda>(ss, r). Inr (map (\<lambda>j. ss ! (j - row)) sel, r))"
  using assms
proof (induction k arbitrary: row sel r)
  case 0
  then show ?case by (cases sel) auto
next
  case (Suc k)
  have shift: "map (\<lambda>j. (s # ss) ! (j - row)) js = map (\<lambda>j. ss ! (j - Suc row)) js"
    if "\<forall>j \<in> set js. Suc row \<le> j \<and> j < Suc row + k" for js s and ss :: "str list"
    using that by (auto simp: nth_Cons' simp flip: diff_Suc_eq_diff_pred)
  show ?case
  proof (cases "sel \<noteq> [] \<and> hd sel = row")
    case True
    then obtain js where js: "sel = row # js" by (cases sel) auto
    with Suc.prems have "\<forall>j \<in> set js. Suc row \<le> j \<and> j < Suc row + k" "sorted_wrt (<) js" by auto
    with js show ?thesis by (simp add: split_beta Suc.IH shift cong: and_then_cong)
  next
    case False
    with Suc.prems have "\<forall>j \<in> set sel. Suc row \<le> j \<and> j < Suc row + k"
      by (cases sel) (auto simp: Suc_le_eq)
    moreover from False have "(sel \<noteq> [] \<and> hd sel = row) = False" by simp
    ultimately show ?thesis
      using Suc.prems(1) by (simp only: read_strs_selected.simps read_strs.simps if_False)
        (simp add: split_beta Suc.IH shift cong: and_then_cong)
  qed
qed

lemma takeWhile_lt_sorted:
  assumes "sorted_wrt (<) sel"
  shows "takeWhile (\<lambda>j. j < m) sel = filter (\<lambda>j. j < (m :: nat)) sel"
    and "dropWhile (\<lambda>j. j < m) sel = filter (\<lambda>j. \<not> j < m) sel"
proof -
  have *: "filter (\<lambda>j. j < m) xs = [] \<and> filter (\<lambda>j. \<not> j < m) xs = xs"
    if "\<forall>x \<in> set xs. a < x" "\<not> a < m" for a xs
    using that by (auto simp: filter_empty_conv filter_id_conv)
  show "takeWhile (\<lambda>j. j < m) sel = filter (\<lambda>j. j < m) sel"
    using assms by (induction sel) (auto simp: *)
  show "dropWhile (\<lambda>j. j < m) sel = filter (\<lambda>j. \<not> j < m) sel"
    using assms by (induction sel) (auto simp: *)
qed

lemma codes_selected_run:
  assumes "sorted_wrt (<) sel" "\<forall>j \<in> set sel. row \<le> j" "row + run \<le> tot"
  shows "map (\<lambda>j. (replicate run c @ ss) ! (j - row)) (filter (\<lambda>j. j < tot) sel) =
     replicate (length (filter (\<lambda>j. j < row + run) sel)) c @
     map (\<lambda>j. ss ! (j - (row + run))) (filter (\<lambda>j. j < tot) (filter (\<lambda>j. \<not> j < row + run) sel))"
proof -
  let ?lo = "filter (\<lambda>j. j < row + run) sel" and ?hi = "filter (\<lambda>j. \<not> j < row + run) sel"
  have "sel = ?lo @ ?hi"
    using takeWhile_lt_sorted [OF assms(1), of "row + run"] takeWhile_dropWhile_id by metis
  then have "filter (\<lambda>j. j < tot) sel = filter (\<lambda>j. j < tot) ?lo @ filter (\<lambda>j. j < tot) ?hi"
    by (metis filter_append)
  moreover have "filter (\<lambda>j. j < tot) ?lo = ?lo" using assms(3) by (auto intro!: filter_cong)
  moreover have "map (\<lambda>j. (replicate run c @ ss) ! (j - row)) ?lo = replicate (length ?lo) c"
    using assms(2) by (intro replicate_eqI) (auto simp: nth_append)
  moreover have "map (\<lambda>j. (replicate run c @ ss) ! (j - row)) (filter (\<lambda>j. j < tot) ?hi) =
      map (\<lambda>j. ss ! (j - (row + run))) (filter (\<lambda>j. j < tot) ?hi)"
    by (auto simp: nth_append)
  ultimately show ?thesis by simp
qed

lemma codes_selected_eq:
  assumes "sorted_wrt (<) sel" "\<forall>j \<in> set sel. row \<le> j"
  shows "codes_selected n dict row sel ps =
     and_then (codes_total n (length dict) row ps) (\<lambda>tot.
     and_then (codes_expand dict ps) (\<lambda>ss.
     Inr (map (\<lambda>j. ss ! (j - row)) (filter (\<lambda>j. j < tot) sel), tot)))"
  using assms
proof (induction ps arbitrary: row sel)
  case Nil
  then show ?case by (auto simp: filter_empty_conv)
next
  case (Cons p ps)
  let ?run = "pair_run p"
  let ?bad = "?run = 0 \<or> (case checked_add row ?run of None \<Rightarrow> True | Some tot \<Rightarrow> tot > n)"
  show ?case
  proof (cases "pair_code p \<ge> length dict \<or> ?bad")
    case True
    then show ?thesis by auto
  next
    case False
    let ?hi = "filter (\<lambda>j. \<not> j < row + ?run) sel"
    have IH: "codes_selected n dict (row + ?run) ?hi ps =
      and_then (codes_total n (length dict) (row + ?run) ps) (\<lambda>tot.
      and_then (codes_expand dict ps) (\<lambda>ss.
      Inr (map (\<lambda>j. ss ! (j - (row + ?run))) (filter (\<lambda>j. j < tot) ?hi), tot)))"
      using Cons.prems by (intro Cons.IH) (auto simp: sorted_wrt_filter)
    show ?thesis
    proof (cases "codes_total n (length dict) (row + ?run) ps")
      case (Inl e)
      with False IH show ?thesis
        by (simp add: takeWhile_lt_sorted [OF Cons.prems(1)] Let_def collect_r_const)
    next
      case (Inr tot)
      from codes_total_expand [OF Inr] obtain ss where "row + ?run \<le> tot" "codes_expand dict ps = Inr ss"
        by auto
      with False IH Inr codes_selected_run [OF Cons.prems, of ?run tot "dict ! pair_code p" ss] show ?thesis
        by (simp add: takeWhile_lt_sorted [OF Cons.prems(1)] Let_def collect_r_const)
    qed
  qed
qed

text \<open>
  The selecting decoder accepts exactly the columns the full decoder accepts, and yields the
  selected rows of its result.
\<close>

lemma read_strs_size:
  "read_strs lw bw uw i k r = Inr (ss, r') \<Longrightarrow> reader_wf r \<Longrightarrow> 4 * k \<le> length (rest r)"
proof (induction k arbitrary: i r ss)
  case (Suc k)
  from Suc.prems obtain len r1 b r2 ss' where
    r1: "reader_u32 r lw = Inr (len, r1)" and r2: "reader_take r1 (unat len) bw = Inr (b, r2)"
    and "valid_utf8 b" and more: "read_strs lw bw uw (Suc i) k r2 = Inr (ss', r')"
    by auto
  note w1 = reader_u32_wf [OF r1 Suc.prems(2)]
  then have w2: "unat len \<le> length (rest r1) \<and> r2 = adv (unat len) r1 \<and> reader_wf r2"
    using reader_take_wf [OF r2] by blast
  with Suc.IH [OF more] have "4 * k \<le> length (rest r2)" by blast
  then show ?case using w1 w2 by auto
qed simp

lemma decode_str_selected_eq:
  assumes ok: "codec_lib_ok lib" and sel: "selection n sel" and n: "n \<le> DECOMPRESS_MAX_BYTES"
  shows "decode_str_selected lib b n sel = Inr out \<longleftrightarrow>
     (\<exists>ss. decode_str lib b n = Inr ss \<and> out = map (\<lambda>j. ss ! j) sel)"
proof (cases "read_column_frame b ''string column''")
  case (Inl e)
  then show ?thesis
    using sel unfolding decode_str_selected_def decode_str_def selection_check [symmetric] by simp
next
  case (Inr ep)
  then obtain enc payload where ep: "read_column_frame b ''string column'' = Inr (enc, payload)"
    by (cases ep) auto
  have sorted: "sorted_wrt (<) sel" "\<forall>j \<in> set sel. 0 \<le> j \<and> j < 0 + n"
    using sel by (auto simp: selection_def)
  have res: "reserve_decoded n w = Inr ()" for w using n by (rule reserve_ok)
  have all: "filter (\<lambda>j. j < n) sel = sel" using sel by (simp add: selection_def filter_id_conv)
  have min: "validate_minimum_encoded_len n 4 (length raw) w = Inr ()"
    if "read_strs lw bw uw 0 n (reader_new raw) = Inr (ss, r')"
      "zstd_decompress_capped lib payload w' DECOMPRESS_MAX_BYTES = Inr raw" for raw lw bw uw ss r' w w'
  proof -
    have "length raw \<le> USIZE_MAX"
      using zstd_decompress_capped_length [OF that(2) ok] by (rule decompress_max_usize)
    with read_strs_size [OF that(1)] show ?thesis
      by (intro validate_minimum_ok) (simp_all add: mult.commute)
  qed
  from sel have guard: "(list_ex (\<lambda>(a, b). a \<ge> b) (zip sel (tl sel)) \<or> (sel \<noteq> [] \<and> last sel \<ge> n)) = False"
    using selection_check by blast
  consider (zstd) "enc = ENC_STR_ZSTD" | (dict) "enc = ENC_STR_DICT"
    | (other) "enc \<noteq> ENC_STR_ZSTD" "enc \<noteq> ENC_STR_DICT" by blast
  then show ?thesis
  proof cases
    case zstd
    show ?thesis
    proof (cases "zstd_decompress_capped lib payload ''string column'' DECOMPRESS_MAX_BYTES")
      case (Inl e)
      then show ?thesis
        unfolding decode_str_selected_def guard if_False decode_str_def ep by (simp add: zstd)
    next
      case (Inr raw)
      show ?thesis
      proof (cases "read_strs ''string length'' ''string bytes'' ''string column'' 0 n (reader_new raw)")
        case (Inl e)
        with Inr show ?thesis
          unfolding decode_str_selected_def guard if_False decode_str_def ep
          by (simp add: zstd read_strs_selected_eq [OF sorted])
      next
        case (Inr p)
        moreover obtain ss r' where "p = (ss, r')" by (cases p)
        ultimately show ?thesis
          using \<open>zstd_decompress_capped _ _ _ _ = _\<close> min [where raw = raw] res
          unfolding decode_str_selected_def guard if_False decode_str_def ep
          by (auto simp: zstd read_strs_selected_eq [OF sorted])
      qed
    qed
  next
    case dict
    then show ?thesis
      unfolding decode_str_selected_def guard if_False decode_str_def ep
      using res all sorted(1)
      by (auto simp: str_encodings codes_selected_eq split: if_split_asm)
  next
    case other
    then show ?thesis
      unfolding decode_str_selected_def guard if_False decode_str_def ep by simp
  qed
qed

subsection \<open>What a decoded column holds\<close>

lemma read_strs_values:
  "read_strs lw bw uw i k r = Inr (ss, r') \<Longrightarrow> \<forall>s \<in> set ss. valid_utf8 s \<and> length s \<le> length (rd_buf r)"
proof (induction k arbitrary: i r ss)
  case (Suc k)
  from Suc.prems obtain len r1 b r2 ss' where
    r1: "reader_u32 r lw = Inr (len, r1)" and r2: "reader_take r1 (unat len) bw = Inr (b, r2)"
    and b: "valid_utf8 b" and tail: "read_strs lw bw uw (Suc i) k r2 = Inr (ss', r')" and ss: "ss = b # ss'"
    by auto
  have "rd_buf r1 = rd_buf r" "rd_buf r2 = rd_buf r1" "length b \<le> length (rd_buf r1)"
    using r1 r2 by (auto simp: reader_fields_eq reader_take_Inr adv_def rest_def)
  then show ?case using Suc.IH [OF tail] b ss by simp
qed simp

lemma codes_expand_values: "codes_expand dict ps = Inr ss \<Longrightarrow> set ss \<subseteq> set dict"
proof (induction ps arbitrary: ss)
  case (Cons p ps)
  from Cons.prems obtain xs ys where x: "collect_r (\<lambda>_. index_r ''dict[code]'' dict (pair_code p)) [0..<pair_run p] = Inr xs"
    and y: "codes_expand dict ps = Inr ys" "ss = xs @ ys" by auto
  have "set xs \<subseteq> set dict"
  proof
    fix s assume "s \<in> set xs"
    then have "index_r ''dict[code]'' dict (pair_code p) = Inr s"
      using x by (auto simp: collect_r_Inr_conv list_all2_conv_all_nth in_set_conv_nth)
    then show "s \<in> set dict" by (auto simp: index_r_def split: if_split_asm)
  qed
  then show ?case using Cons.IH [OF y(1)] y(2) by auto
qed simp

lemma decode_str_values:
  assumes "codec_lib_ok lib" "decode_str lib b n = Inr ss" "s \<in> set ss"
  shows "valid_utf8 s" "length s \<le> DECOMPRESS_MAX_BYTES"
proof -
  have blob: "valid_utf8 s \<and> length s \<le> DECOMPRESS_MAX_BYTES"
    if "zstd_decompress_capped lib z w DECOMPRESS_MAX_BYTES = Inr raw"
      "read_strs lw bw uw i k (reader_new raw) = Inr (ss, r')" "s \<in> set ss" for z w raw lw bw uw i k ss r' s
    using zstd_decompress_capped_length [OF that(1) assms(1)] read_strs_values [OF that(2)] that(3)
    by (fastforce simp: reader_new_def)
  have "valid_utf8 s \<and> length s \<le> DECOMPRESS_MAX_BYTES"
    using assms(2,3) blob codes_expand_values
    by (fastforce simp: decode_str_def read_dict_def split: if_split_asm)
  then show "valid_utf8 s" "length s \<le> DECOMPRESS_MAX_BYTES" by simp_all
qed

end
