(* ===== verification/StoredLib.thy ===== *)
theory StoredLib
  imports StrColumn
begin

section \<open>A compressor that stores\<close>

text \<open>
  An instance of the compressor parameters that keeps its input as it is: zstd frames are the data
  itself and pco streams the little-endian words. It satisfies everything the development assumes of
  the compressors, so the assumptions can hold together.
\<close>

definition stored_lib :: codec_lib where
  "stored_lib =
     \<lparr>zstd_bulk_compress = (\<lambda>d level. Some d),
      zstd_bulk_decompress = (\<lambda>c cap. if length c \<le> cap then Some c else None),
      pco_simple_compress_i64 = (\<lambda>xs. Some (i64s_to_le_bytes xs)),
      pco_simple_compress_f64 = (\<lambda>xs. Some (f64s_to_le_bytes xs)),
      pco_decompress_into_i64 =
        (\<lambda>c n. if length c = 8 * n then Some (map i64_from_le (as_chunks 8 c), True, n) else None),
      pco_decompress_into_f64 =
        (\<lambda>c n. if length c = 8 * n then Some (map u64_from_le (as_chunks 8 c), True, n) else None)\<rparr>"

lemma stored_lib_sel [simp]:
  "zstd_bulk_compress stored_lib d level = Some d"
  "zstd_bulk_decompress stored_lib c cap = (if length c \<le> cap then Some c else None)"
  "pco_simple_compress_i64 stored_lib xs = Some (i64s_to_le_bytes xs)"
  "pco_simple_compress_f64 stored_lib ys = Some (f64s_to_le_bytes ys)"
  by (simp_all add: stored_lib_def)

lemma stored_lib_ok [simp]: "codec_lib_ok stored_lib"
  by (auto simp: codec_lib_ok_def zstd_ok_def pco_ok_def pco_dest_ok_def stored_lib_def length_as_chunks
      split: if_split_asm)

text \<open>With this instance every column keeps its values in the zstd form.\<close>

lemma stored_zstd [simp]: "zstd_compress stored_lib d level = Inr d"
  by (simp add: zstd_compress_def)

lemma stored_encode_i64: "\<exists>c. encode_i64 stored_lib vs level = Inr c \<and> length (ce_payload c) = 8 * length vs"
  by (auto simp: encode_i64_def Let_def pco_compress_i64_def)

lemma stored_encode_f64: "\<exists>c. encode_f64 stored_lib vs level = Inr c \<and> length (ce_payload c) = 8 * length vs"
  by (auto simp: encode_f64_def Let_def pco_compress_f64_def)

lemma stored_i64_column:
  "8 * length vs \<le> U32_MAX \<Longrightarrow>
   \<exists>b. and_then (encode_i64 stored_lib vs level) to_bytes = Inr b \<and> length b = 5 + 8 * length vs"
  using stored_encode_i64 [of vs level] by (auto simp: to_bytes_def)

lemma stored_u8_column:
  "length vs \<le> U32_MAX \<Longrightarrow>
   \<exists>b. and_then (encode_u8 stored_lib vs level) to_bytes = Inr b \<and> length b \<le> 5 + length vs"
  by (auto simp: encode_u8_def Let_def to_bytes_def)

lemma stored_str_column:
  assumes "length ss < 8" "strs_size ss \<le> U32_MAX"
  shows "\<exists>b. and_then (encode_str stored_lib ss (length ss) level) to_bytes = Inr b \<and> length b = 5 + strs_size ss"
proof -
  have "length s \<le> U32_MAX" if "s \<in> set ss" for s using in_strs_size [OF that] assms(2) by simp
  then have "len_prefixed_all ss = Inr (concat (map str_rec ss))" by (auto simp: len_prefixed_all_Inr)
  moreover have "\<not> length (remdups ss) * 8 \<le> length ss" if "ss \<noteq> []"
    using that assms(1) by (cases "remdups ss") auto
  ultimately have "encode_str stored_lib ss (length ss) level = Inr (column ENC_STR_ZSTD (concat (map str_rec ss)))"
    using assms(1) by (cases "ss = []") (simp_all add: encode_str_def Let_def SAMPLE_LEN_def DICT_MAX_RATIO_DEN_def DICT_MAX_RATIO_NUM_def)
  then show ?thesis using assms(2) by (auto simp: to_bytes_def)
qed

end
