(* ===== verification/BlockData.thy ===== *)
theory BlockData
  imports Text
begin

section \<open>Log entries and severities\<close>

text \<open>
  The data of \<open>crates/timeless-core/src/blocks/mod.rs\<close>: severity names and their level buckets, the
  log entry with its sorted metadata, block metadata, and the accounting of raw ingest bytes.
\<close>

subsection \<open>Severities\<close>

definition LEVEL_NAMES :: "str list" where
  "LEVEL_NAMES = [str_lit ''debug'', str_lit ''info'', str_lit ''warning'', str_lit ''error'']"

definition level_from_name :: "str \<Rightarrow> byte res" where
  "level_from_name name =
     (if name = str_lit ''debug'' then Inr 0
      else if name \<in> set [str_lit ''info'', str_lit ''notice''] then Inr 1
      else if name \<in> set [str_lit ''warning'', str_lit ''warn''] then Inr 2
      else if name \<in> set [str_lit ''error'', str_lit ''critical'', str_lit ''alert'', str_lit ''emergency'']
        then Inr 3
      else Inl (Invalid ''unknown log level''))"

definition canonical_severity :: "str \<Rightarrow> str res" where
  "canonical_severity name =
     (if name = str_lit ''debug'' then Inr (str_lit ''debug'')
      else if name = str_lit ''info'' then Inr (str_lit ''info'')
      else if name = str_lit ''notice'' then Inr (str_lit ''notice'')
      else if name \<in> set [str_lit ''warning'', str_lit ''warn''] then Inr (str_lit ''warning'')
      else if name = str_lit ''error'' then Inr (str_lit ''error'')
      else if name = str_lit ''critical'' then Inr (str_lit ''critical'')
      else if name = str_lit ''alert'' then Inr (str_lit ''alert'')
      else if name = str_lit ''emergency'' then Inr (str_lit ''emergency'')
      else Inl (Invalid ''unknown log level''))"

definition level_name :: "byte \<Rightarrow> str res" where
  "level_name level = index_r ''LEVEL_NAMES'' LEVEL_NAMES (unat level)"

lemma level_name_ok: "level \<le> 3 \<Longrightarrow> \<exists>s \<in> set LEVEL_NAMES. level_name level = Inr s"
proof -
  assume "level \<le> 3"
  then have "unat level < length LEVEL_NAMES" by (simp add: LEVEL_NAMES_def word_le_nat_alt)
  then show ?thesis by (auto simp: level_name_def)
qed

lemma level_name_no_panic [simp]: "is_panic (level_name level) \<longleftrightarrow> level > 3"
  by (auto simp: level_name_def LEVEL_NAMES_def word_less_nat_alt)

text \<open>Canonical names are fixed points, and both functions accept the same names.\<close>

lemma canonical_severity_idem: "canonical_severity s = Inr c \<Longrightarrow> canonical_severity c = Inr c"
  by (auto simp: canonical_severity_def split: if_splits)

lemma severity_same_names: "(\<exists>c. canonical_severity s = Inr c) \<longleftrightarrow> (\<exists>l. level_from_name s = Inr l)"
  by (auto simp: canonical_severity_def level_from_name_def)

lemma canonical_severity_level: "canonical_severity s = Inr c \<Longrightarrow> level_from_name c = level_from_name s"
  by (auto simp: canonical_severity_def level_from_name_def split: if_splits)

lemma level_name_canonical: "level_name l = Inr s \<Longrightarrow> canonical_severity s = Inr s \<and> level_from_name s = Inr l"
proof -
  assume a: "level_name l = Inr s"
  then have "unat l < 4" by (auto simp: level_name_def LEVEL_NAMES_def index_r_def split: if_splits)
  then have "unat l = unat (0 :: byte) \<or> unat l = unat (1 :: byte) \<or>
      unat l = unat (2 :: byte) \<or> unat l = unat (3 :: byte)" by auto
  then have "l = 0 \<or> l = 1 \<or> l = 2 \<or> l = 3" by (metis unsigned_word_eqI)
  with a show ?thesis
    by (auto simp: level_name_def LEVEL_NAMES_def canonical_severity_def level_from_name_def)
qed

subsection \<open>Binary search\<close>

text \<open>\<open>slice::binary_search_by\<close> on the keys of a slice of pairs.\<close>

function bsearch_loop :: "'k::linorder \<Rightarrow> ('k \<times> 'v) list \<Rightarrow> nat \<Rightarrow> nat \<Rightarrow> nat" where
  "bsearch_loop key xs base sz =
     (if sz > 1 then
        let half = sz div 2; mid = base + half
        in bsearch_loop key xs (if fst (xs ! mid) > key then base else mid) (sz - half)
      else base)"
  by pat_completeness auto
termination
  by (relation "measure (\<lambda>(key, xs, base, sz). sz)") auto

declare bsearch_loop.simps [simp del]

definition binary_search :: "'k::linorder \<Rightarrow> ('k \<times> 'v) list \<Rightarrow> nat option" where
  "binary_search key xs =
     (if xs = [] then None
      else let base = bsearch_loop key xs 0 (length xs)
           in if fst (xs ! base) = key then Some base else None)"

lemma bsearch_loop_inv:
  assumes "sorted_wrt (<) (map fst xs)" "0 < sz" "base + sz \<le> length xs"
    and "j < length xs" "fst (xs ! j) = key" "base \<le> j" "j < base + sz"
  shows "bsearch_loop key xs base sz = j"
  using assms
proof (induction key xs base sz rule: bsearch_loop.induct)
  case (1 key xs base sz)
  show ?case
  proof (cases "sz > 1")
    case True
    let ?half = "sz div 2" and ?mid = "base + sz div 2"
    have mid: "?mid < length xs" using True 1(4) by linarith
    have less: "fst (xs ! i) < fst (xs ! i')" if "i < i'" "i' < length xs" for i i'
      using sorted_wrt_nth_less [OF "1.prems"(1), of i i'] that by simp
    have split: "fst (xs ! ?mid) > key \<longleftrightarrow> j < ?mid"
      using less [of j ?mid] less [of ?mid j] mid 1(5,6)
      by (metis linorder_neqE_nat order_less_asym order_less_irrefl)
    let ?base = "if fst (xs ! ?mid) > key then base else ?mid"
    have "bsearch_loop key xs ?base (sz - ?half) = j"
      using 1(1) [OF True refl refl "1.prems"(1)] "1.prems" True split mid by auto
    then show ?thesis using True by (simp add: bsearch_loop.simps [of key xs base sz] Let_def)
  next
    case False
    with "1.prems" show ?thesis by (simp add: bsearch_loop.simps [of key xs base sz])
  qed
qed

lemma bsearch_loop_bound: "0 < sz \<Longrightarrow> bsearch_loop key xs base sz < base + sz"
proof (induction key xs base sz rule: bsearch_loop.induct)
  case (1 key xs base sz)
  show ?case
  proof (cases "sz > 1")
    case True
    let ?base = "if fst (xs ! (base + sz div 2)) > key then base else base + sz div 2"
    have "bsearch_loop key xs ?base (sz - sz div 2) < ?base + (sz - sz div 2)"
      using True by (intro 1(1)) auto
    moreover have "?base + (sz - sz div 2) \<le> base + sz" by auto
    ultimately show ?thesis using True by (simp add: bsearch_loop.simps [of key xs base sz] Let_def)
  next
    case False
    with 1(2) show ?thesis by (simp add: bsearch_loop.simps [of key xs base sz])
  qed
qed

lemma binary_search_Some:
  "binary_search key xs = Some i \<Longrightarrow> i < length xs \<and> fst (xs ! i) = key"
  using bsearch_loop_bound [of "length xs" key xs 0]
  by (auto simp: binary_search_def Let_def split: if_splits)

lemma binary_search_map_of:
  assumes "bt_wf xs"
  shows "map_option (\<lambda>i. snd (xs ! i)) (binary_search key xs) = bt_get xs key"
proof (cases "bt_get xs key")
  case None
  then have "key \<notin> fst ` set xs" by (simp add: map_of_eq_None_iff)
  moreover have "fst (xs ! i) \<in> fst ` set xs" if "i < length xs" for i using that by simp
  ultimately have "binary_search key xs = None"
    using binary_search_Some [of key xs] by (cases "binary_search key xs") auto
  with None show ?thesis by simp
next
  case (Some v)
  then obtain j where j: "j < length xs" "xs ! j = (key, v)"
    using bt_get_Some_iff [OF assms] by (metis in_set_conv_nth)
  then have "bsearch_loop key xs 0 (length xs) = j"
    using assms by (intro bsearch_loop_inv) (auto simp: bt_wf_def)
  with j Some show ?thesis by (auto simp: binary_search_def Let_def)
qed

subsection \<open>Entries and blocks\<close>

record log_entry =
  le_ts :: i64
  le_level :: byte
  le_severity :: "str option"
  le_message :: str
  le_metadata :: "(str \<times> str) list"
  le_metadata_json :: "str option"

definition meta_value :: "log_entry \<Rightarrow> str \<Rightarrow> str option" where
  "meta_value e key = map_option (\<lambda>i. snd (le_metadata e ! i)) (binary_search key (le_metadata e))"

definition severity_name :: "log_entry \<Rightarrow> str res" where
  "severity_name e = (case le_severity e of Some s \<Rightarrow> Inr s | None \<Rightarrow> level_name (le_level e))"

definition is_rich :: "log_entry \<Rightarrow> bool" where
  "is_rich e \<longleftrightarrow> le_severity e \<noteq> None \<or> le_metadata_json e \<noteq> None"

text \<open>Metadata is kept sorted by key with no key twice; lookups in it find exactly what is there.\<close>

lemma meta_value_spec: "bt_wf (le_metadata e) \<Longrightarrow> meta_value e key = bt_get (le_metadata e) key"
  by (simp add: meta_value_def binary_search_map_of)

record block_meta =
  bm_ts_min :: i64
  bm_ts_max :: i64
  bm_entry_count :: u32
  bm_codec :: byte

record encoded_block =
  eb_meta :: block_meta
  eb_data :: bytes
  eb_terms :: "str list"

subsection \<open>Raw ingest bytes\<close>

definition char_escaped_bytes :: "str \<Rightarrow> nat" where
  "char_escaped_bytes c =
     (if c \<in> set [[0x22], [0x5C], [0x0A], [0x0D], [0x09]] then 2
      else if length c = 1 \<and> hd c < 0x20 then 6
      else length c)"

definition json_escaped_bytes :: "str \<Rightarrow> nat" where
  "json_escaped_bytes s = sum_list (map char_escaped_bytes (chars s))"

definition flat_json_bytes :: "(str \<times> str) list \<Rightarrow> nat" where
  "flat_json_bytes pairs =
     2 + (length pairs - 1) + sum_list (map (\<lambda>(k, v). 5 + json_escaped_bytes k + json_escaped_bytes v) pairs)"

definition raw_ingest_bytes :: "log_entry \<Rightarrow> nat" where
  "raw_ingest_bytes e =
     8 + 1 + length (le_message e) +
       (case le_metadata_json e of Some json \<Rightarrow> length json | None \<Rightarrow> flat_json_bytes (le_metadata e))"

end
