(* ===== verification/PairsColumn.thy ===== *)
theory PairsColumn
  imports StrColumn BlockData
begin

section \<open>Metadata columns\<close>

text \<open>
  The metadata column of log blocks (\<open>crates/timeless-core/src/blocks/codec.rs\<close>): the pair
  serialization with its parser, and the shredded form with one presence bitmap and one dense string
  column per key, which falls back to the serialization when the pairs are not canonical or the keys
  are too many.
\<close>

subsection \<open>The pair serialization\<close>

definition serialize_pair :: "str \<times> str \<Rightarrow> bytes res" where
  "serialize_pair p =
     (let k = fst p; v = snd p in
      if length k > U16_MAX then Inl (ExceedsU16 ''encode_block: metadata key'' (length k))
      else if length v > U32_MAX then Inl (ExceedsU32 ''encode_block: metadata value'' (length v))
      else Inr (u16_le (of_nat (length k)) @ k @ u32_le (of_nat (length v)) @ v))"

definition serialize_pairs :: "(str \<times> str) list \<Rightarrow> bytes res" where
  "serialize_pairs md =
     (if length md > U16_MAX then Inl (ExceedsU16 ''encode_block: metadata pairs'' (length md))
      else and_then (collect_r serialize_pair md) (\<lambda>ps. Inr (u16_le (of_nat (length md)) @ concat ps)))"

definition serialize_metadata :: "log_entry list \<Rightarrow> bytes res" where
  "serialize_metadata entries =
     and_then (collect_r (\<lambda>e. serialize_pairs (le_metadata e)) entries) (\<lambda>bs. Inr (concat bs))"

fun parse_pairs :: "nat \<Rightarrow> nat \<Rightarrow> reader \<Rightarrow> ((str \<times> str) list \<times> reader) res" where
  "parse_pairs i 0 tr = Inr ([], tr)"
| "parse_pairs i (Suc n) tr =
     and_then (reader_u16 tr ''metadata key length'') (\<lambda>(klen, tr).
     and_then (reader_take tr (unat klen) ''metadata key'') (\<lambda>(kb, tr).
     and_then (from_utf8 kb (InvalidUtf8 ''metadata key'' i)) (\<lambda>k.
     and_then (reader_u32 tr ''metadata value length'') (\<lambda>(vlen, tr).
     and_then (reader_take tr (unat vlen) ''metadata value'') (\<lambda>(vb, tr).
     and_then (from_utf8 vb (InvalidUtf8 ''metadata value'' i)) (\<lambda>v.
     and_then (parse_pairs i n tr) (\<lambda>(md, tr).
     Inr ((k, v) # md, tr))))))))"

fun parse_entries :: "nat \<Rightarrow> nat \<Rightarrow> reader \<Rightarrow> ((str \<times> str) list list \<times> reader) res" where
  "parse_entries i 0 tr = Inr ([], tr)"
| "parse_entries i (Suc n) tr =
     and_then (reader_u16 tr ''metadata pair count'') (\<lambda>(pairs, tr).
     and_then (parse_pairs i (unat pairs) tr) (\<lambda>(md, tr).
     and_then (parse_entries (Suc i) n tr) (\<lambda>(mds, tr).
     Inr (md # mds, tr))))"

definition parse_metadata :: "bytes \<Rightarrow> nat \<Rightarrow> (str \<times> str) list list res" where
  "parse_metadata raw n =
     and_then (parse_entries 0 n (reader_new raw)) (\<lambda>(mds, tr).
     if reader_remaining tr \<noteq> 0 then Inl (Trailing ''metadata column'' (reader_remaining tr))
     else Inr mds)"

subsection \<open>Shredding\<close>

definition SHRED_MAX_KEYS :: nat where "SHRED_MAX_KEYS = 64"
definition PAIRS_LEGACY :: byte where "PAIRS_LEGACY = 0"
definition PAIRS_SHREDDED :: byte where "PAIRS_SHREDDED = 1"

lemmas pairs_strategies = SHRED_MAX_KEYS_def PAIRS_LEGACY_def PAIRS_SHREDDED_def

definition canonical_pairs :: "(str \<times> str) list \<Rightarrow> bool" where
  "canonical_pairs entry \<longleftrightarrow> \<not> list_ex (\<lambda>(a, b). fst a \<ge> fst b) (zip entry (tl entry))"

definition key_bytes :: "str \<Rightarrow> bytes res" where
  "key_bytes k =
     (if length k > U16_MAX then Inl (ExceedsU16 ''encode_pairs_column: key'' (length k))
      else Inr (u16_le (of_nat (length k)) @ k))"

text \<open>Presence and dense values of one key, by binary search in every entry.\<close>

definition key_present :: "str \<Rightarrow> (str \<times> str) list list \<Rightarrow> bool list" where
  "key_present k pairs = map (\<lambda>entry. binary_search k entry \<noteq> None) pairs"

definition key_dense :: "str \<Rightarrow> (str \<times> str) list list \<Rightarrow> str list" where
  "key_dense k pairs =
     concat (map (\<lambda>entry. case binary_search k entry of Some i \<Rightarrow> [snd (entry ! i)] | None \<Rightarrow> []) pairs)"

definition key_column :: "codec_lib \<Rightarrow> (str \<times> str) list list \<Rightarrow> int \<Rightarrow> str \<Rightarrow> bytes res" where
  "key_column lib pairs zstd_level k =
     (let present = key_present k pairs; dense = key_dense k pairs in
      and_then (encode_str lib dense (length dense) zstd_level) (\<lambda>c.
      and_then (to_bytes c) (\<lambda>col. Inr (encode_bitmap present @ col))))"

definition encode_pairs_column ::
  "codec_lib \<Rightarrow> (str \<times> str) list list \<Rightarrow> bytes \<Rightarrow> int \<Rightarrow> bytes res" where
  "encode_pairs_column lib pairs legacy_raw zstd_level =
     (let canonical = list_all canonical_pairs pairs;
          keys = btree_set (map fst (concat pairs))
      in if \<not> canonical \<or> length keys > SHRED_MAX_KEYS then
           and_then (zstd_compress lib legacy_raw zstd_level) (\<lambda>compressed.
           Inr (PAIRS_LEGACY # compressed))
         else
           and_then (collect_r key_bytes keys) (\<lambda>table.
           and_then (collect_r (key_column lib pairs zstd_level) keys) (\<lambda>cols.
           Inr (PAIRS_SHREDDED # u16_le (of_nat (length keys)) @ concat table @ concat cols))))"

text \<open>The keys table, which must be strictly ascending; \<open>prev\<close> is the last key read.\<close>

fun read_keys :: "nat \<Rightarrow> str option \<Rightarrow> nat \<Rightarrow> reader \<Rightarrow> (str list \<times> reader) res" where
  "read_keys i prev 0 r = Inr ([], r)"
| "read_keys i prev (Suc n) r =
     and_then (reader_u16 r ''key length'') (\<lambda>(klen, r).
     and_then (reader_take r (unat klen) ''key bytes'') (\<lambda>(kb, r).
     and_then (from_utf8 kb (InvalidUtf8 ''pairs column: key'' i)) (\<lambda>k.
     if (case prev of Some p \<Rightarrow> p \<ge> k | None \<Rightarrow> False)
     then Inl (Invalid ''keys table is not strictly sorted'')
     else and_then (read_keys (Suc i) (Some k) n r) (\<lambda>(ks, r). Inr (k # ks, r)))))"

text \<open>Append the next value of a key to every entry that has the key.\<close>

fun distribute :: "str \<Rightarrow> bool list \<Rightarrow> str list \<Rightarrow> (str \<times> str) list list \<Rightarrow> (str \<times> str) list list res" where
  "distribute key (p # ps) vi (entry # out) =
     (if p then
        (case vi of
           [] \<Rightarrow> Inl (Panic ''vi.next()'')
         | v # vi \<Rightarrow> and_then (distribute key ps vi out) (\<lambda>out. Inr ((entry @ [(key, v)]) # out)))
      else and_then (distribute key ps vi out) (\<lambda>out. Inr (entry # out)))"
| "distribute key _ vi out = Inr out"

fun read_key_columns ::
  "codec_lib \<Rightarrow> nat \<Rightarrow> str list \<Rightarrow> reader \<Rightarrow> (str \<times> str) list list \<Rightarrow> ((str \<times> str) list list \<times> reader) res" where
  "read_key_columns lib n [] r out = Inr (out, r)"
| "read_key_columns lib n (key # keys) r out =
     and_then (reader_take r (bitmap_len n) ''presence bitmap'') (\<lambda>(bm, r).
     and_then (decode_bitmap bm n) (\<lambda>present.
     let n_present = length (filter (\<lambda>b. b) present) in
     and_then (reader_framed_column r ''value column'') (\<lambda>(frame, r).
     and_then (decode_str lib frame n_present) (\<lambda>values.
     and_then (distribute key present values out) (\<lambda>out.
     read_key_columns lib n keys r out)))))"

definition decode_pairs_column ::
  "codec_lib \<Rightarrow> bytes \<Rightarrow> nat \<Rightarrow> (bytes \<Rightarrow> nat \<Rightarrow> (str \<times> str) list list res) \<Rightarrow> (str \<times> str) list list res" where
  "decode_pairs_column lib bs n parse_legacy =
     and_then (reader_u8 (reader_new bs) ''strategy byte'') (\<lambda>(strategy, r).
     if strategy = PAIRS_LEGACY then
       and_then (reader_take r (reader_remaining r) ''pairs column'') (\<lambda>(c, r).
       and_then (zstd_decompress lib c ''pairs column'') (\<lambda>raw. parse_legacy raw n))
     else if strategy = PAIRS_SHREDDED then
       and_then (reader_u16 r ''key count'') (\<lambda>(n_keys, r).
       if unat n_keys > SHRED_MAX_KEYS then Inl (Invalid ''shredded keys exceed the cap'')
       else and_then (read_keys 0 None (unat n_keys) r) (\<lambda>(keys, r).
            and_then (read_key_columns lib n keys r (replicate n [])) (\<lambda>(out, r).
            if reader_remaining r \<noteq> 0 then Inl (Trailing ''pairs column'' (reader_remaining r))
            else Inr out)))
     else Inl (UnknownEncoding ''pairs column'' strategy))"

subsection \<open>Parsing undoes serializing\<close>

definition pair_rec :: "str \<times> str \<Rightarrow> bytes" where
  "pair_rec p = u16_le (of_nat (length (fst p))) @ fst p @ u32_le (of_nat (length (snd p))) @ snd p"

definition md_rec :: "(str \<times> str) list \<Rightarrow> bytes" where
  "md_rec md = u16_le (of_nat (length md)) @ concat (map pair_rec md)"

text \<open>The strings of a pair list are strings: valid UTF-8.\<close>

definition pairs_utf8 :: "(str \<times> str) list \<Rightarrow> bool" where
  "pairs_utf8 md \<longleftrightarrow> (\<forall>(k, v) \<in> set md. valid_utf8 k \<and> valid_utf8 v)"

lemma length_pair_rec [simp]: "length (pair_rec p) = 6 + length (fst p) + length (snd p)"
  by (simp add: pair_rec_def)

lemma serialize_pair_Inr [simp]:
  "serialize_pair p = Inr b \<longleftrightarrow> length (fst p) \<le> U16_MAX \<and> length (snd p) \<le> U32_MAX \<and> b = pair_rec p"
  by (auto simp: serialize_pair_def pair_rec_def Let_def)

lemma collect_r_Inr_map:
  assumes "\<And>x b. f x = Inr b \<longleftrightarrow> P x \<and> b = g x"
  shows "collect_r f xs = Inr bs \<longleftrightarrow> (\<forall>x \<in> set xs. P x) \<and> bs = map g xs"
  using assms by (induction xs arbitrary: bs) auto

lemma serialize_pairs_Inr [simp]:
  "serialize_pairs md = Inr b \<longleftrightarrow>
     length md \<le> U16_MAX \<and> (\<forall>p \<in> set md. length (fst p) \<le> U16_MAX \<and> length (snd p) \<le> U32_MAX) \<and>
     b = md_rec md"
proof -
  have "collect_r serialize_pair md = Inr ps \<longleftrightarrow>
      (\<forall>p \<in> set md. length (fst p) \<le> U16_MAX \<and> length (snd p) \<le> U32_MAX) \<and> ps = map pair_rec md" for ps
    by (rule collect_r_Inr_map) auto
  then show ?thesis by (auto simp: serialize_pairs_def md_rec_def)
qed

lemma parse_pairs_ok:
  assumes "reader_wf r" "rest r = concat (map pair_rec md) @ ys" "pairs_utf8 md"
    and "\<forall>p \<in> set md. length (fst p) \<le> U16_MAX \<and> length (snd p) \<le> U32_MAX"
  shows "parse_pairs i (length md) r = Inr (md, adv (length (concat (map pair_rec md))) r)"
  using assms
proof (induction md arbitrary: r)
  case (Cons p md)
  obtain k v where p: "p = (k, v)" by (cases p)
  let ?r = "adv (6 + length k + length v) r"
  have rest: "rest r = u16_le (of_nat (length k)) @ k @ u32_le (of_nat (length v)) @ v @
      concat (map pair_rec md) @ ys"
    using Cons.prems(2) by (simp add: p pair_rec_def [of "(k, v)"])
  have IH: "parse_pairs i (length md) ?r = Inr (md, adv (length (concat (map pair_rec md))) ?r)"
    using Cons.prems rest by (intro Cons.IH) (auto simp: pairs_utf8_def)
  have "parse_pairs i (Suc (length md)) r =
      and_then (parse_pairs i (length md) ?r) (\<lambda>(md, tr). Inr ((k, v) # md, tr))"
    using Cons.prems(1,3,4) rest
    by (simp add: p codec_simps from_utf8_def pairs_utf8_def)
  with IH show ?case by (simp add: p add_ac)
qed simp

lemma parse_entries_ok:
  assumes "reader_wf r" "rest r = concat (map md_rec mds) @ ys" "\<forall>md \<in> set mds. pairs_utf8 md"
    and "\<forall>md \<in> set mds. length md \<le> U16_MAX \<and>
      (\<forall>p \<in> set md. length (fst p) \<le> U16_MAX \<and> length (snd p) \<le> U32_MAX)"
  shows "parse_entries i (length mds) r = Inr (mds, adv (length (concat (map md_rec mds))) r)"
  using assms
proof (induction mds arbitrary: i r)
  case (Cons md mds)
  let ?r1 = "adv 2 r" and ?r2 = "adv (length (md_rec md)) r"
  have rest: "rest r = u16_le (of_nat (length md)) @ concat (map pair_rec md) @ concat (map md_rec mds) @ ys"
    using Cons.prems(2) by (simp add: md_rec_def [of md])
  have "parse_pairs i (length md) ?r1 = Inr (md, adv (length (concat (map pair_rec md))) ?r1)"
    using Cons.prems rest by (intro parse_pairs_ok) auto
  moreover have "adv (length (concat (map pair_rec md))) ?r1 = ?r2" by (simp add: md_rec_def)
  moreover have "parse_entries (Suc i) (length mds) ?r2 = Inr (mds, adv (length (concat (map md_rec mds))) ?r2)"
    using Cons.prems by (intro Cons.IH) auto
  ultimately show ?case
    using Cons.prems(1,4) rest by (simp add: codec_simps)
qed simp

lemma parse_serialized:
  assumes "collect_r serialize_pairs mds = Inr bs" "length (concat bs) \<le> USIZE_MAX" "\<forall>md \<in> set mds. pairs_utf8 md"
  shows "parse_metadata (concat bs) (length mds) = Inr mds"
proof -
  have "bs = map md_rec mds \<and> (\<forall>md \<in> set mds. length md \<le> U16_MAX \<and>
      (\<forall>p \<in> set md. length (fst p) \<le> U16_MAX \<and> length (snd p) \<le> U32_MAX))"
    using assms(1) collect_r_Inr_map [of serialize_pairs "\<lambda>md. length md \<le> U16_MAX \<and>
      (\<forall>p \<in> set md. length (fst p) \<le> U16_MAX \<and> length (snd p) \<le> U32_MAX)" md_rec mds bs] by simp
  then show ?thesis
    using assms(2,3) parse_entries_ok [of "reader_new (concat bs)" mds "[]" 0]
    by (simp add: parse_metadata_def reader_remaining_rest)
qed

lemma parse_pairs_no_panic [simp]: "\<not> is_panic (parse_pairs i n r)"
  by (induction i n r rule: parse_pairs.induct) auto

lemma parse_entries_no_panic [simp]: "\<not> is_panic (parse_entries i n r)"
  by (induction i n r rule: parse_entries.induct) auto

lemma parse_metadata_no_panic [simp]: "\<not> is_panic (parse_metadata raw n)"
  by (auto simp: parse_metadata_def)

lemma parse_entries_length: "parse_entries i n r = Inr (mds, r') \<Longrightarrow> length mds = n"
  by (induction i n r arbitrary: mds rule: parse_entries.induct) auto

lemma parse_metadata_length: "parse_metadata raw n = Inr mds \<Longrightarrow> length mds = n"
  by (auto simp: parse_metadata_def dest: parse_entries_length split: if_split_asm)

subsection \<open>Unshredding undoes shredding\<close>

lemma canonical_pairs_iff: "canonical_pairs m \<longleftrightarrow> bt_wf m"
proof (induction m)
  case (Cons p m)
  then show ?case
    by (cases m) (auto simp: canonical_pairs_def bt_wf_def not_le intro: less_trans)
qed (simp add: canonical_pairs_def)

text \<open>The pairs of an entry whose keys are among the first keys of the table.\<close>

definition restrict_keys :: "str list \<Rightarrow> (str \<times> str) list \<Rightarrow> (str \<times> str) list" where
  "restrict_keys ks m = filter (\<lambda>(k, _). k \<in> set ks) m"

lemma restrict_keys_Nil [simp]: "restrict_keys [] m = []"
  by (simp add: restrict_keys_def)

lemma restrict_keys_all: "fst ` set m \<subseteq> set ks \<Longrightarrow> restrict_keys ks m = m"
  by (auto simp: restrict_keys_def filter_id_conv)

lemma restrict_keys_snoc:
  assumes "bt_wf m" "\<forall>k' \<in> set ks. k' < k"
  shows "restrict_keys (ks @ [k]) m =
     restrict_keys ks m @ (case bt_get m k of None \<Rightarrow> [] | Some v \<Rightarrow> [(k, v)])"
  using assms
proof (induction m)
  case (Cons p m)
  obtain k' v where p: "p = (k', v)" by (cases p)
  have wf: "bt_wf m" and lt: "\<forall>k'' \<in> fst ` set m. k' < k''" using Cons.prems(1) p by (auto simp: bt_wf_Cons)
  have IH: "restrict_keys (ks @ [k]) m =
     restrict_keys ks m @ (case bt_get m k of None \<Rightarrow> [] | Some v \<Rightarrow> [(k, v)])"
    using Cons.IH wf Cons.prems(2) by simp
  show ?case
  proof (cases "k' = k")
    case True
    have "restrict_keys (ks @ [k]) m = []"
      using lt True Cons.prems(2) by (fastforce simp: restrict_keys_def filter_empty_conv)
    moreover have "restrict_keys ks (p # m) = []"
      using lt True Cons.prems(2) p by (fastforce simp: restrict_keys_def filter_empty_conv)
    ultimately show ?thesis using True p by (simp add: restrict_keys_def)
  next
    case False
    then show ?thesis using IH p by (simp add: restrict_keys_def)
  qed
qed (simp add: restrict_keys_def)

lemma key_search:
  assumes "bt_wf m"
  obtains "bt_get m k = None" "binary_search k m = None"
  | v i where "bt_get m k = Some v" "binary_search k m = Some i" "snd (m ! i) = v"
  using binary_search_map_of [OF assms, of k, symmetric] by (cases "binary_search k m") auto

lemma distribute_restrict:
  assumes "\<forall>m \<in> set mds. bt_wf m" "\<forall>k' \<in> set ks. k' < k"
  shows "distribute k (key_present k mds) (key_dense k mds) (map (restrict_keys ks) mds) =
     Inr (map (restrict_keys (ks @ [k])) mds)"
  using assms
proof (induction mds)
  case (Cons m mds)
  have "bt_wf m" using Cons.prems by simp
  then show ?case
    using Cons by (cases rule: key_search [of m k])
      (simp_all add: key_present_def key_dense_def restrict_keys_snoc)
qed (simp add: key_present_def key_dense_def)

lemma key_present_dense: "length (filter (\<lambda>b. b) (key_present k mds)) = length (key_dense k mds)"
  by (induction mds) (auto simp: key_present_def key_dense_def)

lemma distribute_no_panic:
  "length (filter (\<lambda>b. b) ps) \<le> length vs \<Longrightarrow> \<not> is_panic (distribute k ps vs out)"
  by (induction k ps vs out rule: distribute.induct) (auto split: list.splits)

lemma distribute_length: "distribute k ps vs out = Inr out' \<Longrightarrow> length out' = length out"
  by (induction k ps vs out arbitrary: out' rule: distribute.induct) (auto split: if_split_asm list.splits)

definition key_rec :: "str \<Rightarrow> bytes" where
  "key_rec k = u16_le (of_nat (length k)) @ k"

lemma key_bytes_Inr [simp]: "key_bytes k = Inr b \<longleftrightarrow> length k \<le> U16_MAX \<and> b = key_rec k"
  by (auto simp: key_bytes_def key_rec_def)

lemma read_keys_ok:
  assumes "reader_wf r" "rest r = concat (map key_rec ks) @ ys"
    and "\<forall>k \<in> set ks. valid_utf8 k \<and> length k \<le> U16_MAX" "sorted_wrt (<) ks"
    and "case prev of Some p \<Rightarrow> \<forall>k \<in> set ks. p < k | None \<Rightarrow> True"
  shows "read_keys i prev (length ks) r = Inr (ks, adv (length (concat (map key_rec ks))) r)"
  using assms
proof (induction ks arbitrary: i prev r)
  case (Cons k ks)
  let ?r = "adv (2 + length k) r"
  have rest: "rest r = u16_le (of_nat (length k)) @ k @ concat (map key_rec ks) @ ys"
    using Cons.prems(2) by (simp add: key_rec_def [of k])
  have "read_keys (Suc i) (Some k) (length ks) ?r = Inr (ks, adv (length (concat (map key_rec ks))) ?r)"
    using Cons.prems rest by (intro Cons.IH) auto
  moreover have "(case prev of Some p \<Rightarrow> p \<ge> k | None \<Rightarrow> False) = False"
    using Cons.prems(5) by (auto split: option.splits)
  ultimately show ?case
    using Cons.prems(1,3) rest by (simp add: codec_simps from_utf8_def key_rec_def [of k])
qed simp

lemma read_key_columns_ok:
  assumes ok: "codec_lib_ok lib" and wf: "\<forall>m \<in> set mds. bt_wf m"
    and fit: "\<forall>k. strs_fit (key_dense k mds)" and n: "n = length mds"
    and "list_all2 (\<lambda>k col. key_column lib mds level k = Inr col) ks cols" "sorted_wrt (<) (prior @ ks)"
    and "reader_wf r" "rest r = concat cols @ ys"
  shows "read_key_columns lib n ks r (map (restrict_keys prior) mds) =
     Inr (map (restrict_keys (prior @ ks)) mds, adv (length (concat cols)) r)"
  using assms(5-)
proof (induction ks arbitrary: prior cols r)
  case (Cons k ks)
  then obtain col cols' where cols: "cols = col # cols'" and col: "key_column lib mds level k = Inr col"
    and cols': "list_all2 (\<lambda>k col. key_column lib mds level k = Inr col) ks cols'"
    by (auto simp: list_all2_Cons1)
  let ?bm = "encode_bitmap (key_present k mds)"
  from col obtain c b where c: "encode_str lib (key_dense k mds) (length (key_dense k mds)) level = Inr c"
    and b: "to_bytes c = Inr b" and colb: "col = ?bm @ b"
    by (auto simp: key_column_def Let_def simp del: to_bytes_Inr)
  have lb: "length ?bm = bitmap_len n" by (simp add: n key_present_def)
  have rest: "rest r = ?bm @ b @ concat cols' @ ys" using Cons.prems(4) cols colb by simp
  have r1: "reader_take r (bitmap_len n) w = Inr (?bm, adv (bitmap_len n) r)" for w
    using Cons.prems(3) rest lb by (simp add: codec_simps)
  have wf1: "reader_wf (adv (bitmap_len n) r)" using Cons.prems(3) rest lb by simp
  have r2: "reader_framed_column (adv (bitmap_len n) r) w = Inr (b, adv (length b) (adv (bitmap_len n) r))" for w
    using b rest lb by (intro reader_framed_column_ok [OF wf1 b]) simp
  have bits: "decode_bitmap ?bm n = Inr (key_present k mds)"
    using decode_encode_bitmap [of "key_present k mds"] by (simp add: n key_present_def)
  have vals: "decode_str lib b (length (key_dense k mds)) = Inr (key_dense k mds)"
    using decode_encode_str [OF ok _ c b] fit by simp
  have dist: "distribute k (key_present k mds) (key_dense k mds) (map (restrict_keys prior) mds) =
      Inr (map (restrict_keys (prior @ [k])) mds)"
    using wf Cons.prems(2) by (intro distribute_restrict) (auto simp: sorted_wrt_append)
  let ?r = "adv (length col) r"
  have "read_key_columns lib n ks ?r (map (restrict_keys (prior @ [k])) mds) =
      Inr (map (restrict_keys ((prior @ [k]) @ ks)) mds, adv (length (concat cols')) ?r)"
    using Cons.prems cols cols' by (intro Cons.IH) auto
  moreover have "adv (length b) (adv (bitmap_len n) r) = ?r" using colb lb by simp
  ultimately show ?case
    using r1 r2 bits vals dist cols colb lb by (simp add: key_present_dense del: adv_adv)
      (simp add: add_ac)
qed simp

lemma key_dense_fits:
  assumes "\<forall>m \<in> set mds. bt_wf m \<and> pairs_utf8 m"
    and "length (concat (map md_rec mds)) \<le> DECOMPRESS_MAX_BYTES" "length mds \<le> MAX_BLOCK_ENTRIES"
  shows "strs_fit (key_dense k mds)"
proof -
  have entry: "list_all valid_utf8 (key_dense k [m]) \<and> strs_size (key_dense k [m]) \<le> length (md_rec m) \<and>
      length (key_dense k [m]) \<le> 1" if "bt_wf m" "pairs_utf8 m" for m
    using that(1)
  proof (cases rule: key_search [of m k])
    case 1
    then show ?thesis by (simp add: key_dense_def)
  next
    case (2 v i)
    then have "(k, v) \<in> set m" using bt_get_Some_iff [OF that(1)] by simp
    moreover from this have "length (pair_rec (k, v)) \<le> length (concat (map pair_rec m))"
      by (induction m) auto
    ultimately show ?thesis using 2 that(2) by (auto simp: key_dense_def pairs_utf8_def md_rec_def)
  qed
  have "list_all valid_utf8 (key_dense k mds) \<and> strs_size (key_dense k mds) \<le> length (concat (map md_rec mds)) \<and>
      length (key_dense k mds) \<le> length mds"
    using assms(1)
  proof (induction mds)
    case (Cons m mds)
    have "key_dense k (m # mds) = key_dense k [m] @ key_dense k mds" by (simp add: key_dense_def)
    with Cons entry [of m] show ?case by (auto simp: strs_size_def)
  qed (simp add: key_dense_def)
  then show ?thesis
    using assms(2,3) by (auto simp: strs_fit_def MAX_BLOCK_ENTRIES_def DECOMPRESS_MAX_BYTES_def)
qed

text \<open>A column decodes to its pairs, whichever strategy the encoder took.\<close>

lemma decode_encode_pairs_column:
  assumes ok: "codec_lib_ok lib" and ser: "collect_r serialize_pairs mds = Inr bs"
    and raw: "length (concat bs) \<le> DECOMPRESS_MAX_BYTES" and n: "length mds \<le> MAX_BLOCK_ENTRIES"
    and utf8: "\<forall>m \<in> set mds. pairs_utf8 m"
    and enc: "encode_pairs_column lib mds (concat bs) level = Inr b" and b: "length b \<le> USIZE_MAX"
    and legacy: "parse_legacy (concat bs) (length mds) = Inr mds"
  shows "decode_pairs_column lib b (length mds) parse_legacy = Inr mds"
proof -
  let ?keys = "btree_set (map fst (concat mds))"
  show ?thesis
  proof (cases "\<not> list_all canonical_pairs mds \<or> length ?keys > SHRED_MAX_KEYS")
    case True
    then obtain z where z: "zstd_bulk_compress lib (concat bs) level = Some z" "b = PAIRS_LEGACY # z"
      using enc by (auto simp: encode_pairs_column_def Let_def)
    have "zstd_decompress lib z w = Inr (concat bs)" for w
      using ok z(1) raw by (rule zstd_roundtrip_default)
    then show ?thesis
      using z b legacy by (simp add: decode_pairs_column_def codec_simps reader_remaining_rest)
  next
    case False
    with enc obtain cols where cols: "collect_r (key_column lib mds level) ?keys = Inr cols"
      and klen: "\<forall>k \<in> set ?keys. length k \<le> U16_MAX"
      and bb: "b = PAIRS_SHREDDED # u16_le (of_nat (length ?keys)) @ concat (map key_rec ?keys) @ concat cols"
      using collect_r_Inr_map [of key_bytes "\<lambda>k. length k \<le> U16_MAX" key_rec]
      by (auto simp: encode_pairs_column_def Let_def simp del: btree_set_props)
    from False have wf: "\<forall>m \<in> set mds. bt_wf m" and nk: "length ?keys \<le> SHRED_MAX_KEYS"
      by (auto simp: list_all_iff canonical_pairs_iff)
    have rec: "concat bs = concat (map md_rec mds)"
      using ser collect_r_Inr_map [of serialize_pairs "\<lambda>md. length md \<le> U16_MAX \<and>
        (\<forall>p \<in> set md. length (fst p) \<le> U16_MAX \<and> length (snd p) \<le> U32_MAX)" md_rec mds bs] by simp
    have fit: "\<forall>k. strs_fit (key_dense k mds)"
      using key_dense_fits [of mds] wf utf8 raw n rec by simp
    have kv: "\<forall>k \<in> set ?keys. valid_utf8 k \<and> length k \<le> U16_MAX"
      using klen utf8 by (fastforce simp: pairs_utf8_def)
    let ?r = "adv 3 (reader_new b)"
    have lk: "length ?keys \<le> U16_MAX" using nk by (simp add: SHRED_MAX_KEYS_def U16_MAX_def)
    have wfr: "reader_wf (reader_new b)" using b by simp
    have keys: "read_keys 0 None (length ?keys) ?r =
        Inr (?keys, adv (length (concat (map key_rec ?keys))) ?r)"
      using b kv btree_set_strict by (intro read_keys_ok [where ys = "concat cols"]) (auto simp: bb)
    let ?r2 = "adv (length (concat (map key_rec ?keys))) ?r"
    have rr: "rest ?r = concat (map key_rec ?keys) @ concat cols" by (simp add: bb)
    have rr2: "rest ?r2 = concat cols" unfolding rest_adv [of _ ?r] rr by simp
    have "reader_wf ?r" using wfr by (rule reader_wf_adv) (simp add: bb)
    then have wfr2: "reader_wf ?r2" by (rule reader_wf_adv) (simp only: rr length_append le_add1)
    have "read_key_columns lib (length mds) ?keys ?r2 (map (restrict_keys []) mds) =
        Inr (map (restrict_keys ([] @ ?keys)) mds, adv (length (concat cols)) ?r2)"
    proof (rule read_key_columns_ok [OF ok wf fit refl _ _ wfr2, where ys = "[]"])
      show "rest ?r2 = concat cols @ []" using rr2 by simp
    qed (use cols btree_set_strict in \<open>simp_all add: collect_r_Inr_conv\<close>)
    moreover have "map (restrict_keys ?keys) mds = mds"
      by (rule map_idI) (rule restrict_keys_all, force)
    moreover have "map (restrict_keys []) mds = replicate (length mds) []"
      by (induction mds) simp_all
    moreover have "reader_remaining (adv (length (concat cols)) ?r2) = 0"
      unfolding reader_remaining_rest rest_adv [of _ ?r2] rr2 by simp
    moreover have "reader_u8 (reader_new b) w = Inr (PAIRS_SHREDDED, adv 1 (reader_new b))" for w
      using wfr by (simp add: codec_simps bb)
    moreover have "reader_u16 (adv 1 (reader_new b)) w = Inr (of_nat (length ?keys), ?r)" for w
      using wfr by (simp add: codec_simps bb numeral_3_eq_3)
    ultimately show ?thesis
      using keys nk lk
      by (simp add: decode_pairs_column_def pairs_strategies del: btree_set_props adv_adv)
  qed
qed

lemma read_keys_no_panic [simp]: "\<not> is_panic (read_keys i prev n r)"
  by (induction i prev n r rule: read_keys.induct) auto

lemma read_key_columns_no_panic [simp]: "\<not> is_panic (read_key_columns lib n ks r out)"
  by (induction lib n ks r out rule: read_key_columns.induct)
    (auto simp: Let_def decode_str_no_panic distribute_no_panic dest: decode_str_length)

lemma decode_pairs_column_no_panic:
  "(\<And>raw. \<not> is_panic (parse_legacy raw n)) \<Longrightarrow> \<not> is_panic (decode_pairs_column lib b n parse_legacy)"
  by (auto simp: decode_pairs_column_def)

lemma read_key_columns_length:
  "read_key_columns lib n ks r out = Inr (out', r') \<Longrightarrow> length out' = length out"
  by (induction lib n ks r out rule: read_key_columns.induct) (auto simp: Let_def dest: distribute_length)

lemma decode_pairs_column_length:
  "decode_pairs_column lib b n parse_legacy = Inr mds \<Longrightarrow>
     (\<And>raw mds. parse_legacy raw n = Inr mds \<Longrightarrow> length mds = n) \<Longrightarrow> length mds = n"
  by (auto simp: decode_pairs_column_def dest!: read_key_columns_length split: if_split_asm)

end
