(* ===== verification/FlatJson.thy ===== *)
theory FlatJson
  imports BlockData
begin

section \<open>Flat JSON objects\<close>

text \<open>
  \<open>crates/timeless-ext/src/flatjson.rs\<close>: the canonical printer of flat string objects and the hand
  parser for labels and filter matchers. A \<open>JsonCursor\<close> is the slice of input from its position on;
  a \<open>HashMap\<close> is a map. Parsing undoes printing; the byte accounting of
  \<open>crates/timeless-core/src/blocks/mod.rs\<close> (\<open>flat_json_bytes\<close>) is the length of what is printed.
\<close>

subsection \<open>Printing\<close>

definition hex_digit :: "nat \<Rightarrow> byte" where
  "hex_digit d = (if d < 10 then of_nat (48 + d) else of_nat (87 + d))"

definition hex4 :: "nat \<Rightarrow> bytes" where
  "hex4 n = map hex_digit [n div 4096 mod 16, n div 256 mod 16, n div 16 mod 16, n mod 16]"

definition json_escape_char :: "str \<Rightarrow> bytes" where
  "json_escape_char c =
     (if c = [0x22] then [0x5C, 0x22]
      else if c = [0x5C] then [0x5C, 0x5C]
      else if c = [0x0A] then [0x5C, 0x6E]
      else if c = [0x0D] then [0x5C, 0x72]
      else if c = [0x09] then [0x5C, 0x74]
      else if length c = 1 \<and> hd c < 0x20 then [0x5C, 0x75] @ hex4 (unat (hd c))
      else c)"

definition json_escape_into :: "bytes \<Rightarrow> str \<Rightarrow> bytes" where
  "json_escape_into out s = fold (\<lambda>c out. out @ json_escape_char c) (chars s) out"

fun pairs_to_json_iter :: "bool \<Rightarrow> bytes \<Rightarrow> (str \<times> str) list \<Rightarrow> bytes" where
  "pairs_to_json_iter first out [] = out @ [0x7D]"
| "pairs_to_json_iter first out ((k, v) # ps) =
     (let out = (if first then out else out @ [0x2C]);
          out = json_escape_into (out @ [0x22]) k;
          out = json_escape_into (out @ [0x22, 0x3A, 0x22]) v
      in pairs_to_json_iter False (out @ [0x22]) ps)"

definition pairs_to_json :: "(str \<times> str) list \<Rightarrow> bytes" where
  "pairs_to_json pairs = pairs_to_json_iter True [0x7B] pairs"

text \<open>Labels are a \<open>BTreeMap\<close>; they print in key order.\<close>

definition labels_to_json :: "(str, str) btree \<Rightarrow> bytes" where
  "labels_to_json labels = pairs_to_json_iter True [0x7B] labels"

subsection \<open>The cursor\<close>

type_synonym cursor = bytes

definition peek :: "cursor \<Rightarrow> byte option" where
  "peek cur = (case cur of [] \<Rightarrow> None | c # _ \<Rightarrow> Some c)"

definition skip_ws :: "cursor \<Rightarrow> cursor" where
  "skip_ws cur = dropWhile (\<lambda>c. c \<in> set [0x20, 0x09, 0x0A, 0x0D]) cur"

definition expect :: "byte \<Rightarrow> cursor \<Rightarrow> cursor res" where
  "expect want cur =
     (case cur of
        c # r \<Rightarrow> if c = want then Inr r else Inl (Invalid ''labels JSON: expected'')
      | [] \<Rightarrow> Inl (Invalid ''labels JSON: expected, found end of input''))"

definition to_digit_16 :: "byte \<Rightarrow> nat option" where
  "to_digit_16 c =
     (if 0x30 \<le> c \<and> c \<le> 0x39 then Some (unat c - 48)
      else if 0x61 \<le> c \<and> c \<le> 0x66 then Some (unat c - 87)
      else if 0x41 \<le> c \<and> c \<le> 0x46 then Some (unat c - 55)
      else None)"

fun json_hex :: "nat \<Rightarrow> nat \<Rightarrow> cursor \<Rightarrow> (nat \<times> cursor) res" where
  "json_hex 0 code cur = Inr (code, cur)"
| "json_hex (Suc k) code cur =
     (case cur of
        [] \<Rightarrow> Inl (Invalid ''labels JSON: u needs 4 hex digits'')
      | c # r \<Rightarrow> (case to_digit_16 c of
          None \<Rightarrow> Inl (Invalid ''labels JSON: u needs 4 hex digits'')
        | Some d \<Rightarrow> json_hex k (code * 16 + d) r))"

text \<open>\<open>char::from_u32\<close> for the 16-bit codes an escape can name, and the character's UTF-8.\<close>

definition char_from_u32 :: "nat \<Rightarrow> str option" where
  "char_from_u32 code =
     (if 0xD800 \<le> code \<and> code \<le> 0xDFFF then None
      else if code < 0x80 then Some [of_nat code]
      else if code < 0x800 then Some [of_nat (0xC0 + code div 64), of_nat (0x80 + code mod 64)]
      else Some [of_nat (0xE0 + code div 4096), of_nat (0x80 + code div 64 mod 64),
                 of_nat (0x80 + code mod 64)])"

definition simple_escape :: "byte \<Rightarrow> byte option" where
  "simple_escape e =
     map_of [(0x22, 0x22), (0x5C, 0x5C), (0x2F, 0x2F), (0x62, 0x08), (0x66, 0x0C),
             (0x6E, 0x0A), (0x72, 0x0D), (0x74, 0x09)] e"

definition string_run :: "cursor \<Rightarrow> bytes" where
  "string_run cur = takeWhile (\<lambda>c. c \<noteq> 0x22 \<and> c \<noteq> 0x5C) cur"

definition after_run :: "cursor \<Rightarrow> cursor" where
  "after_run cur = dropWhile (\<lambda>c. c \<noteq> 0x22 \<and> c \<noteq> 0x5C) cur"

lemma json_hex_length: "json_hex k code cur = Inr (c, r) \<Longrightarrow> length r \<le> length cur"
  by (induction k code cur rule: json_hex.induct)
    (auto split: list.splits option.splits intro: le_SucI)

text \<open>The slow path of \<open>parse_string\<close>: decode escapes and raw runs up to the closing quote.\<close>

function json_unescape :: "str \<Rightarrow> cursor \<Rightarrow> (str \<times> cursor) res" where
  "json_unescape out [] = Inl (Invalid ''labels JSON: unterminated string'')"
| "json_unescape out (c # r) =
     (if c = 0x22 then Inr (out, r)
      else if c = 0x5C then
        (case r of
           [] \<Rightarrow> Inl (Invalid ''labels JSON: unterminated escape'')
         | e # r \<Rightarrow>
             (case simple_escape e of
                Some d \<Rightarrow> json_unescape (out @ [d]) r
              | None \<Rightarrow>
                  if e = 0x75 then
                    and_then (json_hex 4 0 r) (\<lambda>(code, r).
                    (case char_from_u32 code of
                       None \<Rightarrow> Inl (Invalid ''labels JSON: surrogate half'')
                     | Some ch \<Rightarrow> json_unescape (out @ ch) r))
                  else Inl (Invalid ''labels JSON: bad escape'')))
      else
        and_then (from_utf8 (string_run (c # r)) (Invalid ''labels JSON: invalid UTF-8 in string'')) (\<lambda>s.
        json_unescape (out @ s) (after_run (c # r))))"
  by pat_completeness auto
termination
  by (relation "measure (\<lambda>(out, cur). length cur)")
    (auto simp: after_run_def length_dropWhile_le less_Suc_eq_le dest!: json_hex_length)

declare json_unescape.simps(2) [simp del]

definition parse_string :: "cursor \<Rightarrow> (str \<times> cursor) res" where
  "parse_string cur =
     and_then (expect 0x22 cur) (\<lambda>cur.
     let run = string_run cur; cur' = after_run cur in
     case cur' of
       [] \<Rightarrow> Inl (Invalid ''labels JSON: unterminated string'')
     | c # r \<Rightarrow>
         if c \<noteq> 0x5C then
           and_then (from_utf8 run (Invalid ''labels JSON: invalid UTF-8 in string'')) (\<lambda>s. Inr (s, r))
         else
           and_then (from_utf8 run (Invalid ''labels JSON: invalid UTF-8 in string'')) (\<lambda>s.
           json_unescape s cur'))"

lemma after_run_length: "length (after_run cur) \<le> length cur"
  by (simp add: after_run_def length_dropWhile_le)

text \<open>One step of a successful decode.\<close>

lemma json_unescape_Cons:
  assumes "json_unescape out (c # r) = Inr (s, fin)"
  obtains (stop) "c = 0x22" "s = out" "fin = r"
  | (simple) e r' d where "c = 0x5C" "r = e # r'" "simple_escape e = Some d"
      "json_unescape (out @ [d]) r' = Inr (s, fin)"
  | (code) r' n r'' ch where "c = 0x5C" "r = 0x75 # r'" "json_hex 4 0 r' = Inr (n, r'')"
      "char_from_u32 n = Some ch" "json_unescape (out @ ch) r'' = Inr (s, fin)"
  | (run) "c \<noteq> 0x22" "c \<noteq> 0x5C" "valid_utf8 (string_run (c # r))"
      "json_unescape (out @ string_run (c # r)) (after_run (c # r)) = Inr (s, fin)"
  using assms unfolding json_unescape.simps
  by (auto split: if_split_asm list.splits option.splits)

lemma json_unescape_length: "json_unescape out cur = Inr (s, r) \<Longrightarrow> length r < length cur"
proof (induction "length cur" arbitrary: out cur rule: less_induct)
  case less
  then obtain c r0 where cur: "cur = c # r0" by (cases cur) auto
  from less.prems [unfolded cur] show ?case
  proof (cases rule: json_unescape_Cons)
    case stop
    then show ?thesis using cur by simp
  next
    case (simple e r' d)
    with less.hyps [OF _ simple(4)] cur show ?thesis by simp
  next
    case (code r' n r'' ch)
    have "length r'' \<le> length r'" using code(3) by (rule json_hex_length)
    with less.hyps [OF _ code(5)] cur code(2) show ?thesis by simp
  next
    case run
    then have "length (after_run cur) \<le> length r0"
      using length_dropWhile_le by (simp add: cur after_run_def)
    with less.hyps [OF _ run(4)] cur show ?thesis by simp
  qed
qed

lemma json_hex_bound: "json_hex k code cur = Inr (n, r) \<Longrightarrow> n < (code + 1) * 16 ^ k"
proof (induction k code cur rule: json_hex.induct)
  case (2 k code cur)
  then obtain c cur' d where d: "to_digit_16 c = Some d" and IH: "n < (code * 16 + d + 1) * 16 ^ k"
    by (auto split: list.splits option.splits)
  have "d < 16" using d by (auto simp: to_digit_16_def word_le_nat_alt split: if_split_asm)
  then have "(code * 16 + d + 1) * 16 ^ k \<le> ((code + 1) * 16) * 16 ^ k" by (intro mult_right_mono) auto
  with IH have "n < ((code + 1) * 16) * 16 ^ k" by (rule less_le_trans)
  then show ?case by (simp only: power_Suc mult.assoc)
qed simp

lemma unat_byte_of_nat: "n < 256 \<Longrightarrow> unat (of_nat n :: byte) = n"
  by (simp add: unat_of_nat)

lemma utf8_width_3:
  fixes a m c :: nat
  assumes "a < 16" "m < 64" "c < 64" "a = 0 \<longrightarrow> 32 \<le> m" "a = 13 \<longrightarrow> m < 32"
  shows "utf8_width [of_nat (0xE0 + a), of_nat (0x80 + m), of_nat (0x80 + c)] = Some 3"
  using assms
  by (auto simp: utf8_width.simps utf8_cont_def word_less_nat_alt word_le_nat_alt
      unat_byte_of_nat word_unat_eq_iff simp del: of_nat_add of_nat_numeral)

lemma char_from_u32_valid:
  assumes "char_from_u32 n = Some ch" "n < 65536"
  shows "valid_utf8 ch"
proof -
  have b: "n div 4096 < 16" "n div 64 mod 64 < 64" "n mod 64 < 64" using assms(2) by auto
  consider (1) "n < 0x80" | (2) "0x80 \<le> n" "n < 0x800" | (3) "0x800 \<le> n" by linarith
  then show ?thesis
  proof cases
    case 1
    then have "(of_nat n :: byte) < 0x80" by (simp add: word_less_nat_alt unat_byte_of_nat)
    with 1 assms(1) show ?thesis by (auto simp: char_from_u32_def)
  next
    case 2
    then have "2 \<le> n div 64" "n div 64 < 32" by auto
    then have "utf8_width ch = Some 2 \<and> length ch = 2"
      using 2 assms(1) b
      by (auto simp: char_from_u32_def utf8_width.simps utf8_cont_def word_less_nat_alt word_le_nat_alt
          unat_byte_of_nat simp del: of_nat_add of_nat_numeral)
    then show ?thesis by (simp add: valid_utf8_width)
  next
    case 3
    have "\<not> (0xD800 \<le> n \<and> n \<le> 0xDFFF)" using assms(1) by (auto simp: char_from_u32_def)
    moreover have "n div 4096 = 0 \<Longrightarrow> 32 \<le> n div 64 mod 64" using 3 by auto
    moreover have "n div 64 mod 64 < 32" if "n div 4096 = 13" "\<not> 0xD800 \<le> n"
    proof -
      define q where "q = n div 64"
      have "q div 64 = 13" using that(1) by (simp add: q_def flip: div_mult2_eq)
      moreover have "q < 864" using that(2) by (simp add: q_def less_mult_imp_div_less)
      ultimately show ?thesis using div_mult_mod_eq [of q 64] by (simp add: q_def)
    qed
    moreover have "n div 4096 \<noteq> 13 \<or> n < 0xE000" using assms(2) by auto
    moreover have "ch = [of_nat (0xE0 + n div 4096), of_nat (0x80 + n div 64 mod 64), of_nat (0x80 + n mod 64)]"
      using 3 assms(1) by (auto simp: char_from_u32_def split: if_split_asm)
    ultimately have "utf8_width ch = Some 3 \<and> length ch = 3"
      using b utf8_width_3 [of "n div 4096" "n div 64 mod 64" "n mod 64"] by fastforce
    then show ?thesis by (simp add: valid_utf8_width)
  qed
qed

lemma simple_escape_ascii: "simple_escape e = Some d \<Longrightarrow> d < 0x80"
  by (auto simp: simple_escape_def split: if_split_asm)

text \<open>Every string the parser yields is valid UTF-8.\<close>

lemma json_unescape_valid: "json_unescape out cur = Inr (s, r) \<Longrightarrow> valid_utf8 out \<Longrightarrow> valid_utf8 s"
proof (induction "length cur" arbitrary: out cur rule: less_induct)
  case less
  then obtain c r0 where cur: "cur = c # r0" by (cases cur) auto
  from less.prems(1) [unfolded cur] show ?case
  proof (cases rule: json_unescape_Cons)
    case stop
    then show ?thesis using less.prems by simp
  next
    case (simple e r' d)
    with less.hyps [OF _ simple(4)] cur less.prems(2) show ?thesis
      by (simp add: simple_escape_ascii)
  next
    case (code r' n r'' ch)
    have "length r'' \<le> length r'" using code(3) by (rule json_hex_length)
    moreover have "n < 65536" using json_hex_bound [OF code(3)] by simp
    then have "valid_utf8 ch" using code(4) by (intro char_from_u32_valid)
    ultimately show ?thesis
      using less.hyps [OF _ code(5)] cur code(2) less.prems(2) by simp
  next
    case run
    then have "length (after_run cur) \<le> length r0"
      using length_dropWhile_le by (simp add: cur after_run_def)
    with less.hyps [OF _ run(4)] cur run(3) less.prems(2) show ?thesis by simp
  qed
qed

lemma parse_string_cases:
  assumes "parse_string cur = Inr (s, r)"
  obtains cur1 c r1 where "cur = 0x22 # cur1" "after_run cur1 = c # r1" "valid_utf8 (string_run cur1)"
    "c \<noteq> 0x5C \<and> s = string_run cur1 \<and> r = r1 \<or>
     json_unescape (string_run cur1) (after_run cur1) = Inr (s, r)"
proof -
  from assms obtain cur1 where cur: "cur = 0x22 # cur1"
    by (cases cur) (auto simp: parse_string_def expect_def split: if_split_asm)
  with assms show thesis
    by (cases "after_run cur1") (auto simp: parse_string_def expect_def Let_def split: if_split_asm intro: that)
qed

lemma parse_string_valid: "parse_string cur = Inr (s, r) \<Longrightarrow> valid_utf8 s"
  by (erule parse_string_cases) (auto dest: json_unescape_valid)

lemma parse_string_length:
  assumes "parse_string cur = Inr (s, r)"
  shows "length r < length cur"
  using assms
proof (cases rule: parse_string_cases)
  case (1 cur1 c r1)
  then show ?thesis using after_run_length [of cur1] by (auto dest: json_unescape_length)
qed

subsection \<open>Objects\<close>

function labels_loop :: "(str \<rightharpoonup> str) \<Rightarrow> cursor \<Rightarrow> ((str \<rightharpoonup> str) \<times> cursor) res" where
  "labels_loop out cur =
     and_then (parse_string (skip_ws cur)) (\<lambda>(key, cur).
     and_then (expect 0x3A (skip_ws cur)) (\<lambda>cur.
     let cur = skip_ws cur in
     and_then
       (case peek cur of
          Some c \<Rightarrow>
            if c = 0x22 then parse_string cur
            else if c = 0x7B \<or> c = 0x5B then Inl (Invalid ''labels must be a FLAT JSON object'')
            else Inl (Invalid ''labels values must be JSON strings'')
        | None \<Rightarrow> Inl (Invalid ''labels JSON: unexpected end of input'')) (\<lambda>(val, cur).
     let out = out(key \<mapsto> val) in
     case skip_ws cur of
       c # cur \<Rightarrow>
         if c = 0x2C then labels_loop out cur
         else if c = 0x7D then Inr (out, cur)
         else Inl (Invalid ''labels JSON: expected comma or brace'')
     | [] \<Rightarrow> Inl (Invalid ''labels JSON: unexpected end of input''))))"
  by pat_completeness auto

lemma skip_ws_length: "length (skip_ws cur) \<le> length cur"
  by (simp add: skip_ws_def length_dropWhile_le)

lemma expect_length: "expect w cur = Inr r \<Longrightarrow> length cur = Suc (length r)"
  by (auto simp: expect_def split: list.splits if_split_asm)

termination labels_loop
proof (relation "measure (\<lambda>(out, cur). length cur)", goal_cases)
  case (2 out cur x key cur1 cur2 cur3 y val cur4 out2 c cur5)
  have "length cur1 < length cur"
    using parse_string_length [of "skip_ws cur" key cur1] 2 skip_ws_length [of cur] by simp
  moreover have "length cur2 < length cur1"
    using expect_length [of "0x3A" "skip_ws cur1" cur2] 2 skip_ws_length [of cur1] by simp
  moreover have "length cur4 \<le> length cur2"
    using parse_string_length [of cur3 val cur4] 2 skip_ws_length [of cur2]
    by (auto split: option.splits if_split_asm)
  moreover have "length cur5 < length cur4" using 2 skip_ws_length [of cur4] by simp
  ultimately show ?case by simp
qed simp

declare labels_loop.simps [simp del]

definition parse_labels_json :: "str \<Rightarrow> (str \<rightharpoonup> str) res" where
  "parse_labels_json input =
     and_then (expect 0x7B (skip_ws input)) (\<lambda>cur.
     let cur = skip_ws cur in
     and_then
       (if peek cur = Some 0x7D then Inr (Map.empty, tl cur) else labels_loop Map.empty cur) (\<lambda>(out, cur).
     if skip_ws cur \<noteq> [] then Inl (Invalid ''labels JSON: trailing characters after object'')
     else Inr out))"

datatype matcher_spec = MEq str | MNeq str | MRe str | MNre str

definition parse_matcher_object :: "cursor \<Rightarrow> (matcher_spec \<times> cursor) res" where
  "parse_matcher_object cur =
     and_then (parse_string (skip_ws cur)) (\<lambda>(op, cur).
     and_then (expect 0x3A (skip_ws cur)) (\<lambda>cur.
     let cur = skip_ws cur in
     and_then
       (if peek cur = Some 0x22 then parse_string cur
        else Inl (Invalid ''filter: operator value must be a JSON string'')) (\<lambda>(val, cur).
     case skip_ws cur of
       c # cur \<Rightarrow>
         if c \<noteq> 0x7D then Inl (Invalid ''filter: matcher object must hold exactly one operator'')
         else if op = str_lit ''neq'' then Inr (MNeq val, cur)
         else if op = str_lit ''re'' then Inr (MRe val, cur)
         else if op = str_lit ''nre'' then Inr (MNre val, cur)
         else Inl (Invalid ''filter: unknown operator'')
     | [] \<Rightarrow> Inl (Invalid ''filter: matcher object must hold exactly one operator''))))"

definition parse_matcher_value :: "cursor \<Rightarrow> (matcher_spec \<times> cursor) res" where
  "parse_matcher_value cur =
     (case peek cur of
        Some c \<Rightarrow>
          if c = 0x22 then and_then (parse_string cur) (\<lambda>(s, cur). Inr (MEq s, cur))
          else if c = 0x7B then parse_matcher_object (tl cur)
          else Inl (Invalid ''filter values must be strings or matcher objects'')
      | None \<Rightarrow> Inl (Invalid ''filter JSON: unexpected end of input''))"

function matchers_loop :: "(str \<times> matcher_spec) list \<Rightarrow> cursor \<Rightarrow> ((str \<times> matcher_spec) list \<times> cursor) res" where
  "matchers_loop out cur =
     and_then (parse_string (skip_ws cur)) (\<lambda>(key, cur).
     and_then (expect 0x3A (skip_ws cur)) (\<lambda>cur.
     and_then (parse_matcher_value (skip_ws cur)) (\<lambda>(spec, cur).
     let out = out @ [(key, spec)] in
     case skip_ws cur of
       c # cur \<Rightarrow>
         if c = 0x2C then matchers_loop out cur
         else if c = 0x7D then Inr (out, cur)
         else Inl (Invalid ''filter JSON: expected comma or brace'')
     | [] \<Rightarrow> Inl (Invalid ''filter JSON: unexpected end of input''))))"
  by pat_completeness auto

lemma parse_matcher_object_length: "parse_matcher_object cur = Inr (m, r) \<Longrightarrow> length r < length cur"
proof -
  assume a: "parse_matcher_object cur = Inr (m, r)"
  then obtain op cur1 cur2 val cur3 where
    p: "parse_string (skip_ws cur) = Inr (op, cur1)" "expect 0x3A (skip_ws cur1) = Inr cur2"
       "parse_string (skip_ws cur2) = Inr (val, cur3)"
    by (auto simp: parse_matcher_object_def Let_def split: if_split_asm)
  with a have "\<exists>c. skip_ws cur3 = c # r"
    by (cases "skip_ws cur3") (auto simp: parse_matcher_object_def Let_def split: if_split_asm)
  then show ?thesis
    using parse_string_length [OF p(1)] expect_length [OF p(2)] parse_string_length [OF p(3)]
      skip_ws_length [of cur] skip_ws_length [of cur1] skip_ws_length [of cur2] skip_ws_length [of cur3]
    by auto
qed

lemma parse_matcher_value_length: "parse_matcher_value cur = Inr (m, r) \<Longrightarrow> length r < length cur"
  by (cases cur) (auto simp: parse_matcher_value_def peek_def split: if_split_asm
      dest!: parse_string_length parse_matcher_object_length)

termination matchers_loop
proof (relation "measure (\<lambda>(out, cur). length cur)", goal_cases)
  case (2 out cur x key cur1 cur2 y m cur4 out2 c cur5)
  have "length cur1 < length cur"
    using parse_string_length [of "skip_ws cur" key cur1] 2 skip_ws_length [of cur] by simp
  moreover have "length cur2 < length cur1"
    using expect_length [of "0x3A" "skip_ws cur1" cur2] 2 skip_ws_length [of cur1] by simp
  moreover have "length cur4 \<le> length cur2"
    using parse_matcher_value_length [of "skip_ws cur2" m cur4] 2 skip_ws_length [of cur2] by simp
  moreover have "length cur5 < length cur4" using 2 skip_ws_length [of cur4] by simp
  ultimately show ?case by simp
qed simp

declare matchers_loop.simps [simp del]

definition parse_matchers_json :: "str \<Rightarrow> (str \<times> matcher_spec) list res" where
  "parse_matchers_json input =
     and_then (expect 0x7B (skip_ws input)) (\<lambda>cur.
     let cur = skip_ws cur in
     and_then
       (if peek cur = Some 0x7D then Inr ([], tl cur) else matchers_loop [] cur) (\<lambda>(out, cur).
     if skip_ws cur \<noteq> [] then Inl (Invalid ''filter JSON: trailing characters after object'')
     else Inr out))"

subsection \<open>Printing and parsing back\<close>

text \<open>Escaping acts byte by byte: a multi-byte character has no byte that needs an escape.\<close>

definition esc_byte :: "byte \<Rightarrow> bytes" where
  "esc_byte b = json_escape_char [b]"

definition json_escape :: "str \<Rightarrow> bytes" where
  "json_escape s = concat (map json_escape_char (chars s))"

lemma json_escape_into_eq: "json_escape_into out s = out @ json_escape s"
proof -
  have "fold (\<lambda>c out. out @ json_escape_char c) cs out = out @ concat (map json_escape_char cs)" for cs out
    by (induction cs arbitrary: out) auto
  then show ?thesis by (simp add: json_escape_into_def json_escape_def)
qed

lemma esc_byte_high: "0x80 \<le> b \<Longrightarrow> esc_byte b = [b]"
  by (auto simp: esc_byte_def json_escape_char_def word_le_nat_alt word_less_nat_alt)

lemma json_escape_bytewise: "valid_utf8 s \<Longrightarrow> json_escape s = concat (map esc_byte s)"
  unfolding json_escape_def
  by (rule chars_bytewise) (auto simp: esc_byte_def esc_byte_high [unfolded esc_byte_def], auto simp: json_escape_char_def)

text \<open>The bytes printed as they are.\<close>

definition plain :: "byte \<Rightarrow> bool" where
  "plain b \<longleftrightarrow> b \<noteq> 0x22 \<and> b \<noteq> 0x5C \<and> 0x20 \<le> b"

lemma esc_byte_plain: "plain b \<Longrightarrow> esc_byte b = [b]"
  by (auto simp: plain_def esc_byte_def json_escape_char_def)

lemma esc_byte_special: "\<not> plain b \<Longrightarrow> b < 0x80 \<and> (\<exists>r. esc_byte b = 0x5C # r)"
  by (auto simp: plain_def esc_byte_def json_escape_char_def not_le word_less_nat_alt)

lemma plain_no_delim: "plain b \<Longrightarrow> b \<noteq> 0x22 \<and> b \<noteq> 0x5C"
  by (simp add: plain_def)

lemma string_run_escaped:
  assumes "r = [] \<or> hd r = 0x22"
  shows "string_run (concat (map esc_byte s) @ r) = takeWhile plain s"
    and "after_run (concat (map esc_byte s) @ r) = concat (map esc_byte (dropWhile plain s)) @ r"
proof -
  have "string_run (concat (map esc_byte s) @ r) = takeWhile plain s \<and>
      after_run (concat (map esc_byte s) @ r) = concat (map esc_byte (dropWhile plain s)) @ r"
  proof (induction s)
    case Nil
    then show ?case using assms by (cases r) (auto simp: string_run_def after_run_def)
  next
    case (Cons b s)
    then show ?case
      using esc_byte_plain [of b] esc_byte_special [of b] plain_no_delim [of b]
      by (cases "plain b") (auto simp: string_run_def after_run_def)
  qed
  then show "string_run (concat (map esc_byte s) @ r) = takeWhile plain s"
    and "after_run (concat (map esc_byte s) @ r) = concat (map esc_byte (dropWhile plain s)) @ r"
    by blast+
qed

lemma to_digit_hex_digit: "k < 16 \<Longrightarrow> to_digit_16 (hex_digit k) = Some k"
proof (cases "k < 10")
  case True
  define c :: byte where "c = of_nat (48 + k)"
  have u: "unat c = 48 + k" using True unfolding c_def by (intro unat_byte_of_nat) simp
  have "hex_digit k = c" using True by (simp only: hex_digit_def c_def if_True)
  then show ?thesis using True by (simp add: to_digit_16_def word_le_nat_alt u)
next
  case False
  assume "k < 16"
  define c :: byte where "c = of_nat (87 + k)"
  have u: "unat c = 87 + k" using \<open>k < 16\<close> unfolding c_def by (intro unat_byte_of_nat) simp
  have "hex_digit k = c" using False by (simp only: hex_digit_def c_def if_False)
  then show ?thesis using False \<open>k < 16\<close> by (simp add: to_digit_16_def word_le_nat_alt u)
qed

lemma hex4_roundtrip:
  assumes "n < 256"
  shows "json_hex 4 0 (hex4 n @ r) = Inr (n, r)"
proof -
  have "n div 4096 = 0" "n div 256 = 0" "n div 16 < 16" using assms by auto
  then have "hex4 n = [hex_digit 0, hex_digit 0, hex_digit (n div 16), hex_digit (n mod 16)]"
    by (simp add: hex4_def)
  moreover have "json_hex (Suc (Suc (Suc (Suc 0)))) 0
      ([hex_digit 0, hex_digit 0, hex_digit (n div 16), hex_digit (n mod 16)] @ r) = Inr (n, r)"
    using \<open>n div 16 < 16\<close> by (simp add: to_digit_hex_digit)
  moreover have "(4 :: nat) = Suc (Suc (Suc (Suc 0)))" by simp
  ultimately show ?thesis by argo
qed

lemma json_unescape_special:
  assumes "\<not> plain b"
  shows "json_unescape out (esc_byte b @ r) = json_unescape (out @ [b]) r"
proof -
  have hex: "json_unescape out (0x5C # 0x75 # hex4 (unat b) @ r) = json_unescape (out @ [b]) r"
    if "b < 0x20"
  proof -
    have "unat b < 32" using that by (simp add: word_less_nat_alt)
    then show ?thesis
      by (subst json_unescape.simps)
        (simp add: simple_escape_def hex4_roundtrip char_from_u32_def)
  qed
  show ?thesis
  proof (cases "b \<in> {0x22, 0x5C, 0x0A, 0x0D, 0x09}")
    case True
    then show ?thesis
      by (auto simp: esc_byte_def json_escape_char_def json_unescape.simps(2) [of _ "0x5C"]
          simple_escape_def)
  next
    case False
    with assms have "b < 0x20" by (auto simp: plain_def)
    moreover from False this have "esc_byte b = 0x5C # 0x75 # hex4 (unat b)"
      by (simp add: esc_byte_def json_escape_char_def)
    ultimately show ?thesis using hex by simp
  qed
qed

text \<open>An ASCII byte ends a character, so what precedes it is valid on its own.\<close>

lemma valid_utf8_before_ascii:
  "valid_utf8 (xs @ b # ys) \<Longrightarrow> b < 0x80 \<Longrightarrow> valid_utf8 xs"
proof (induction "length xs" arbitrary: xs rule: less_induct)
  case less
  show ?case
  proof (cases "xs = []")
    case False
    obtain k where k: "utf8_width (xs @ b # ys) = Some k" "0 < k" "valid_utf8 (drop k (xs @ b # ys))"
      using less.prems(1) valid_utf8_widthE by blast
    have kl: "k \<le> length xs"
    proof (rule ccontr)
      assume "\<not> k \<le> length xs"
      then have "b \<in> set (take k (xs @ b # ys))" by (auto simp: take_Cons')
      moreover have "k \<noteq> 1" using False \<open>\<not> k \<le> length xs\<close> by (cases xs) auto
      ultimately have "0x80 \<le> b" using utf8_width_bytes [OF k(1)] by blast
      with less.prems(2) show False by simp
    qed
    then have "utf8_width (take k xs) = Some k" using utf8_width_take [OF k(1)] by simp
    from utf8_width_append [OF this, of "drop k xs"] have w: "utf8_width xs = Some k" by simp
    have "valid_utf8 (drop k xs @ b # ys)" using k(3) kl by simp
    then have "valid_utf8 (drop k xs)" using less.hyps [of "drop k xs"] k(2) kl less.prems(2) by simp
    then show ?thesis using w by (simp add: valid_utf8_width)
  qed simp
qed

lemma takeWhile_plain_valid:
  assumes "valid_utf8 s"
  shows "valid_utf8 (takeWhile plain s) \<and> valid_utf8 (dropWhile plain s)"
proof (cases "dropWhile plain s")
  case Nil
  then have "takeWhile plain s = s" by (metis append_Nil2 takeWhile_dropWhile_id)
  with assms Nil show ?thesis by (metis valid_utf8_Nil)
next
  case (Cons b ys)
  then have "\<not> plain b" by (metis dropWhile_eq_Cons_conv)
  moreover have s: "s = takeWhile plain s @ b # ys" using Cons by (metis takeWhile_dropWhile_id)
  ultimately have "valid_utf8 (takeWhile plain s)"
    using valid_utf8_before_ascii [of "takeWhile plain s" b ys] esc_byte_special [of b] assms by simp
  then show ?thesis using s assms Cons valid_utf8_append by metis
qed

lemma json_unescape_escaped:
  "valid_utf8 s \<Longrightarrow> json_unescape out (concat (map esc_byte s) @ 0x22 # r) = Inr (out @ s, r)"
proof (induction "length s" arbitrary: out s rule: less_induct)
  case less
  show ?case
  proof (cases s)
    case Nil
    then show ?thesis by (simp add: json_unescape.simps(2))
  next
    case (Cons b s')
    let ?cur = "concat (map esc_byte s) @ 0x22 # r"
    show ?thesis
    proof (cases "plain b")
      case True
      let ?run = "takeWhile plain s" and ?more = "dropWhile plain s"
      have cur: "?cur = b # concat (map esc_byte s') @ 0x22 # r"
        using Cons True by (simp add: esc_byte_plain)
      have "json_unescape out ?cur = json_unescape (out @ ?run) (concat (map esc_byte ?more) @ 0x22 # r)"
        using string_run_escaped [of "0x22 # r" s] takeWhile_plain_valid [OF less.prems] plain_no_delim [OF True]
        unfolding cur by (subst json_unescape.simps) (simp add: from_utf8_def)
      also have "\<dots> = Inr ((out @ ?run) @ ?more, r)"
        using takeWhile_plain_valid [OF less.prems] Cons True length_dropWhile_le [of plain s']
        by (intro less.hyps) auto
      finally show ?thesis by simp
    next
      case False
      then have "valid_utf8 s'" using less.prems Cons esc_byte_special [OF False] by simp
      then have "json_unescape (out @ [b]) (concat (map esc_byte s') @ 0x22 # r) = Inr ((out @ [b]) @ s', r)"
        using Cons by (intro less.hyps) auto
      then show ?thesis using Cons json_unescape_special [OF False] by simp
    qed
  qed
qed

lemma parse_string_escaped:
  assumes "valid_utf8 s"
  shows "parse_string (0x22 # json_escape s @ 0x22 # r) = Inr (s, r)"
proof -
  let ?cur = "concat (map esc_byte s) @ 0x22 # r"
  note run = string_run_escaped [of "0x22 # r" s]
  note v = takeWhile_plain_valid [OF assms]
  show ?thesis
  proof (cases "dropWhile plain s")
    case Nil
    then have "takeWhile plain s = s" by (metis append_Nil2 takeWhile_dropWhile_id)
    then have "string_run ?cur = s" "after_run ?cur = 0x22 # r" using run Nil by simp_all
    then show ?thesis using assms
      by (simp add: parse_string_def expect_def json_escape_bytewise [OF assms] from_utf8_def)
  next
    case (Cons b ys)
    then have "\<not> plain b" by (metis dropWhile_eq_Cons_conv)
    then obtain e where e: "esc_byte b = 0x5C # e" using esc_byte_special by blast
    have "json_unescape (takeWhile plain s) (concat (map esc_byte (dropWhile plain s)) @ 0x22 # r) =
        Inr (takeWhile plain s @ dropWhile plain s, r)"
      using v by (intro json_unescape_escaped) simp
    then show ?thesis using run v e Cons
      by (simp add: parse_string_def expect_def json_escape_bytewise [OF assms] from_utf8_def)
        (metis Cons takeWhile_dropWhile_id)
  qed
qed

definition pair_json :: "str \<times> str \<Rightarrow> bytes" where
  "pair_json p = 0x22 # json_escape (fst p) @ 0x22 # 0x3A # 0x22 # json_escape (snd p) @ [0x22]"

lemma pairs_to_json_iter_append: "pairs_to_json_iter first out ps = out @ pairs_to_json_iter first [] ps"
proof (induction ps arbitrary: first out)
  case (Cons p ps)
  obtain k v where p: "p = (k, v)" by (cases p)
  show ?case
    unfolding p pairs_to_json_iter.simps Let_def json_escape_into_eq
    by (subst (1 2) Cons.IH) simp
qed simp

lemma pairs_to_json_iter_Cons:
  "pairs_to_json_iter first [] (p # ps) =
     (if first then [] else [0x2C]) @ pair_json p @ pairs_to_json_iter False [] ps"
proof -
  obtain k v where p: "p = (k, v)" by (cases p)
  show ?thesis
    unfolding p pairs_to_json_iter.simps Let_def json_escape_into_eq
    by (subst pairs_to_json_iter_append) (simp add: pair_json_def)
qed

lemma skip_ws_Cons [simp]: "c \<notin> {0x20, 0x09, 0x0A, 0x0D} \<Longrightarrow> skip_ws (c # r) = c # r"
  by (simp add: skip_ws_def)

lemma skip_ws_Nil [simp]: "skip_ws [] = []"
  by (simp add: skip_ws_def)

lemma labels_loop_pairs:
  assumes "\<forall>(k, v) \<in> set (p # ps). valid_utf8 k \<and> valid_utf8 v"
  shows "labels_loop out (pair_json p @ pairs_to_json_iter False [] ps) =
     Inr (foldl (\<lambda>m (k, v). m(k \<mapsto> v)) out (p # ps), [])"
  using assms
proof (induction ps arbitrary: p out)
  case Nil
  obtain k v where "p = (k, v)" by (cases p)
  with Nil show ?case
    by (subst labels_loop.simps)
      (simp add: pair_json_def parse_string_escaped expect_def peek_def)
next
  case (Cons q ps)
  obtain k v where p: "p = (k, v)" by (cases p)
  have "labels_loop (out(k \<mapsto> v)) (pair_json q @ pairs_to_json_iter False [] ps) =
      Inr (foldl (\<lambda>m (k, v). m(k \<mapsto> v)) (out(k \<mapsto> v)) (q # ps), [])"
    using Cons.prems by (intro Cons.IH) simp
  with p Cons.prems show ?case
    by (subst labels_loop.simps)
      (simp add: pair_json_def [of "(k, v)"] parse_string_escaped expect_def peek_def pairs_to_json_iter_Cons)
qed

lemma foldl_upd_map_of:
  "distinct (map fst ps) \<Longrightarrow> foldl (\<lambda>m (k, v). m(k \<mapsto> v)) out ps = out ++ map_of ps"
proof (induction ps arbitrary: out)
  case (Cons p ps)
  obtain k v where p: "p = (k, v)" by (cases p)
  with Cons.prems have "k \<notin> dom (map_of ps)" by (simp add: dom_map_of_conv_image_fst)
  then have "out(k \<mapsto> v) ++ map_of ps = out ++ (map_of ps)(k \<mapsto> v)"
    by (auto simp: map_add_def fun_eq_iff split: option.splits)
  moreover have "foldl (\<lambda>m (k, v). m(k \<mapsto> v)) (out(k \<mapsto> v)) ps = out(k \<mapsto> v) ++ map_of ps"
    using Cons.prems p by (intro Cons.IH) simp
  ultimately show ?case by (simp only: p foldl_Cons prod.case map_of.simps fst_conv snd_conv)
qed simp

lemma parse_labels_pairs_to_json:
  assumes "distinct (map fst ps)" "\<forall>(k, v) \<in> set ps. valid_utf8 k \<and> valid_utf8 v"
  shows "parse_labels_json (pairs_to_json ps) = Inr (map_of ps)"
proof (cases ps)
  case Nil
  then show ?thesis by (simp add: parse_labels_json_def pairs_to_json_def expect_def peek_def)
next
  case (Cons p ps')
  let ?body = "pair_json p @ pairs_to_json_iter False [] ps'"
  have json: "pairs_to_json ps = 0x7B # ?body"
    unfolding pairs_to_json_def Cons by (subst pairs_to_json_iter_append) (simp add: pairs_to_json_iter_Cons)
  have ws: "skip_ws ?body = ?body" "peek ?body \<noteq> Some 0x7D"
    by (simp_all add: pair_json_def peek_def)
  have "labels_loop Map.empty ?body = Inr (map_of ps, [])"
    using labels_loop_pairs [of p ps' Map.empty] foldl_upd_map_of [OF assms(1), of Map.empty] assms(2) Cons by simp
  then show ?thesis using ws by (simp add: parse_labels_json_def json expect_def)
qed

text \<open>The length of the printed object is what the engine accounts for.\<close>

lemma length_json_escape: "length (json_escape s) = json_escaped_bytes s"
proof -
  have "length (json_escape_char c) = char_escaped_bytes c" for c
    by (auto simp: json_escape_char_def char_escaped_bytes_def hex4_def)
  then show ?thesis by (simp add: json_escape_def json_escaped_bytes_def length_concat comp_def)
qed

lemma length_pairs_to_json: "length (pairs_to_json ps) = flat_json_bytes ps"
proof -
  have iter: "length (pairs_to_json_iter first [] ps) =
      1 + (if first then length ps - 1 else length ps) +
      sum_list (map (\<lambda>(k, v). 5 + json_escaped_bytes k + json_escaped_bytes v) ps)" for first
    by (induction ps arbitrary: first)
      (auto simp: pairs_to_json_iter_Cons pair_json_def length_json_escape)
  have "length (pairs_to_json ps) = 1 + length (pairs_to_json_iter True [] ps)"
    unfolding pairs_to_json_def by (subst pairs_to_json_iter_append) simp
  then show ?thesis using iter [of True] by (simp add: flat_json_bytes_def)
qed

end
