(* ===== verification/CodecFacts.thy ===== *)
theory CodecFacts
  imports StoredLib PairsColumn FlatJson
begin

section \<open>What the column codecs promise\<close>

text \<open>
  The properties of the typed columns (\<open>crates/timeless-codec\<close>), the metadata column and the flat
  JSON objects, each with a witness on concrete data.
\<close>

subsection \<open>Typed columns\<close>

text \<open>
  C25. A column of 64-bit integers decodes to exactly the values that were encoded, for every value
  including the extremes (deltas wrap around), whichever of delta+pco and delta+zstd the encoder
  chose. The values are those of any Rust vector: they take at most \<open>isize::MAX\<close> bytes.
\<close>

theorem i64_column_roundtrip:
  assumes "codec_lib_ok lib" "8 * length vs \<le> ISIZE_MAX"
    and "and_then (encode_i64 lib vs level) to_bytes = Inr b"
  shows "decode_i64 lib b (length vs) = Inr vs"
  using i64c.framed_roundtrip [OF assms(1) _ assms(3) refl] assms(2) by (simp add: words_fit_def)

theorem i64_column_roundtrip_witness:
  "\<exists>b. and_then (encode_i64 stored_lib [I64_MAX, I64_MIN] 7) to_bytes = Inr b \<and>
     decode_i64 stored_lib b 2 = Inr [I64_MAX, I64_MIN]"
proof -
  obtain c where "encode_i64 stored_lib [I64_MAX, I64_MIN] 7 = Inr c" "length (ce_payload c) = 16"
    using stored_encode_i64 [of "[I64_MAX, I64_MIN]" 7] by auto
  then obtain b where b: "and_then (encode_i64 stored_lib [I64_MAX, I64_MIN] 7) to_bytes = Inr b"
    by (auto simp: machine_limits)
  with i64_column_roundtrip [OF stored_lib_ok _ b] show ?thesis
    by (auto simp: machine_limits numeral_2_eq_2 simp del: to_bytes_Inr)
qed

text \<open>
  C26. A column of floats decodes to exactly the bit patterns that were encoded, NaN payloads
  included. The values are those of any Rust vector: they take at most \<open>isize::MAX\<close> bytes.
\<close>

theorem f64_column_roundtrip:
  assumes "codec_lib_ok lib" "8 * length vs \<le> ISIZE_MAX"
    and "and_then (encode_f64 lib vs level) to_bytes = Inr b"
  shows "decode_f64 lib b (length vs) = Inr vs"
  using f64c.framed_roundtrip [OF assms(1) _ assms(3) refl] assms(2) by (simp add: words_fit_def)

theorem f64_column_roundtrip_witness:
  "\<exists>b. and_then (encode_f64 stored_lib [0x7FF8000000000001] 7) to_bytes = Inr b \<and>
     decode_f64 stored_lib b 1 = Inr [0x7FF8000000000001]"
proof -
  obtain c where "encode_f64 stored_lib [0x7FF8000000000001] 7 = Inr c" "length (ce_payload c) = 8"
    using stored_encode_f64 [of "[0x7FF8000000000001]" 7] by auto
  then obtain b where b: "and_then (encode_f64 stored_lib [0x7FF8000000000001] 7) to_bytes = Inr b"
    by (auto simp: machine_limits)
  with f64_column_roundtrip [OF stored_lib_ok _ b] show ?thesis
    by (auto simp: machine_limits simp del: to_bytes_Inr)
qed

text \<open>
  C27. A column of bytes decodes to exactly the bytes that were encoded, run-length encoded or not.
\<close>

theorem u8_column_roundtrip:
  assumes "codec_lib_ok lib" "and_then (encode_u8 lib vs level) to_bytes = Inr b"
  shows "decode_u8 lib b (length vs) = Inr vs"
  using u8c.framed_roundtrip [OF assms(1) _ assms(2) refl] by simp

theorem u8_column_roundtrip_witness:
  "\<exists>b. and_then (encode_u8 stored_lib [1, 1, 1, 1, 1, 1] 7) to_bytes = Inr b \<and>
     decode_u8 stored_lib b 6 = Inr [1, 1, 1, 1, 1, 1]"
proof -
  let ?c = "column ENC_U8_RLE (u8_pair (6, 1))"
  have "encode_u8 stored_lib [1, 1, 1, 1, 1, 1] 7 = Inr ?c"
    by (simp add: encode_u8_def Let_def U32_MAX_def u8_pair_def)
  then obtain b where b: "and_then (encode_u8 stored_lib [1, 1, 1, 1, 1, 1] 7) to_bytes = Inr b"
    by (auto simp: machine_limits)
  with u8_column_roundtrip [OF stored_lib_ok b] show ?thesis
    by (auto simp: numeral_eq_Suc simp del: to_bytes_Inr)
qed

text \<open>
  C28. A column of valid UTF-8 strings decodes to exactly its strings when the strings with their
  length prefixes, and the eight bytes per row of the code stream, stay within the decoder's
  decompression limit of 64 MiB. The encoding id, the first byte of the column, is that of the
  dictionary with run-length encoded codes (5) when at most one in eight of the first 65,536 strings
  is distinct, and that of concatenated strings (6) otherwise.
\<close>

theorem str_column_roundtrip:
  assumes "codec_lib_ok lib" "strs_fit ss"
    and "and_then (encode_str lib ss (length ss) level) to_bytes = Inr b"
  shows "decode_str lib b (length ss) = Inr ss \<and> hd b = (if dict_worthy ss then 5 else 6)"
proof
  show "decode_str lib b (length ss) = Inr ss" by (rule strc.framed_roundtrip [OF assms refl])
  from assms(3) obtain c where "encode_str lib ss (length ss) level = Inr c" "to_bytes c = Inr b"
    by (auto simp del: to_bytes_Inr)
  then show "hd b = (if dict_worthy ss then 5 else 6)"
    using encode_str_choice [of lib ss level c] by (auto simp del: if_split)
qed

lemma stored_encode_str_one:
  "encode_str stored_lib [s] 1 level =
     (if length s > U32_MAX then Inl (ExceedsU32 ''encode_str: string'' (length s))
      else Inr (column ENC_STR_ZSTD (str_rec s)))"
  by (simp add: encode_str_def Let_def len_prefixed_all_def len_prefixed_def str_rec_def SAMPLE_LEN_def
      DICT_MAX_RATIO_DEN_def DICT_MAX_RATIO_NUM_def)

theorem str_column_roundtrip_witness:
  "\<exists>b. and_then (encode_str stored_lib [str_lit ''GET''] 1 7) to_bytes = Inr b \<and>
     decode_str stored_lib b 1 = Inr [str_lit ''GET''] \<and> hd b = 6"
proof -
  have fit: "strs_fit [str_lit ''GET'']"
    by (simp add: strs_fit_def str_lit_def DECOMPRESS_MAX_BYTES_def of_char_def)
  obtain b where b: "and_then (encode_str stored_lib [str_lit ''GET''] 1 7) to_bytes = Inr b"
    using stored_encode_str_one [of "str_lit ''GET''" 7] by (auto simp: str_lit_def machine_limits str_rec_def)
  with str_column_roundtrip [OF stored_lib_ok fit, of 7 b] show ?thesis
    by (auto simp: dict_worthy_def simp del: to_bytes_Inr)
qed

text \<open>
  C29. For a strictly increasing selection of row numbers below \<open>n\<close>, where \<open>n\<close> is at most the 1,048,576
  rows of a block, decoding only the selected rows of a string column succeeds exactly when decoding
  all \<open>n\<close> rows does, and yields those rows.
\<close>

theorem selected_rows_are_rows:
  assumes "codec_lib_ok lib" "selection n sel" "n \<le> MAX_BLOCK_ENTRIES"
  shows "decode_str_selected lib b n sel = Inr out \<longleftrightarrow>
     (\<exists>ss. decode_str lib b n = Inr ss \<and> out = map (\<lambda>j. ss ! j) sel)"
  using assms by (intro decode_str_selected_eq) (simp_all add: MAX_BLOCK_ENTRIES_def DECOMPRESS_MAX_BYTES_def)

theorem selected_rows_are_rows_witness:
  "\<exists>b. and_then (encode_str stored_lib [str_lit ''GET'', str_lit ''PUT''] 2 7) to_bytes = Inr b \<and>
     decode_str_selected stored_lib b 2 [1] = Inr [str_lit ''PUT'']"
proof -
  let ?ss = "[str_lit ''GET'', str_lit ''PUT'']"
  have fit: "strs_fit ?ss"
    by (simp add: strs_fit_def str_lit_def DECOMPRESS_MAX_BYTES_def of_char_def)
  obtain b where b: "and_then (encode_str stored_lib ?ss (length ?ss) 7) to_bytes = Inr b"
    using stored_str_column [of ?ss 7] by (auto simp: str_lit_def U32_MAX_def simp del: to_bytes_Inr)
  have "decode_str stored_lib b 2 = Inr ?ss"
    using strc.framed_roundtrip [OF stored_lib_ok fit b refl] by (simp add: numeral_2_eq_2)
  then have "decode_str_selected stored_lib b 2 [1] = Inr [str_lit ''PUT'']"
    using selected_rows_are_rows [OF stored_lib_ok, of 2 "[1]" b "[str_lit ''PUT'']"]
    by (simp add: selection_def MAX_BLOCK_ENTRIES_def)
  with b show ?thesis by (auto simp: numeral_2_eq_2 simp del: to_bytes_Inr)
qed

text \<open>
  C30. No bytes make a column decoder panic, for every expected count \<open>n\<close> whose values of eight bytes
  fit the largest allocation (\<open>8 * n\<close> at most \<open>isize::MAX\<close>): the slices of the reader, the indexing
  of bitmaps and dictionaries and the array conversions are all guarded by the length checks before
  them, and the buffer of the numeric decoders can be allocated. Beyond that count the bound is
  needed: the decoder of pco columns asks for the buffer and panics.
\<close>

theorem column_decoders_never_panic:
  assumes "8 * n \<le> ISIZE_MAX"
  shows "\<not> is_panic (decode_i64 lib b n) \<and> \<not> is_panic (decode_f64 lib b n) \<and> \<not> is_panic (decode_u8 lib b n) \<and>
   \<not> is_panic (decode_str lib b n) \<and> \<not> is_panic (decode_str_selected lib b n sel) \<and> \<not> is_panic (decode_bitmap b n)"
  using assms
  by (simp add: decode_i64_no_panic decode_f64_no_panic decode_u8_no_panic decode_str_no_panic
      decode_str_selected_no_panic mult.commute)

theorem column_decoders_never_panic_witness:
  "8 * (9 :: nat) \<le> ISIZE_MAX \<and> \<not> is_panic (decode_i64 stored_lib [1, 2, 0, 0, 0, 7] 9) \<and>
   \<not> is_panic (decode_str stored_lib [5, 2, 0, 0, 0, 7] 9) \<and> \<not> is_panic (decode_bitmap [255] 9)"
  using column_decoders_never_panic [of 9 stored_lib "[1, 2, 0, 0, 0, 7]"]
    column_decoders_never_panic [of 9 stored_lib "[5, 2, 0, 0, 0, 7]"]
    column_decoders_never_panic [of 9 stored_lib "[255]"]
  by (simp add: machine_limits)

text \<open>
  C31. A presence bitmap is canonical: what the decoder accepts is exactly what the encoder writes for
  the bits it yields.
\<close>

theorem bitmap_canonical: "decode_bitmap bs (length bits) = Inr bits \<longleftrightarrow> bs = encode_bitmap bits"
  using encode_decode_bitmap [of bs "length bits" bits] decode_encode_bitmap [of bits] by auto

text \<open>
  C32. The string encoder does not check the decoder's limit. A column whose strings with their length
  prefixes take more than 64 MiB, and whose sample is too varied for the dictionary, is encoded and
  framed without error as concatenated strings, as soon as the compressor succeeds with at most
  \<open>u32::MAX\<close> bytes (each string being shorter than \<open>u32::MAX\<close>); its bytes never decode, whatever
  count is expected. Dictionary columns are not concerned: their limit is on the distinct strings.
\<close>

theorem oversized_column_is_write_only:
  assumes "codec_lib_ok lib" "ss \<noteq> []" "\<not> dict_worthy ss" "\<forall>s \<in> set ss. length s \<le> U32_MAX"
    and "zstd_bulk_compress lib (concat (map str_rec ss)) level = Some z" "length z \<le> U32_MAX"
    and "DECOMPRESS_MAX_BYTES < strs_size ss"
  shows "\<exists>b. and_then (encode_str lib ss (length ss) level) to_bytes = Inr b \<and>
     (\<forall>n. decode_str lib b n = Inl (DecompressFailed ''string column''))"
proof -
  have e: "encode_str lib ss (length ss) level = Inr (column ENC_STR_ZSTD z)"
    by (rule encode_str_concat [OF assms(2-5)])
  obtain b where b: "to_bytes (column ENC_STR_ZSTD z) = Inr b" using assms(6) by auto
  have "zstd_decompress_capped lib z ''string column'' DECOMPRESS_MAX_BYTES = Inl (DecompressFailed ''string column'')"
    using zstd_over_cap [OF assms(1,5)] assms(7) by (metis length_concat_str_rec)
  then have "decode_str lib b n = Inl (DecompressFailed ''string column'')" for n
    using read_column_frame_to_bytes [OF b, of "''string column''"] by (simp add: decode_str_def)
  with e b show ?thesis by (auto simp del: to_bytes_Inr)
qed

theorem oversized_column_is_write_only_witness:
  "\<exists>b. and_then (encode_str stored_lib [replicate DECOMPRESS_MAX_BYTES 0x61] 1 7) to_bytes = Inr b \<and>
     (\<forall>n. decode_str stored_lib b n = Inl (DecompressFailed ''string column''))"
  using oversized_column_is_write_only [OF stored_lib_ok, of "[replicate DECOMPRESS_MAX_BYTES 0x61]" 7]
  by (simp add: dict_worthy_def DECOMPRESS_MAX_BYTES_def machine_limits del: to_bytes_Inr)

subsection \<open>Metadata and flat JSON\<close>

text \<open>
  C33. The metadata of a block's entries survives the metadata column, shredded into one column per key
  or serialized as a whole: every list of pairs comes back, order and duplicates included. This holds
  for at most 1,048,576 entries whose keys and values are valid UTF-8 and whose serialized metadata
  takes at most 64 MiB, the limits of the decoders.
\<close>

theorem metadata_column_roundtrip:
  assumes "codec_lib_ok lib" "serialize_metadata es = Inr raw" "length raw \<le> DECOMPRESS_MAX_BYTES"
    and "length es \<le> MAX_BLOCK_ENTRIES" "\<forall>e \<in> set es. pairs_utf8 (le_metadata e)"
    and "encode_pairs_column lib (map le_metadata es) raw level = Inr b" "length b \<le> USIZE_MAX"
  shows "decode_pairs_column lib b (length es) parse_metadata = Inr (map le_metadata es)"
proof -
  obtain bs where bs: "collect_r serialize_pairs (map le_metadata es) = Inr bs" "raw = concat bs"
    using assms(2) by (auto simp: serialize_metadata_def collect_r_comp)
  have "parse_metadata (concat bs) (length (map le_metadata es)) = Inr (map le_metadata es)"
    using assms bs by (intro parse_serialized) (auto simp: DECOMPRESS_MAX_BYTES_def USIZE_MAX_def)
  from decode_encode_pairs_column [of lib "map le_metadata es" bs level b parse_metadata] this assms bs
  show ?thesis by simp
qed

theorem metadata_column_roundtrip_witness:
  "\<exists>(e :: log_entry) b. le_metadata e = [(str_lit ''host'', str_lit ''a'')] \<and>
     encode_pairs_column stored_lib [le_metadata e] (md_rec (le_metadata e)) 7 = Inr b \<and>
     decode_pairs_column stored_lib b 1 parse_metadata = Inr [le_metadata e]"
proof -
  let ?m = "[(str_lit ''host'', str_lit ''a'')]"
  define e where "e = \<lparr>le_ts = I64 0, le_level = 1, le_severity = None,
    le_message = [], le_metadata = ?m, le_metadata_json = None\<rparr>"
  have m: "le_metadata e = ?m" by (simp add: e_def)
  obtain b where b: "encode_pairs_column stored_lib [?m] (md_rec ?m) 7 = Inr b" "length b \<le> USIZE_MAX"
    using stored_encode_str_one [of "str_lit ''a''" 7]
    by (auto simp: encode_pairs_column_def key_column_def key_present_def key_dense_def canonical_pairs_iff
        bt_wf_def key_bytes_def btree_set_def str_lit_def machine_limits SHRED_MAX_KEYS_def to_bytes_def Let_def
        binary_search_def bsearch_loop.simps bitmap_len_def)
  have ser: "serialize_metadata [e] = Inr (md_rec ?m)"
    by (simp add: serialize_metadata_def m md_rec_def pair_rec_def machine_limits str_lit_def)
  have utf8: "pairs_utf8 ?m" by (simp add: pairs_utf8_def str_lit_def is_ascii_valid is_ascii_def)
  have "decode_pairs_column stored_lib b (length [e]) parse_metadata = Inr (map le_metadata [e])"
    by (rule metadata_column_roundtrip [OF stored_lib_ok ser])
      (use b m utf8 in \<open>simp_all add: MAX_BLOCK_ENTRIES_def DECOMPRESS_MAX_BYTES_def md_rec_def str_lit_def\<close>)
  with b m show ?thesis by auto
qed

text \<open>
  C34. Label sets survive their JSON form: parsing what the printer writes for pairs with distinct keys
  gives the map of those pairs, whatever characters need escaping.
\<close>

theorem labels_json_roundtrip:
  assumes "distinct (map fst ps)" "\<forall>(k, v) \<in> set ps. valid_utf8 k \<and> valid_utf8 v"
  shows "parse_labels_json (pairs_to_json ps) = Inr (map_of ps)"
  by (rule parse_labels_pairs_to_json [OF assms])

theorem labels_json_roundtrip_witness:
  "parse_labels_json (pairs_to_json [([0x68], [0x22, 0x0A])]) = Inr [[0x68] \<mapsto> [0x22, 0x0A]]"
  using labels_json_roundtrip [of "[([0x68], [0x22, 0x0A])]"] by (simp add: is_ascii_valid is_ascii_def)

text \<open>
  C35. The arithmetic estimate of a flat object's size is exact: it is the length of the JSON the
  printer writes.
\<close>

theorem flat_json_size_exact: "flat_json_bytes ps = length (pairs_to_json ps)"
  by (simp only: length_pairs_to_json)

text \<open>
  C36. On canonical metadata the binary search of a key finds exactly the key's value.
\<close>

theorem meta_value_finds_key:
  assumes "bt_wf (le_metadata e)"
  shows "meta_value e key = map_of (le_metadata e) key"
  using meta_value_spec [OF assms] .

theorem meta_value_finds_key_witness:
  "\<exists>e :: log_entry. le_metadata e = [([0x61], [1]), ([0x62], [2])] \<and> bt_wf (le_metadata e) \<and>
     meta_value e [0x62] = Some [2] \<and> meta_value e [0x63] = None"
proof -
  define e where "e = \<lparr>le_ts = I64 0, le_level = 1, le_severity = None,
    le_message = [], le_metadata = [([0x61], [1]), ([0x62], [2])], le_metadata_json = None\<rparr>"
  have wf: "bt_wf (le_metadata e)" by (simp add: e_def bt_wf_def)
  have "meta_value e [0x62] = Some [2]" "meta_value e [0x63] = None"
    using meta_value_finds_key [OF wf] by (simp_all add: e_def)
  moreover have "le_metadata e = [([0x61], [1]), ([0x62], [2])]" by (simp add: e_def)
  ultimately show ?thesis using wf by - (rule exI [of _ e], simp)
qed




end
