(* ===== verification/Template.thy ===== *)
theory Template
  imports StrColumn
begin

section \<open>Template-compressed message columns\<close>

text \<open>
  \<open>crates/timeless-core/src/blocks/template.rs\<close>, the column of codec 8: messages are split into
  templates and typed variables; the variables are stored grouped by (template, slot) and read back
  through one cursor per group. The Rust loops over byte positions are recursions over the bytes
  that are left; \<open>HashMap\<close> is a map, \<open>BTreeMap\<close> an ordered association list.
\<close>

definition SENTINEL :: byte where "SENTINEL = 0x11"
definition KIND_NUM :: byte where "KIND_NUM = 0x64"
definition KIND_STR :: byte where "KIND_STR = 0x73"

lemmas template_bytes = SENTINEL_def KIND_NUM_def KIND_STR_def

datatype var_kind = VNum | VStr

text \<open>A variable: its kind and its text.\<close>

type_synonym var = "var_kind \<times> str"

subsection \<open>Tokenizing\<close>

definition is_token_byte :: "byte \<Rightarrow> bool" where
  "is_token_byte b \<longleftrightarrow> is_ascii_alphanumeric b \<or> b \<in> set [0x5F, 0x2E, 0x3A, 0x2D, 0x2B, 0x2F, 0x40]"

fun split_on :: "byte \<Rightarrow> bytes \<Rightarrow> bytes list" where
  "split_on sep [] = [[]]"
| "split_on sep (b # bs) =
     (if b = sep then [] # split_on sep bs
      else (case split_on sep bs of [] \<Rightarrow> [[b]] | g # gs \<Rightarrow> (b # g) # gs))"

definition is_hex_like :: "str \<Rightarrow> bool" where
  "is_hex_like tok \<longleftrightarrow>
     (let has_0x = (take 2 tok = [0x30, 0x78]);
          body = (if has_0x then drop 2 tok else tok);
          groups = split_on 0x2D tok
      in (length body \<ge> 4 \<and> list_all is_ascii_hexdigit body \<and> list_ex is_ascii_alphabetic body) \<or>
         (length tok \<ge> 4 \<and> has_0x) \<or>
         (length groups = 5 \<and>
          list_all (\<lambda>(n, g). length g = n \<and> list_all is_ascii_hexdigit g) (zip [8, 4, 4, 4, 12] groups)))"

definition num_run_ok :: "str \<Rightarrow> bool" where
  "num_run_ok run \<longleftrightarrow> length run \<le> 255 \<and> parse_i64 run \<noteq> None"

definition kind_tag :: "var_kind \<Rightarrow> byte" where
  "kind_tag kind = (case kind of VNum \<Rightarrow> KIND_NUM | VStr \<Rightarrow> KIND_STR)"

text \<open>What \<open>push_var\<close> appends to the template and to the variables.\<close>

definition push_var :: "var_kind \<Rightarrow> str \<Rightarrow> str \<times> var list \<Rightarrow> str \<times> var list" where
  "push_var kind text after = ([SENTINEL, kind_tag kind] @ fst after, (kind, text) # snd after)"

definition push_text :: "str \<Rightarrow> str \<times> var list \<Rightarrow> str \<times> var list" where
  "push_text s after = (s @ fst after, snd after)"

definition run_kind :: "str \<Rightarrow> var_kind" where
  "run_kind run = (if num_run_ok run then VNum else VStr)"

text \<open>Digit-run mode inside one token; \<open>after\<close> is what follows the token.\<close>

function split_token :: "str \<Rightarrow> str \<times> var list \<Rightarrow> str \<times> var list" where
  "split_token [] after = after"
| "split_token (b # r) after =
     (if is_ascii_digit b then
        let run = takeWhile is_ascii_digit (b # r)
        in push_var (run_kind run) run (split_token (dropWhile is_ascii_digit (b # r)) after)
      else push_text [b] (split_token r after))"
  by pat_completeness auto
termination
  by (relation "measure (\<lambda>(tok, _). length tok)") (auto simp: length_dropWhile_le less_Suc_eq_le)

definition tokenize_token :: "bool \<Rightarrow> str \<Rightarrow> str \<times> var list \<Rightarrow> str \<times> var list" where
  "tokenize_token split_runs tok after =
     (if \<not> list_ex is_ascii_digit tok then push_text tok after
      else if is_hex_like tok \<or> (\<not> split_runs \<and> \<not> list_all is_ascii_digit tok) then
        push_var VStr tok after
      else if \<not> split_runs then push_var (run_kind tok) tok after
      else split_token tok after)"

definition utf8_char_len :: "byte \<Rightarrow> nat" where
  "utf8_char_len lead =
     (if lead \<le> 0x7F then 1
      else if 0xC0 \<le> lead \<and> lead \<le> 0xDF then 2
      else if 0xE0 \<le> lead \<and> lead \<le> 0xEF then 3
      else 4)"

lemma utf8_char_len_pos [simp]: "0 < utf8_char_len b"
  by (simp add: utf8_char_len_def)

lemma utf8_char_len_drop [simp]: "Suc n - utf8_char_len b \<le> n"
  by (simp add: utf8_char_len_def)

function tokenize :: "str \<Rightarrow> bool \<Rightarrow> str \<times> var list" where
  "tokenize [] split_runs = ([], [])"
| "tokenize (b # r) split_runs =
     (if b = SENTINEL then push_text [SENTINEL, SENTINEL] (tokenize r split_runs)
      else if is_token_byte b then
        tokenize_token split_runs (takeWhile is_token_byte (b # r))
          (tokenize (dropWhile is_token_byte (b # r)) split_runs)
      else push_text (take (utf8_char_len b) (b # r)) (tokenize (drop (utf8_char_len b) (b # r)) split_runs))"
  by pat_completeness auto
termination
  by (relation "measure (\<lambda>(msg, _). length msg)") (auto simp: length_dropWhile_le less_Suc_eq_le)

declare split_token.simps(2) [simp del] tokenize.simps(2) [simp del]

fun slot_kinds :: "str \<Rightarrow> var_kind list" where
  "slot_kinds (b # c # r) =
     (if b = SENTINEL then
        (if c = KIND_NUM then [VNum] else if c = KIND_STR then [VStr] else []) @ slot_kinds r
      else slot_kinds (c # r))"
| "slot_kinds _ = []"

subsection \<open>Rendering\<close>

definition push_padded :: "i64 \<Rightarrow> nat \<Rightarrow> str" where
  "push_padded v w =
     (let pad = (\<lambda>k ds. replicate (k - length ds) 0x30 @ ds) in
      if i64_int v < 0 then 0x2D # pad (w - 1) (decimal_digits (nat (- i64_int v)))
      else pad w (decimal_digits (nat (i64_int v))))"

text \<open>The first \<open>k\<close> bytes of a \<open>str\<close>, which panics off a character boundary, and what follows.\<close>

definition is_char_boundary :: "str \<Rightarrow> bool" where
  "is_char_boundary s \<longleftrightarrow> s = [] \<or> \<not> utf8_cont (hd s)"

definition str_split :: "nat \<Rightarrow> str \<Rightarrow> (str \<times> str) res" where
  "str_split k s =
     (if is_char_boundary s \<and> is_char_boundary (drop k s) then Inr (take k s, drop k s)
      else Inl (Panic ''str slice''))"

lemma str_split_length: "str_split k s = Inr (a, b) \<Longrightarrow> length b = length s - k"
  by (auto simp: str_split_def split: if_split_asm)

text \<open>Widths, values and strings are what is left of the streams of the message.\<close>

function detokenize :: "str \<Rightarrow> bytes \<Rightarrow> i64 list \<Rightarrow> str list \<Rightarrow> str res" where
  "detokenize [] widths values strs =
     (if widths \<noteq> [] \<or> strs \<noteq> [] then Inl (Invalid ''template column: unconsumed variables for message'')
      else Inr [])"
| "detokenize (b # r) widths values strs =
     (if b = SENTINEL then
        (case r of
           [] \<Rightarrow> Inl (Invalid ''template column: dangling sentinel in template'')
         | tag # r \<Rightarrow>
             if tag = SENTINEL then
               and_then (detokenize r widths values strs) (\<lambda>out. Inr (SENTINEL # out))
             else if tag = KIND_NUM then
               (case widths of
                  [] \<Rightarrow> Inl (Invalid ''template column: width stream exhausted'')
                | w # widths \<Rightarrow>
                    (case values of
                       [] \<Rightarrow> Inl (Invalid ''template column: value stream exhausted'')
                     | v # values \<Rightarrow>
                         and_then (detokenize r widths values strs) (\<lambda>out.
                         Inr (push_padded v (unat w) @ out))))
             else if tag = KIND_STR then
               (case strs of
                  [] \<Rightarrow> Inl (Invalid ''template column: string stream exhausted'')
                | s # strs \<Rightarrow> and_then (detokenize r widths values strs) (\<lambda>out. Inr (s @ out)))
             else Inl (UnknownEncoding ''template column: placeholder tag'' tag))
      else
        and_then (str_split (utf8_char_len b) (b # r)) (\<lambda>(s, r).
        and_then (detokenize r widths values strs) (\<lambda>out. Inr (s @ out))))"
  by pat_completeness auto
termination
  by (relation "measure (\<lambda>(t, _). length t)") (auto dest: str_split_length simp: less_Suc_eq_le)

declare detokenize.simps(2) [simp del]

subsection \<open>Rendering undoes tokenizing\<close>

lemma padded_digits:
  assumes "list_all is_ascii_digit ds" "ds \<noteq> []"
  shows "replicate (length ds - length (decimal_digits (decimal_val 0 ds))) 0x30 @
     decimal_digits (decimal_val 0 ds) = ds"
  using assms
proof (induction ds rule: rev_induct)
  case (snoc b xs)
  let ?m = "decimal_val 0 xs" and ?d = "digit_val b"
  have b: "is_ascii_digit b" and d: "?d < 10" using snoc.prems digit_val_bound [of b] by auto
  have val: "decimal_val 0 (xs @ [b]) = 10 * ?m + ?d" by (simp add: decimal_val_append)
  have ob: "of_nat (48 + ?d) = b" using b by (rule of_nat_digit_val)
  show ?case
  proof (cases "xs = []")
    case True
    then show ?thesis using d ob val by (simp add: decimal_digits.simps [of "digit_val b"] del: of_nat_add)
  next
    case False
    with snoc have IH: "replicate (length xs - length (decimal_digits ?m)) 0x30 @ decimal_digits ?m = xs"
      by simp
    show ?thesis
    proof (cases "?m = 0")
      case True
      have "decimal_digits 0 = [0x30 :: byte]" by (subst decimal_digits.simps) simp
      with IH True have "replicate (length xs - 1) 0x30 @ [0x30] = xs" by simp
      moreover have "replicate (length xs - 1) 0x30 @ [0x30] = replicate (Suc (length xs - 1)) (0x30 :: byte)"
        by (simp add: replicate_append_same)
      moreover have "Suc (length xs - 1) = length xs" using False by (cases xs) auto
      ultimately have "replicate (length xs) 0x30 = xs" by argo
      moreover have "decimal_digits ?d = [b]" using d ob by (subst decimal_digits.simps) (simp del: of_nat_add)
      ultimately show ?thesis using val True by simp
    next
      case m: False
      have "decimal_digits (10 * ?m + ?d) = decimal_digits ?m @ [b]"
        using m d ob by (subst decimal_digits.simps) (simp del: of_nat_add)
      then show ?thesis using val IH by simp
    qed
  qed
qed simp

lemma parse_i64_digits:
  assumes "list_all is_ascii_digit ds" "parse_i64 ds = Some v"
  shows "ds \<noteq> []" "i64_int v = int (decimal_val 0 ds)"
proof -
  show "ds \<noteq> []" using assms(2) by (auto simp: parse_i64_def)
  then obtain b r where ds: "ds = b # r" by (cases ds) auto
  then have "b \<noteq> 0x2B" "b \<noteq> 0x2D" using assms(1) by (auto simp: is_ascii_digit_def)
  with assms ds have "v = i64_of_int (int (decimal_val 0 ds))" "int (decimal_val 0 ds) < 2 ^ 63"
    by (auto simp: parse_i64_def Let_def split: if_split_asm)
  then show "i64_int v = int (decimal_val 0 ds)"
    by simp
qed

lemma push_padded_parse:
  assumes "list_all is_ascii_digit ds" "parse_i64 ds = Some v"
  shows "push_padded v (length ds) = ds"
  using parse_i64_digits [OF assms] padded_digits [OF assms(1)] by (simp add: push_padded_def Let_def)

definition is_num :: "var \<Rightarrow> bool" where
  "is_num v \<longleftrightarrow> fst v = VNum"

definition var_widths :: "var list \<Rightarrow> bytes" where
  "var_widths vars = map (\<lambda>v. of_nat (length (snd v))) (filter is_num vars)"

definition var_values :: "var list \<Rightarrow> i64 list" where
  "var_values vars = map (\<lambda>v. the (parse_i64 (snd v))) (filter is_num vars)"

definition var_strs :: "var list \<Rightarrow> str list" where
  "var_strs vars = map snd (filter (\<lambda>v. \<not> is_num v) vars)"

lemmas var_streams = var_widths_def var_values_def var_strs_def is_num_def

text \<open>A template with its variables renders a text; the pushes of the tokenizer keep that true.\<close>

definition renders :: "str \<times> var list \<Rightarrow> str \<Rightarrow> bool" where
  "renders p out \<longleftrightarrow> valid_utf8 (fst p) \<and>
     detokenize (fst p) (var_widths (snd p)) (var_values (snd p)) (var_strs (snd p)) = Inr out"

lemma renders_Nil: "renders ([], []) []"
  by (simp add: renders_def var_streams)

lemma renders_str: "renders p out \<Longrightarrow> renders (push_var VStr s p) (s @ out)"
  by (simp add: renders_def push_var_def kind_tag_def detokenize.simps(2) template_bytes var_streams)

lemma renders_num:
  assumes "renders p out" "list_all is_ascii_digit ds" "num_run_ok ds"
  shows "renders (push_var VNum ds p) (ds @ out)"
proof -
  obtain v where v: "parse_i64 ds = Some v" using assms(3) by (auto simp: num_run_ok_def)
  have "unat (of_nat (length ds) :: byte) = length ds" using assms(3) by (simp add: num_run_ok_def unat_of_nat)
  with v push_padded_parse [OF assms(2) v] assms(1) show ?thesis
    by (simp add: renders_def push_var_def kind_tag_def detokenize.simps(2) template_bytes var_streams)
qed

lemma renders_run:
  "renders p out \<Longrightarrow> list_all is_ascii_digit ds \<Longrightarrow> renders (push_var (run_kind ds) ds p) (ds @ out)"
  by (simp add: run_kind_def renders_num renders_str)

lemma renders_sentinel: "renders p out \<Longrightarrow> renders (push_text [SENTINEL, SENTINEL] p) (SENTINEL # out)"
  by (simp add: renders_def push_text_def detokenize.simps(2) template_bytes)

lemma valid_utf8_boundary: "valid_utf8 s \<Longrightarrow> is_char_boundary s"
proof (cases s)
  case (Cons b r)
  assume "valid_utf8 s"
  then obtain k where "utf8_width s = Some k" using Cons by (auto elim: valid_utf8_widthE)
  then show ?thesis
    unfolding Cons is_char_boundary_def utf8_cont_def
    by (auto simp: utf8_width.simps word_le_nat_alt word_less_nat_alt split: if_split_asm)
qed (simp add: is_char_boundary_def)

text \<open>On valid UTF-8 the width table of the tokenizer is the width of the character.\<close>

lemma utf8_char_len_width: "utf8_width (b # r) = Some k \<Longrightarrow> utf8_char_len b = k"
  by (auto simp: utf8_width.simps utf8_char_len_def word_le_nat_alt word_less_nat_alt
      split: if_split_asm list.split_asm)

lemma renders_char:
  assumes "renders p out" "utf8_width c = Some k" "length c = k" "hd c \<noteq> SENTINEL"
  shows "renders (push_text c p) (c @ out)"
proof -
  obtain b r where c: "c = b # r" using assms(2) by (cases c) auto
  let ?t = "fst p"
  have w: "utf8_width (c @ ?t) = Some k" using assms(2) by (rule utf8_width_append)
  have "utf8_char_len b = k" using assms(2) unfolding c by (rule utf8_char_len_width)
  moreover have v: "valid_utf8 (c @ ?t)"
    using valid_utf8_width [OF w] assms(1,3) by (simp add: renders_def)
  moreover have "is_char_boundary (c @ ?t)" "is_char_boundary ?t"
    using v assms(1) by (auto simp: renders_def intro: valid_utf8_boundary)
  ultimately have "str_split (utf8_char_len b) (c @ ?t) = Inr (c, ?t)"
    using assms(3) by (simp add: str_split_def)
  then show ?thesis
    using assms(1,4) v c by (simp add: renders_def push_text_def detokenize.simps(2))
qed

lemma push_text_append: "push_text (a @ b) p = push_text a (push_text b p)"
  by (simp add: push_text_def)

lemma renders_ascii:
  "renders p out \<Longrightarrow> list_all (\<lambda>b. b < 0x80 \<and> b \<noteq> SENTINEL) s \<Longrightarrow> renders (push_text s p) (s @ out)"
proof (induction s)
  case (Cons b s)
  then have "renders (push_text [b] (push_text s p)) ([b] @ s @ out)"
    using renders_char [of "push_text s p" "s @ out" "[b]" 1] by (simp add: utf8_width.simps)
  then show ?case using push_text_append [of "[b]" s p] by simp
qed (simp add: push_text_def)

lemma is_token_byte_ascii: "is_token_byte b \<Longrightarrow> b < 0x80 \<and> b \<noteq> SENTINEL"
  by (auto simp: is_token_byte_def is_ascii_alphanumeric_def is_ascii_alphabetic_def is_ascii_upper_def
      is_ascii_lower_def is_ascii_digit_def SENTINEL_def word_le_nat_alt word_less_nat_alt)

lemma renders_split_token:
  "renders p out \<Longrightarrow> list_all is_token_byte tok \<Longrightarrow> renders (split_token tok p) (tok @ out)"
proof (induction tok p rule: split_token.induct)
  case (2 b r p)
  show ?case
  proof (cases "is_ascii_digit b")
    case True
    let ?run = "takeWhile is_ascii_digit (b # r)" and ?more = "dropWhile is_ascii_digit (b # r)"
    have "list_all is_token_byte ?more" using "2.prems"(2) by (auto simp: list_all_iff dest: set_dropWhileD)
    then have "renders (split_token ?more p) (?more @ out)" using 2(1) [OF True refl] "2.prems"(1) by simp
    then have "renders (push_var (run_kind ?run) ?run (split_token ?more p)) (?run @ ?more @ out)"
      by (rule renders_run) (auto simp: list_all_iff dest: set_takeWhileD)
    then have "renders (push_var (run_kind ?run) ?run (split_token ?more p)) ((b # r) @ out)"
      by (metis append_assoc takeWhile_dropWhile_id)
    then show ?thesis using True by (simp only: split_token.simps(2) Let_def if_True)
  next
    case False
    then have "renders (split_token r p) (r @ out)" using 2 by simp
    then have "renders (push_text [b] (split_token r p)) ([b] @ r @ out)"
      using renders_ascii [of "split_token r p" "r @ out" "[b]"] "2.prems"(2) by (simp add: is_token_byte_ascii)
    then show ?thesis using False by (simp add: split_token.simps(2))
  qed
qed simp

lemma renders_token:
  assumes "renders p out" "list_all is_token_byte tok"
  shows "renders (tokenize_token split_runs tok p) (tok @ out)"
proof -
  have "list_all (\<lambda>b. b < 0x80 \<and> b \<noteq> SENTINEL) tok"
    using assms(2) by (auto simp: list_all_iff dest: is_token_byte_ascii)
  then show ?thesis
    using assms by (auto simp: tokenize_token_def renders_ascii renders_str renders_run renders_split_token)
qed

lemma renders_tokenize: "valid_utf8 msg \<Longrightarrow> renders (tokenize msg split_runs) msg"
proof (induction msg split_runs rule: tokenize.induct)
  case (1 split_runs)
  then show ?case by (simp add: renders_Nil)
next
  case (2 b r split_runs)
  consider (s) "b = SENTINEL" | (t) "b \<noteq> SENTINEL" "is_token_byte b"
    | (c) "b \<noteq> SENTINEL" "\<not> is_token_byte b" by blast
  then show ?case
  proof cases
    case s
    then have "valid_utf8 r" using "2.prems" by (simp add: SENTINEL_def)
    then have "renders (push_text [SENTINEL, SENTINEL] (tokenize r split_runs)) (SENTINEL # r)"
      using 2(1) [OF s] renders_sentinel by simp
    then show ?thesis using s by (simp add: tokenize.simps(2))
  next
    case t
    let ?tok = "takeWhile is_token_byte (b # r)" and ?more = "dropWhile is_token_byte (b # r)"
    have tok: "list_all is_token_byte ?tok" by (auto simp: list_all_iff dest: set_takeWhileD)
    then have "valid_utf8 ?tok" by (intro is_ascii_valid) (auto simp: is_ascii_def list_all_iff dest: is_token_byte_ascii)
    then have "valid_utf8 ?more"
      using "2.prems" valid_utf8_append [of ?tok ?more] by (simp only: takeWhile_dropWhile_id)
    then have "renders (tokenize_token split_runs ?tok (tokenize ?more split_runs)) (?tok @ ?more)"
      using 2(2) [OF t] renders_token [OF _ tok] by simp
    then show ?thesis using t by (simp only: tokenize.simps(2) if_False if_True takeWhile_dropWhile_id)
  next
    case c
    obtain k where k: "utf8_width (b # r) = Some k" "k \<le> length (b # r)" "valid_utf8 (drop k (b # r))"
      using "2.prems" by (auto elim: valid_utf8_widthE)
    have "utf8_char_len b = k" using k(1) by (rule utf8_char_len_width)
    moreover have "utf8_width (take k (b # r)) = Some k" using k(1) by (rule utf8_width_take)
    moreover have "0 < k" using k(1) by (rule utf8_width_pos)
    ultimately have "renders (push_text (take k (b # r)) (tokenize (drop k (b # r)) split_runs))
        (take k (b # r) @ drop k (b # r))"
      using 2(3) [OF c] k c(1) 
        renders_char [of "tokenize (drop k (b # r)) split_runs" "drop k (b # r)" "take k (b # r)" k]
      by (simp add: hd_take del: append_take_drop_id)
    then show ?thesis using c \<open>utf8_char_len b = k\<close> by (simp add: tokenize.simps(2))
  qed
qed

subsection \<open>A message as pieces\<close>

text \<open>
  What the tokenizer does to a message, as data: stretches of text without digits, escaped sentinels
  and variables, each variable with a digit and none next to another.
\<close>

datatype piece = PText str | PSent | PVar var_kind str

primrec piece_template :: "piece \<Rightarrow> str" where
  "piece_template (PText s) = s"
| "piece_template PSent = [SENTINEL, SENTINEL]"
| "piece_template (PVar k t) = [SENTINEL, kind_tag k]"

primrec piece_vars :: "piece \<Rightarrow> var list" where
  "piece_vars (PText s) = []"
| "piece_vars PSent = []"
| "piece_vars (PVar k t) = [(k, t)]"

primrec piece_text :: "piece \<Rightarrow> str" where
  "piece_text (PText s) = s"
| "piece_text PSent = [SENTINEL]"
| "piece_text (PVar k t) = t"

primrec piece_ok :: "piece \<Rightarrow> bool" where
  "piece_ok (PText s) \<longleftrightarrow> s \<noteq> [] \<and> valid_utf8 s \<and> list_all (\<lambda>b. b \<noteq> SENTINEL \<and> \<not> is_ascii_digit b) s"
| "piece_ok PSent \<longleftrightarrow> True"
| "piece_ok (PVar k t) \<longleftrightarrow> list_all is_token_byte t \<and> list_ex is_ascii_digit t \<and>
     (k = VNum \<longrightarrow> list_all is_ascii_digit t \<and> num_run_ok t)"

primrec is_pvar :: "piece \<Rightarrow> bool" where
  "is_pvar (PText s) \<longleftrightarrow> False"
| "is_pvar PSent \<longleftrightarrow> False"
| "is_pvar (PVar k t) \<longleftrightarrow> True"

abbreviation starts_var :: "piece list \<Rightarrow> bool" where
  "starts_var ps \<equiv> ps \<noteq> [] \<and> is_pvar (hd ps)"

definition pieces_wf :: "piece list \<Rightarrow> bool" where
  "pieces_wf ps \<longleftrightarrow> list_all piece_ok ps \<and> successively (\<lambda>p q. \<not> (is_pvar p \<and> is_pvar q)) ps"

definition pieces_of :: "piece list \<Rightarrow> str \<times> var list" where
  "pieces_of ps = (concat (map piece_template ps), concat (map piece_vars ps))"

abbreviation pieces_text :: "piece list \<Rightarrow> str" where
  "pieces_text ps \<equiv> concat (map piece_text ps)"

lemma pieces_wf_Nil [simp]: "pieces_wf []"
  by (simp add: pieces_wf_def)

lemma pieces_wf_Cons [simp]:
  "pieces_wf (p # ps) \<longleftrightarrow> piece_ok p \<and> pieces_wf ps \<and> \<not> (is_pvar p \<and> starts_var ps)"
  by (cases ps) (auto simp: pieces_wf_def)

lemma push_pieces:
  "push_text s (pieces_of ps) = pieces_of (PText s # ps)"
  "push_text [SENTINEL, SENTINEL] (pieces_of ps) = pieces_of (PSent # ps)"
  "push_var k t (pieces_of ps) = pieces_of (PVar k t # ps)"
  by (simp_all add: pieces_of_def push_text_def push_var_def)

text \<open>In whole-token mode a piece is a token or holds no token byte, and no two tokens touch.\<close>

definition tok_piece :: "piece \<Rightarrow> bool" where
  "tok_piece p \<longleftrightarrow> list_all is_token_byte (piece_text p)"

abbreviation starts_tok :: "piece list \<Rightarrow> bool" where
  "starts_tok ps \<equiv> ps \<noteq> [] \<and> tok_piece (hd ps)"

definition whole_pieces :: "piece list \<Rightarrow> bool" where
  "whole_pieces ps \<longleftrightarrow> list_all (\<lambda>p. tok_piece p \<or> list_all (\<lambda>b. \<not> is_token_byte b) (piece_text p)) ps \<and>
     successively (\<lambda>p q. \<not> (tok_piece p \<and> tok_piece q)) ps"

lemma whole_pieces_Nil [simp]: "whole_pieces []"
  by (simp add: whole_pieces_def)

lemma whole_pieces_Cons [simp]:
  "whole_pieces (p # ps) \<longleftrightarrow> (tok_piece p \<or> list_all (\<lambda>b. \<not> is_token_byte b) (piece_text p)) \<and> whole_pieces ps \<and>
     \<not> (tok_piece p \<and> starts_tok ps)"
  by (cases ps) (auto simp: whole_pieces_def)

lemma starts_var_tok: "pieces_wf ps \<Longrightarrow> starts_var ps \<Longrightarrow> starts_tok ps"
  by (cases ps; cases "hd ps") (auto simp: tok_piece_def)

lemma digit_is_token: "is_ascii_digit b \<Longrightarrow> is_token_byte b"
  by (simp add: is_token_byte_def is_ascii_alphanumeric_def)

lemma piece_ok_token_text:
  "s \<noteq> [] \<Longrightarrow> list_all is_token_byte s \<Longrightarrow> list_all (\<lambda>b. \<not> is_ascii_digit b) s \<Longrightarrow> piece_ok (PText s)"
  using is_token_byte_ascii by (auto simp: list_all_iff is_ascii_def intro!: is_ascii_valid)

lemma piece_ok_run: "t \<noteq> [] \<Longrightarrow> list_all is_ascii_digit t \<Longrightarrow> piece_ok (PVar (run_kind t) t)"
  by (cases t) (auto simp: list_all_iff run_kind_def digit_is_token split: if_splits)

lemma split_token_pieces:
  assumes "list_all is_token_byte tok" "pieces_wf ps" "\<not> starts_var ps"
  shows "\<exists>qs. split_token tok (pieces_of ps) = pieces_of qs \<and> pieces_text qs = tok @ pieces_text ps \<and>
     pieces_wf qs \<and> (tok = [] \<or> \<not> is_ascii_digit (hd tok) \<longrightarrow> \<not> starts_var qs)"
  using assms
proof (induction tok "pieces_of ps" rule: split_token.induct)
  case 1
  then show ?case by auto
next
  case (2 b r)
  show ?case
  proof (cases "is_ascii_digit b")
    case True
    let ?run = "takeWhile is_ascii_digit (b # r)" and ?r = "dropWhile is_ascii_digit (b # r)"
    have "list_all is_token_byte ?r" using "2.prems"(1) by (auto simp: list_all_iff dest: set_dropWhileD)
    then obtain qs where qs: "split_token ?r (pieces_of ps) = pieces_of qs" "pieces_text qs = ?r @ pieces_text ps"
      "pieces_wf qs" "\<not> starts_var qs"
      using 2(1) [OF True refl _ "2.prems"(2,3)] hd_dropWhile [of is_ascii_digit "b # r"] by blast
    have ok: "piece_ok (PVar (run_kind ?run) ?run)"
      using True by (intro piece_ok_run) (auto simp: list_all_iff dest: set_takeWhileD)
    have "?run @ ?r = b # r" by (rule takeWhile_dropWhile_id)
    then have "pieces_text (PVar (run_kind ?run) ?run # qs) = (b # r) @ pieces_text ps"
      using qs(2) by (metis append_assoc concat.simps(2) list.simps(9) piece_text.simps(3))
    moreover have "split_token (b # r) (pieces_of ps) = pieces_of (PVar (run_kind ?run) ?run # qs)"
      using True qs(1) by (simp only: split_token.simps(2) Let_def if_True push_pieces)
    ultimately show ?thesis using qs(3,4) ok True by (metis is_pvar.simps(3) list.sel(1) list.simps(3) pieces_wf_Cons)
  next
    case False
    obtain qs where qs: "split_token r (pieces_of ps) = pieces_of qs" "pieces_text qs = r @ pieces_text ps"
      "pieces_wf qs"
      using 2(2) [OF False] "2.prems" by auto
    have "piece_ok (PText [b])" using "2.prems"(1) False by (intro piece_ok_token_text) auto
    with qs False show ?thesis
      by (intro exI [of _ "PText [b] # qs"]) (simp add: split_token.simps(2) push_pieces)
  qed
qed

lemma token_pieces:
  assumes "list_all is_token_byte tok" "tok \<noteq> []" "pieces_wf ps" "\<not> starts_var ps"
  shows "\<exists>qs. tokenize_token split_runs tok (pieces_of ps) = pieces_of qs \<and>
     pieces_text qs = tok @ pieces_text ps \<and> pieces_wf qs \<and>
     (\<not> split_runs \<and> whole_pieces ps \<and> \<not> starts_tok ps \<longrightarrow> whole_pieces qs)"
proof -
  consider (txt_only) "\<not> list_ex is_ascii_digit tok"
    | (str) "list_ex is_ascii_digit tok" "is_hex_like tok \<or> (\<not> split_runs \<and> \<not> list_all is_ascii_digit tok)"
    | (num) "list_all is_ascii_digit tok" "\<not> is_hex_like tok" "\<not> split_runs"
    | (split) "list_ex is_ascii_digit tok" "\<not> is_hex_like tok" split_runs
    by blast
  then show ?thesis
  proof cases
    case txt_only
    then have "piece_ok (PText tok)"
      using assms by (intro piece_ok_token_text) (simp_all add: list_ex_iff list_all_iff)
    with txt_only assms(1,3,4) show ?thesis
      by (intro exI [of _ "PText tok # ps"]) (simp add: tokenize_token_def push_pieces tok_piece_def)
  next
    case str
    with assms show ?thesis
      by (intro exI [of _ "PVar VStr tok # ps"]) (simp add: tokenize_token_def push_pieces tok_piece_def)
  next
    case num
    then have "list_ex is_ascii_digit tok" using assms(2) by (cases tok) auto
    moreover have "piece_ok (PVar (run_kind tok) tok)" using num(1) assms(2) by (rule piece_ok_run [rotated])
    ultimately show ?thesis using num assms(1,3,4)
      by (intro exI [of _ "PVar (run_kind tok) tok # ps"]) (simp add: tokenize_token_def push_pieces tok_piece_def)
  next
    case split
    then have "tokenize_token split_runs tok (pieces_of ps) = split_token tok (pieces_of ps)"
      by (simp add: tokenize_token_def)
    then show ?thesis using split_token_pieces [OF assms(1,3,4)] split(3) by auto
  qed
qed

lemma utf8_char_plain:
  assumes "utf8_width c = Some k" "length c = k" "hd c \<noteq> SENTINEL" "\<not> is_token_byte (hd c)"
  shows "piece_ok (PText c)"
proof -
  have "c \<noteq> []" using assms(1) by auto
  moreover have "valid_utf8 c" using valid_utf8_width [OF assms(1)] assms(2) by simp
  moreover have "b \<noteq> SENTINEL \<and> \<not> is_ascii_digit b" if "b \<in> set c" for b
  proof (cases "k = 1")
    case True
    then have "b = hd c" using assms(2) that by (cases c) auto
    then show ?thesis using assms(3,4) by (auto dest: digit_is_token)
  next
    case False
    then have "0x80 \<le> b" using utf8_width_bytes [OF assms(1)] assms(2) that by auto
    then have "\<not> b < 0x80" by simp
    then show ?thesis
      using is_token_byte_ascii [OF digit_is_token, of b] by (auto simp: SENTINEL_def)
  qed
  ultimately show ?thesis by (simp add: list_all_iff)
qed

lemma utf8_char_no_token:
  assumes "utf8_width c = Some k" "length c = k" "\<not> is_token_byte (hd c)"
  shows "list_all (\<lambda>b. \<not> is_token_byte b) c"
proof (cases "k = 1")
  case True
  then show ?thesis using assms(2,3) by (cases c) auto
next
  case False
  then have "\<forall>b \<in> set c. 0x80 \<le> b" using utf8_width_bytes [OF assms(1)] assms(2) by simp
  then show ?thesis using is_token_byte_ascii by (fastforce simp: list_all_iff)
qed

lemma tokenize_pieces:
  assumes "valid_utf8 msg"
  shows "\<exists>ps. tokenize msg split_runs = pieces_of ps \<and> pieces_text ps = msg \<and> pieces_wf ps \<and>
     (\<not> split_runs \<longrightarrow> whole_pieces ps) \<and> (msg = [] \<or> \<not> is_token_byte (hd msg) \<longrightarrow> \<not> starts_tok ps)"
  using assms
proof (induction msg split_runs rule: tokenize.induct)
  case (1 split_runs)
  then show ?case by (intro exI [of _ "[]"]) (simp add: pieces_of_def)
next
  case (2 b r split_runs)
  consider (s) "b = SENTINEL" | (t) "b \<noteq> SENTINEL" "is_token_byte b"
    | (c) "b \<noteq> SENTINEL" "\<not> is_token_byte b" by blast
  then show ?case
  proof cases
    case s
    then have "valid_utf8 r" using "2.prems" by (simp add: SENTINEL_def)
    then obtain ps where "tokenize r split_runs = pieces_of ps" "pieces_text ps = r" "pieces_wf ps"
        "\<not> split_runs \<longrightarrow> whole_pieces ps"
      using 2(1) [OF s] by blast
    moreover have "\<not> is_token_byte SENTINEL" using is_token_byte_ascii [of SENTINEL] by blast
    ultimately show ?thesis
      using s by (intro exI [of _ "PSent # ps"]) (simp add: tokenize.simps(2) push_pieces(2) tok_piece_def)
  next
    case t
    let ?tok = "takeWhile is_token_byte (b # r)" and ?r = "dropWhile is_token_byte (b # r)"
    have tok: "list_all is_token_byte ?tok" "?tok \<noteq> []"
      using t(2) by (auto simp: list_all_iff dest: set_takeWhileD)
    then have "valid_utf8 ?tok" by (intro is_ascii_valid) (auto simp: is_ascii_def list_all_iff dest: is_token_byte_ascii)
    then have "valid_utf8 ?r"
      using "2.prems" valid_utf8_append [of ?tok ?r] by (simp only: takeWhile_dropWhile_id)
    then obtain ps where ps: "tokenize ?r split_runs = pieces_of ps" "pieces_text ps = ?r" "pieces_wf ps"
      "\<not> split_runs \<longrightarrow> whole_pieces ps" "\<not> starts_tok ps"
      using 2(2) [OF t] hd_dropWhile [of is_token_byte "b # r"] by blast
    have "\<not> starts_var ps" using starts_var_tok [OF ps(3)] ps(5) by blast
    from token_pieces [OF tok ps(3) this, of split_runs] ps(2,4,5) obtain qs where
      "tokenize_token split_runs ?tok (pieces_of ps) = pieces_of qs" "pieces_text qs = ?tok @ ?r" "pieces_wf qs"
      "\<not> split_runs \<longrightarrow> whole_pieces qs" by metis
    then show ?thesis
      using t ps(1) by (intro exI [of _ qs]) (simp only: tokenize.simps(2) takeWhile_dropWhile_id, simp)
  next
    case c
    obtain k where k: "utf8_width (b # r) = Some k" "k \<le> length (b # r)" "valid_utf8 (drop k (b # r))"
      using "2.prems" by (auto elim: valid_utf8_widthE)
    have len: "utf8_char_len b = k" using k(1) by (rule utf8_char_len_width)
    obtain ps where ps: "tokenize (drop k (b # r)) split_runs = pieces_of ps" "pieces_text ps = drop k (b # r)"
      "pieces_wf ps" "\<not> split_runs \<longrightarrow> whole_pieces ps"
      using 2(3) [OF c] len k(3) by auto
    have "0 < k" using k(1) by (rule utf8_width_pos)
    then have w: "utf8_width (take k (b # r)) = Some k" "length (take k (b # r)) = k" "hd (take k (b # r)) = b"
      using utf8_width_take [OF k(1)] k(2) by (simp_all add: hd_take)
    then have "piece_ok (PText (take k (b # r)))" "list_all (\<lambda>b. \<not> is_token_byte b) (take k (b # r))"
      using c utf8_char_plain [OF w(1,2)] utf8_char_no_token [OF w(1,2)] by simp_all
    moreover have "\<not> tok_piece (PText (take k (b # r)))" using \<open>0 < k\<close> c(2) by (cases k) (simp_all add: tok_piece_def)
    ultimately show ?thesis using ps len c
      by (intro exI [of _ "PText (take k (b # r)) # ps"]) (simp add: tokenize.simps(2) push_pieces)
  qed
qed

lemma slot_kinds_plain: "list_all (\<lambda>b. b \<noteq> SENTINEL) s \<Longrightarrow> slot_kinds (s @ t) = slot_kinds t"
proof (induction s)
  case (Cons b s)
  then show ?case by (cases "s @ t") auto
qed simp

lemma slot_kinds_pieces: "list_all piece_ok ps \<Longrightarrow> slot_kinds (fst (pieces_of ps)) = map fst (snd (pieces_of ps))"
proof (induction ps)
  case (Cons p ps)
  then show ?case
    by (cases p)
      (auto simp: pieces_of_def slot_kinds_plain list_all_iff kind_tag_def template_bytes split: var_kind.splits)
qed (simp add: pieces_of_def)

text \<open>The template tells the kinds of its variables.\<close>

lemma slot_kinds_tokenize:
  "valid_utf8 msg \<Longrightarrow> tokenize msg split_runs = (t, vars) \<Longrightarrow> slot_kinds t = map fst vars"
  using tokenize_pieces [of msg split_runs] slot_kinds_pieces by (metis fst_conv pieces_wf_def snd_conv)

lemma tokenize_vars_ok:
  assumes "valid_utf8 msg" "tokenize msg split_runs = (t, vars)" "v \<in> set vars"
  shows "is_ascii (snd v)" "is_num v \<Longrightarrow> parse_i64 (snd v) \<noteq> None" "snd v \<noteq> []"
proof -
  obtain ps where ps: "pieces_of ps = (t, vars)" "pieces_wf ps"
    using tokenize_pieces [OF assms(1), of split_runs] assms(2) by metis
  then obtain p where p: "p \<in> set ps" "v \<in> set (piece_vars p)" using assms(3) by (auto simp: pieces_of_def)
  then have "piece_ok p" using ps(2) by (simp add: pieces_wf_def list_all_iff)
  with p(2) have "piece_ok (PVar (fst v) (snd v))" by (cases p; auto)
  then show "is_ascii (snd v)" "is_num v \<Longrightarrow> parse_i64 (snd v) \<noteq> None" "snd v \<noteq> []"
    by (auto simp: is_ascii_def list_all_iff is_num_def num_run_ok_def dest: is_token_byte_ascii)
qed

text \<open>A template is at most twice as long as its message, and the variables are parts of the message.\<close>

lemma piece_lengths:
  "piece_ok p \<Longrightarrow> length (piece_template p) \<le> 2 * length (piece_text p) \<and>
     length (concat (map snd (piece_vars p))) \<le> length (piece_text p)"
proof (cases p)
  case (PVar k t)
  assume "piece_ok p"
  then have "1 \<le> length t" using PVar by (cases t) auto
  then show ?thesis using PVar by simp
qed auto

lemma tokenize_lengths:
  assumes "valid_utf8 msg" "tokenize msg split_runs = (t, vars)"
  shows "length t \<le> 2 * length msg" "length (concat (map snd vars)) \<le> length msg" "valid_utf8 t"
proof -
  obtain ps where ps: "pieces_of ps = (t, vars)" "list_all piece_ok ps" "pieces_text ps = msg"
    using tokenize_pieces [OF assms(1), of split_runs] assms(2) by (metis pieces_wf_def)
  have "length (fst (pieces_of ps)) \<le> 2 * length (pieces_text ps) \<and>
      length (concat (map snd (snd (pieces_of ps)))) \<le> length (pieces_text ps)"
    using ps(2)
  proof (induction ps)
    case (Cons p ps)
    then show ?case using piece_lengths [of p] by (simp add: pieces_of_def)
  qed (simp add: pieces_of_def)
  with ps show "length t \<le> 2 * length msg" "length (concat (map snd vars)) \<le> length msg" by simp_all
  show "valid_utf8 t" using renders_tokenize [OF assms(1), of split_runs] assms(2) by (simp add: renders_def)
qed

end
