(* ===== verification/TemplateColumn.thy ===== *)
theory TemplateColumn
  imports Template "HOL-Library.Product_Lexorder"
begin

section \<open>The template column\<close>

text \<open>
  Encoding and decoding of the whole column (\<open>encode_template_str\<close>, \<open>decode_template_str\<close> of
  \<open>template.rs\<close>): the variables of all messages are regrouped by (template, slot) into three typed
  streams, and the decoder walks the messages with one cursor per group. The lemmas show that the
  cursors stay inside the streams for any input and that decoding undoes encoding.
\<close>

subsection \<open>Encoding\<close>

record tokenized =
  tk_ids :: "i64 list"
  tk_dict :: "str list"
  tk_msg_vars :: "var list list"

fun tokenize_loop :: "bool \<Rightarrow> str list \<Rightarrow> (str \<rightharpoonup> i64) \<Rightarrow> str list \<Rightarrow> tokenized" where
  "tokenize_loop split_runs [] dict_map dict = \<lparr>tk_ids = [], tk_dict = dict, tk_msg_vars = []\<rparr>"
| "tokenize_loop split_runs (m # ms) dict_map dict =
     (let (template, vars) = tokenize m split_runs;
          (i, dict_map, dict) =
            (case dict_map template of
               Some i \<Rightarrow> (i, dict_map, dict)
             | None \<Rightarrow>
                 let i = i64_of_int (int (length dict))
                 in (i, dict_map(template \<mapsto> i), dict @ [template]));
          tk = tokenize_loop split_runs ms dict_map dict
      in tk\<lparr>tk_ids := i # tk_ids tk, tk_msg_vars := vars # tk_msg_vars tk\<rparr>)"

definition tokenize_block :: "str list \<Rightarrow> bool \<Rightarrow> tokenized" where
  "tokenize_block msgs split_runs = tokenize_loop split_runs msgs Map.empty []"

text \<open>\<open>groups.entry(key).or_default()\<close> and the loops that fill the groups.\<close>

type_synonym group_key = "i64 \<times> u32"

definition bt_or_default :: "'v \<Rightarrow> ('k, 'v) btree \<Rightarrow> 'k \<Rightarrow> 'v" where
  "bt_or_default d m k = (case bt_get m k of None \<Rightarrow> d | Some v \<Rightarrow> v)"

fun group_slots :: "i64 \<Rightarrow> nat \<Rightarrow> var list \<Rightarrow> (group_key, var list) btree \<Rightarrow> (group_key, var list) btree" where
  "group_slots i slot [] groups = groups"
| "group_slots i slot (v # vars) groups =
     (let k = (i, of_nat slot)
      in group_slots i (Suc slot) vars (bt_insert k (bt_or_default [] groups k @ [v]) groups))"

fun group_vars :: "(i64 \<times> var list) list \<Rightarrow> (group_key, var list) btree \<Rightarrow> (group_key, var list) btree" where
  "group_vars [] groups = groups"
| "group_vars ((i, vars) # ms) groups = group_vars ms (group_slots i 0 vars groups)"

definition sub_len :: "bytes \<Rightarrow> bytes res" where
  "sub_len c =
     (if length c > U32_MAX then Inl (ExceedsU32 ''template column: sub-column'' (length c))
      else Inr (u32_le (of_nat (length c))))"

definition encode_mode :: "codec_lib \<Rightarrow> str list \<Rightarrow> bool \<Rightarrow> int \<Rightarrow> bytes res" where
  "encode_mode lib msgs split_runs zstd_level =
     (let tk = tokenize_block msgs split_runs;
          vs = concat (map snd (group_vars (zip (tk_ids tk) (tk_msg_vars tk)) []));
          widths = var_widths vs;
          strs = var_strs vs
      in and_then (collect_r (\<lambda>v. ok_or (parse_i64 (snd v))
           (Invalid ''template column: internal error: unparseable num var'')) (filter is_num vs)) (\<lambda>values.
         and_then (and_then (encode_i64 lib (tk_ids tk) zstd_level) to_bytes) (\<lambda>ids_col.
         and_then (and_then (encode_str lib (tk_dict tk) (length (tk_dict tk)) zstd_level) to_bytes) (\<lambda>dict_col.
         and_then (and_then (encode_u8 lib widths zstd_level) to_bytes) (\<lambda>w_col.
         and_then (and_then (encode_i64 lib values zstd_level) to_bytes) (\<lambda>v_col.
         and_then (and_then (encode_str lib strs (length strs) zstd_level) to_bytes) (\<lambda>s_col.
         if length (tk_dict tk) > U32_MAX then Inl (ExceedsU32 ''templates'' (length (tk_dict tk)))
         else if length values > U32_MAX then Inl (ExceedsU32 ''num vars'' (length values))
         else if length strs > U32_MAX then Inl (ExceedsU32 ''str vars'' (length strs))
         else
           let cols = [ids_col, dict_col, w_col, v_col, s_col]
           in and_then (collect_r sub_len cols) (\<lambda>lens.
              Inr ((if split_runs then 0 else 1) # u32_le (of_nat (length (tk_dict tk))) @
                u32_le (of_nat (length values)) @ u32_le (of_nat (length strs)) @ concat lens @ concat cols)))))))))"

definition encode_template_str :: "codec_lib \<Rightarrow> str list \<Rightarrow> int \<Rightarrow> bytes res" where
  "encode_template_str lib msgs zstd_level =
     and_then (encode_mode lib msgs True zstd_level) (\<lambda>split.
     and_then (encode_mode lib msgs False zstd_level) (\<lambda>whole.
     Inr (if length split \<le> length whole then split else whole)))"

subsection \<open>Decoding\<close>

record group =
  g_kind :: var_kind
  g_start :: nat
  g_len :: nat

text \<open>\<open>id as usize\<close> of an \<open>i64\<close> reads the bits unsigned.\<close>

definition as_usize :: "i64 \<Rightarrow> nat" where
  "as_usize i = unat (i64_bits i)"

fun count_slots :: "i64 \<Rightarrow> nat \<Rightarrow> nat \<Rightarrow> (group_key, nat) btree \<Rightarrow> (group_key, nat) btree" where
  "count_slots i slot 0 sizes = sizes"
| "count_slots i slot (Suc m) sizes =
     (let k = (i, of_nat slot)
      in count_slots i (Suc slot) m (bt_insert k (bt_or_default 0 sizes k + 1) sizes))"

fun count_groups ::
  "var_kind list list \<Rightarrow> i64 list \<Rightarrow> (group_key, nat) btree \<Rightarrow> (group_key, nat) btree res" where
  "count_groups kinds_by_id [] sizes = Inr sizes"
| "count_groups kinds_by_id (i # ids) sizes =
     and_then (index_r ''kinds_by_id'' kinds_by_id (as_usize i)) (\<lambda>kinds.
     count_groups kinds_by_id ids (count_slots i 0 (length kinds) sizes))"

fun layout_loop ::
  "var_kind list list \<Rightarrow> (group_key, nat) btree \<Rightarrow> nat list \<Rightarrow> group list \<Rightarrow> nat \<Rightarrow> nat \<Rightarrow>
     (nat list \<times> group list \<times> nat \<times> nat) res" where
  "layout_loop kinds_by_id [] base groups num_off str_off = Inr (base, groups, num_off, str_off)"
| "layout_loop kinds_by_id (((i, slot), cnt) # sizes) base groups num_off str_off =
     and_then (index_r ''base'' base (as_usize i)) (\<lambda>b.
     let base = (if b = USIZE_MAX then base[as_usize i := length groups] else base) in
     and_then (index_r ''kinds_by_id'' kinds_by_id (as_usize i)) (\<lambda>kinds.
     and_then (index_r ''slot'' kinds (unat slot)) (\<lambda>kind.
     case kind of
       VNum \<Rightarrow> layout_loop kinds_by_id sizes base
         (groups @ [\<lparr>g_kind = kind, g_start = num_off, g_len = cnt\<rparr>]) (num_off + cnt) str_off
     | VStr \<Rightarrow> layout_loop kinds_by_id sizes base
         (groups @ [\<lparr>g_kind = kind, g_start = str_off, g_len = cnt\<rparr>]) num_off (str_off + cnt))))"

definition group_layout ::
  "i64 list \<Rightarrow> var_kind list list \<Rightarrow> nat \<Rightarrow> nat \<Rightarrow> (nat list \<times> group list) res" where
  "group_layout ids kinds_by_id num_n str_n =
     and_then (count_groups kinds_by_id ids []) (\<lambda>sizes.
     and_then (layout_loop kinds_by_id sizes (replicate (length kinds_by_id) USIZE_MAX) [] 0 0)
       (\<lambda>(base, groups, num_off, str_off).
     if num_off \<noteq> num_n \<or> str_off \<noteq> str_n then
       Inl (Invalid ''template column: slot totals disagree with header'')
     else Inr (base, groups)))"

text \<open>The slots of one message, from the group at position \<open>p\<close> on: what they read, and the cursors.\<close>

fun read_slots ::
  "bytes \<Rightarrow> i64 list \<Rightarrow> str list \<Rightarrow> var_kind list \<Rightarrow> nat \<Rightarrow> nat list \<Rightarrow>
     ((bytes \<times> i64 list \<times> str list) \<times> nat list) res" where
  "read_slots widths values strs [] p cursors = Inr (([], [], []), cursors)"
| "read_slots widths values strs (kind # kinds) p cursors =
     (if p < length cursors then
        let c = cursors ! p in
        case kind of
          VNum \<Rightarrow>
            and_then (index_r ''widths'' widths c) (\<lambda>w.
            and_then (index_r ''values'' values c) (\<lambda>v.
            and_then (read_slots widths values strs kinds (Suc p) (cursors[p := Suc c])) (\<lambda>((ws, vs, ss), cs).
            Inr ((w # ws, v # vs, ss), cs))))
        | VStr \<Rightarrow>
            and_then (index_r ''strs'' strs c) (\<lambda>s.
            and_then (read_slots widths values strs kinds (Suc p) (cursors[p := Suc c])) (\<lambda>((ws, vs, ss), cs).
            Inr ((ws, vs, s # ss), cs)))
      else Inl (Invalid ''template column: missing group cursor''))"

fun read_messages ::
  "str list \<Rightarrow> var_kind list list \<Rightarrow> nat list \<Rightarrow> bytes \<Rightarrow> i64 list \<Rightarrow> str list \<Rightarrow> i64 list \<Rightarrow> nat list \<Rightarrow>
     str list res" where
  "read_messages dict kinds_by_id base widths values strs [] cursors = Inr []"
| "read_messages dict kinds_by_id base widths values strs (i # ids) cursors =
     and_then (index_r ''dict'' dict (as_usize i)) (\<lambda>template.
     and_then (index_r ''kinds_by_id'' kinds_by_id (as_usize i)) (\<lambda>kinds.
     and_then (index_r ''base'' base (as_usize i)) (\<lambda>b.
     and_then (read_slots widths values strs kinds b cursors) (\<lambda>((ws, vs, ss), cursors).
     and_then (detokenize template ws vs ss) (\<lambda>msg.
     and_then (read_messages dict kinds_by_id base widths values strs ids cursors) (\<lambda>msgs.
     Inr (msg # msgs)))))))"

fun take_columns :: "nat list \<Rightarrow> reader \<Rightarrow> (bytes list \<times> reader) res" where
  "take_columns [] r = Inr ([], r)"
| "take_columns (n # ns) r =
     and_then (reader_take r n ''template sub-column'') (\<lambda>(c, r).
     and_then (take_columns ns r) (\<lambda>(cs, r). Inr (c # cs, r)))"

fun read_u32s :: "nat \<Rightarrow> reader \<Rightarrow> (nat list \<times> reader) res" where
  "read_u32s 0 r = Inr ([], r)"
| "read_u32s (Suc k) r =
     and_then (reader_u32 r ''template column header'') (\<lambda>(x, r).
     and_then (read_u32s k r) (\<lambda>(xs, r). Inr (unat x # xs, r)))"

text \<open>
  The header and the stored sub-columns: the mode, the three counts, the columns and the reader behind
  them, which the decoders want at the end of the bytes.
\<close>

definition read_template_parts :: "bytes \<Rightarrow> ((byte \<times> nat \<times> nat \<times> nat \<times> bytes list) \<times> reader) res" where
  "read_template_parts b =
     and_then (reader_u8 (reader_new b) ''template column mode'') (\<lambda>(mode, r).
     and_then (reader_u32 r ''template dict count'') (\<lambda>(dict_n, r).
     and_then (reader_u32 r ''template num-var count'') (\<lambda>(num_n, r).
     and_then (reader_u32 r ''template str-var count'') (\<lambda>(str_n, r).
     and_then (read_u32s 5 r) (\<lambda>(lens, r).
     and_then (take_columns lens r) (\<lambda>(stored, r).
     Inr ((mode, unat dict_n, unat num_n, unat str_n, stored), r)))))))"

definition read_template_header :: "bytes \<Rightarrow> (byte \<times> nat \<times> nat \<times> nat \<times> bytes list) res" where
  "read_template_header b =
     and_then (read_template_parts b) (\<lambda>(parts, r).
     if reader_remaining r \<noteq> 0 then Inl (Trailing ''template column'' (reader_remaining r))
     else Inr parts)"

record template_block =
  tb_mode :: byte
  tb_ids :: "i64 list"
  tb_dict :: "str list"
  tb_widths :: bytes
  tb_values :: "i64 list"
  tb_strs :: "str list"
  tb_base :: "nat list"
  tb_groups :: "group list"

text \<open>What both decoders read and check before they walk the messages.\<close>

definition read_template_block :: "codec_lib \<Rightarrow> bytes \<Rightarrow> nat \<Rightarrow> template_block res" where
  "read_template_block lib b n =
     and_then (read_template_header b) (\<lambda>(mode, dict_n, num_n, str_n, stored).
     and_then (decode_i64 lib (stored ! 0) n) (\<lambda>ids.
     and_then (decode_str lib (stored ! 1) dict_n) (\<lambda>dict.
     and_then (decode_u8 lib (stored ! 2) num_n) (\<lambda>widths.
     and_then (decode_i64 lib (stored ! 3) num_n) (\<lambda>values.
     and_then (decode_str lib (stored ! 4) str_n) (\<lambda>strs.
     if \<not> list_all (\<lambda>i. 0 \<le> i64_int i \<and> as_usize i < dict_n) ids then
       Inl (Invalid ''template column: entry references a template out of range'')
     else
       and_then (group_layout ids (map slot_kinds dict) num_n str_n) (\<lambda>(base, groups).
       Inr \<lparr>tb_mode = mode, tb_ids = ids, tb_dict = dict, tb_widths = widths, tb_values = values,
         tb_strs = strs, tb_base = base, tb_groups = groups\<rparr>)))))))"

definition decode_template_str :: "codec_lib \<Rightarrow> bytes \<Rightarrow> nat \<Rightarrow> str list res" where
  "decode_template_str lib b n =
     and_then (read_template_block lib b n) (\<lambda>tb.
     and_then (alloc_r n 24) (\<lambda>_.
     read_messages (tb_dict tb) (map slot_kinds (tb_dict tb)) (tb_base tb) (tb_widths tb) (tb_values tb) (tb_strs tb)
       (tb_ids tb) (map g_start (tb_groups tb))))"

subsection \<open>Groups\<close>

text \<open>The variables of a (template, slot) in message order.\<close>

primrec occ :: "group_key \<Rightarrow> (i64 \<times> var list) list \<Rightarrow> var list" where
  "occ k [] = []"
| "occ k (m # ms) =
     (if fst m = fst k \<and> unat (snd k) < length (snd m) then [snd m ! unat (snd k)] else []) @ occ k ms"

lemma occ_append [simp]: "occ k (ms @ ms') = occ k ms @ occ k ms'"
  by (induction ms) simp_all

lemma bt_or_default_insert [simp]:
  "bt_wf m \<Longrightarrow> bt_or_default d (bt_insert k v m) k' = (if k' = k then v else bt_or_default d m k')"
  by (simp add: bt_or_default_def)

lemma bt_insert_values: "snd ` set (bt_insert k v m) \<subseteq> insert v (snd ` set m)"
  by (induction k v m rule: bt_insert.induct) auto

lemma bt_insert_map: "bt_insert k (f v) (map (apsnd f) m) = map (apsnd f) (bt_insert k v m)"
  by (induction k v m rule: bt_insert.induct) auto

lemma bt_or_default_map: "bt_or_default (f d) (map (apsnd f) m) k = f (bt_or_default d m k)"
  by (induction m) (auto simp: bt_or_default_def split: if_splits)

lemma unat_of_nat_u32: "slot < 2 ^ 32 \<Longrightarrow> unat (of_nat slot :: u32) = slot"
  by (simp add: unat_of_nat take_bit_nat_eq_self)

lemma of_nat_u32_eq: "slot < 2 ^ 32 \<Longrightarrow> (of_nat slot :: u32) = s \<longleftrightarrow> slot = unat s"
  by (auto simp: unat_of_nat take_bit_nat_eq_self)

lemma group_slots_wf: "bt_wf g \<Longrightarrow> bt_wf (group_slots i slot vars g)"
  by (induction i slot vars g rule: group_slots.induct) (simp_all add: Let_def)

lemma group_slots_nonempty:
  "[] \<notin> snd ` set g \<Longrightarrow> [] \<notin> snd ` set (group_slots i slot vars g)"
proof (induction i slot vars g rule: group_slots.induct)
  case (2 i slot v vars g)
  let ?k = "(i, of_nat slot) :: group_key"
  have "[] \<notin> snd ` set (bt_insert ?k (bt_or_default [] g ?k @ [v]) g)"
    using bt_insert_values [of ?k "bt_or_default [] g ?k @ [v]" g] 2(2) by auto
  then show ?case using 2(1) [OF refl] by (simp add: Let_def)
qed simp

lemma group_slots_get:
  "bt_wf g \<Longrightarrow> slot + length vars \<le> 2 ^ 32 \<Longrightarrow>
   bt_or_default [] (group_slots i slot vars g) k = bt_or_default [] g k @
     (if fst k = i \<and> slot \<le> unat (snd k) \<and> unat (snd k) < slot + length vars
      then [vars ! (unat (snd k) - slot)] else [])"
proof (induction i slot vars g rule: group_slots.induct)
  case (2 i slot v vars g)
  let ?k = "(i, of_nat slot) :: group_key"
  have k: "k = ?k \<longleftrightarrow> fst k = i \<and> slot = unat (snd k)"
    using 2(3) of_nat_u32_eq [of slot "snd k"] by (cases k) auto
  have "bt_or_default [] (group_slots i slot (v # vars) g) k =
      (if k = ?k then bt_or_default [] g k @ [v] else bt_or_default [] g k) @
      (if fst k = i \<and> Suc slot \<le> unat (snd k) \<and> unat (snd k) < Suc slot + length vars
       then [vars ! (unat (snd k) - Suc slot)] else [])"
    using 2(1) [OF refl] 2(2,3) by (simp add: Let_def)
  then show ?case using k by (auto simp: nth_Cons' Suc_le_eq)
qed simp

lemma group_vars_wf: "bt_wf g \<Longrightarrow> bt_wf (group_vars ms g)"
  by (induction ms g rule: group_vars.induct) (simp_all add: group_slots_wf)

lemma group_vars_nonempty: "[] \<notin> snd ` set g \<Longrightarrow> [] \<notin> snd ` set (group_vars ms g)"
  by (induction ms g rule: group_vars.induct) (simp_all only: group_vars.simps group_slots_nonempty not_False_eq_True)

lemma group_vars_get:
  "bt_wf g \<Longrightarrow> \<forall>m \<in> set ms. length (snd m) \<le> 2 ^ 32 \<Longrightarrow>
   bt_or_default [] (group_vars ms g) k = bt_or_default [] g k @ occ k ms"
  by (induction ms g rule: group_vars.induct) (auto simp: group_slots_wf group_slots_get)

text \<open>The groups of a block: sorted keys, and under each key its occurrences.\<close>

lemma group_vars_spec:
  assumes "\<forall>m \<in> set ms. length (snd m) \<le> 2 ^ 32"
  shows "bt_wf (group_vars ms [])"
    and "(k, vs) \<in> set (group_vars ms []) \<Longrightarrow> vs = occ k ms \<and> vs \<noteq> []"
    and "occ k ms \<noteq> [] \<Longrightarrow> (k, occ k ms) \<in> set (group_vars ms [])"
proof -
  show wf: "bt_wf (group_vars ms [])" by (rule group_vars_wf) simp
  have get: "bt_or_default [] (group_vars ms []) k = occ k ms" for k
    using group_vars_get [of "[]" ms k] assms by (simp add: bt_or_default_def)
  show "vs = occ k ms \<and> vs \<noteq> []" if "(k, vs) \<in> set (group_vars ms [])"
  proof -
    have "bt_get (group_vars ms []) k = Some vs" using that wf by (simp add: bt_get_Some_iff)
    moreover have "[] \<notin> snd ` set (group_vars ms [])" by (rule group_vars_nonempty) simp
    ultimately show ?thesis using get [of k] that by (force simp: bt_or_default_def)
  qed
  show "(k, occ k ms) \<in> set (group_vars ms [])" if "occ k ms \<noteq> []"
    using get [of k] that wf by (auto simp: bt_or_default_def bt_get_Some_iff split: option.splits)
qed

text \<open>The decoder's counting is the encoder's grouping with the variables forgotten.\<close>

lemma count_slots_map:
  "count_slots i slot (length vars) (map (apsnd length) g) = map (apsnd length) (group_slots i slot vars g)"
proof (induction i slot vars g rule: group_slots.induct)
  case (2 i slot v vars g)
  let ?k = "(i, of_nat slot) :: group_key"
  have "bt_or_default 0 (map (apsnd length) g) ?k = length (bt_or_default [] g ?k)"
    using bt_or_default_map [of length "[]" g ?k] by simp
  then have "bt_insert ?k (bt_or_default 0 (map (apsnd length) g) ?k + 1) (map (apsnd length) g) =
      map (apsnd length) (bt_insert ?k (bt_or_default [] g ?k @ [v]) g)"
    using bt_insert_map [of ?k length "bt_or_default [] g ?k @ [v]" g] by simp
  then show ?case using 2 [OF refl] by (simp only: count_slots.simps group_slots.simps Let_def list.size add.right_neutral One_nat_def add_Suc_right)
qed simp

definition fits_kinds :: "var_kind list list \<Rightarrow> (i64 \<times> var list) list \<Rightarrow> bool" where
  "fits_kinds K ms \<longleftrightarrow> (\<forall>(i, vars) \<in> set ms. as_usize i < length K \<and> K ! as_usize i = map fst vars \<and>
     length vars \<le> 2 ^ 32)"

lemma count_groups_map:
  "fits_kinds K ms \<Longrightarrow>
   count_groups K (map fst ms) (map (apsnd length) g) = Inr (map (apsnd length) (group_vars ms g))"
  by (induction ms g rule: group_vars.induct) (auto simp: fits_kinds_def count_slots_map)

subsection \<open>The layout of the groups\<close>

definition kind_of :: "var_kind list list \<Rightarrow> group_key \<Rightarrow> var_kind" where
  "kind_of K k = K ! as_usize (fst k) ! unat (snd k)"

text \<open>How many variables of a kind the groups \<open>G\<close> hold: the offset behind them in the kind's stream.\<close>

definition offs :: "var_kind list list \<Rightarrow> var_kind \<Rightarrow> (group_key, var list) btree \<Rightarrow> nat" where
  "offs K kd G = sum_list (map (\<lambda>(k, vs). if kind_of K k = kd then length vs else 0) G)"

definition lay :: "var_kind list list \<Rightarrow> (group_key, var list) btree \<Rightarrow> group list" where
  "lay K G = map (\<lambda>j. \<lparr>g_kind = kind_of K (fst (G ! j)),
     g_start = offs K (kind_of K (fst (G ! j))) (take j G), g_len = length (snd (G ! j))\<rparr>) [0..<length G]"

definition first_at :: "nat \<Rightarrow> (group_key, var list) btree \<Rightarrow> nat" where
  "first_at x G = length (takeWhile (\<lambda>(k, _). as_usize (fst k) \<noteq> x) G)"

definition base_of :: "nat \<Rightarrow> (group_key, var list) btree \<Rightarrow> nat list" where
  "base_of n G = map (\<lambda>x. if first_at x G < length G then first_at x G else USIZE_MAX) [0..<n]"

definition keys_ok :: "var_kind list list \<Rightarrow> (group_key, var list) btree \<Rightarrow> bool" where
  "keys_ok K G \<longleftrightarrow> (\<forall>(k, _) \<in> set G. as_usize (fst k) < length K \<and> unat (snd k) < length (K ! as_usize (fst k)))"

lemma offs_simps [simp]:
  "offs K kd [] = 0" "offs K kd (G @ G') = offs K kd G + offs K kd G'"
  "offs K kd ((k, vs) # G) = (if kind_of K k = kd then length vs else 0) + offs K kd G"
  by (simp_all add: offs_def)

lemma lay_snoc: "lay K (G @ [(k, vs)]) =
    lay K G @ [\<lparr>g_kind = kind_of K k, g_start = offs K (kind_of K k) G, g_len = length vs\<rparr>]"
  by (simp add: lay_def nth_append)

lemma length_lay [simp]: "length (lay K G) = length G"
  by (simp add: lay_def)

lemma first_at_le: "first_at x G \<le> length G"
  by (simp add: first_at_def length_takeWhile_le)

lemma first_at_append: "first_at x (G @ G') = (if first_at x G < length G then first_at x G else length G + first_at x G')"
  by (induction G) (auto simp: first_at_def)

lemma first_at_single: "first_at x [(k, vs)] = (if as_usize (fst k) = x then 0 else 1)"
  by (simp add: first_at_def)

lemma base_of_Nil: "base_of n [] = replicate n USIZE_MAX"
  by (simp add: base_of_def map_replicate_const)

lemma base_of_snoc:
  assumes "as_usize (fst k) < n" "length G < USIZE_MAX"
  shows "base_of n (G @ [(k, vs)]) =
    (if base_of n G ! as_usize (fst k) = USIZE_MAX then (base_of n G)[as_usize (fst k) := length G] else base_of n G)"
  using assms first_at_le [of _ G]
  by (intro nth_equalityI)
    (auto simp: base_of_def first_at_append first_at_single nth_list_update not_less le_antisym)

lemma layout_loop_spec:
  assumes "keys_ok K (pre @ G)" "length (pre @ G) < USIZE_MAX"
  shows "layout_loop K (map (apsnd length) G) (base_of (length K) pre) (lay K pre) (offs K VNum pre) (offs K VStr pre) =
    Inr (base_of (length K) (pre @ G), lay K (pre @ G), offs K VNum (pre @ G), offs K VStr (pre @ G))"
  using assms
proof (induction G arbitrary: pre)
  case (Cons x G)
  obtain i slot vs where x: "x = ((i, slot), vs)" by (metis surj_pair)
  have key: "as_usize i < length K" "unat slot < length (K ! as_usize i)"
    using Cons.prems(1) x by (auto simp: keys_ok_def)
  have "layout_loop K (map (apsnd length) G) (base_of (length K) (pre @ [x])) (lay K (pre @ [x]))
      (offs K VNum (pre @ [x])) (offs K VStr (pre @ [x])) =
    Inr (base_of (length K) ((pre @ [x]) @ G), lay K ((pre @ [x]) @ G), offs K VNum ((pre @ [x]) @ G),
      offs K VStr ((pre @ [x]) @ G))"
    using Cons.prems by (intro Cons.IH) simp_all
  moreover have "base_of (length K) (pre @ [x]) =
    (if base_of (length K) pre ! as_usize i = USIZE_MAX then (base_of (length K) pre)[as_usize i := length pre]
     else base_of (length K) pre)"
    using base_of_snoc [of "(i, slot)" "length K" pre vs] key Cons.prems(2) x by simp
  moreover have "length (base_of (length K) pre) = length K" by (simp add: base_of_def)
  ultimately show ?case
    using key x by (cases "K ! as_usize i ! unat slot") (auto simp: lay_snoc kind_of_def Let_def split: if_split_asm)
qed simp

text \<open>In sorted keys the groups of a template stand together, slot by slot.\<close>

lemma sorted_first_block:
  fixes f :: "'a \<Rightarrow> 'b::linorder"
  shows "sorted (map f xs) \<Longrightarrow> \<exists>x \<in> set xs. f x = a \<Longrightarrow>
    drop (length (takeWhile (\<lambda>x. f x \<noteq> a) xs)) xs = filter (\<lambda>x. f x = a) xs @ filter (\<lambda>x. a < f x) xs"
proof (induction xs)
  case (Cons x xs)
  show ?case
  proof (cases "f x = a")
    case True
    then have "\<forall>y \<in> set xs. a \<le> f y" using Cons.prems(1) by auto
    then have "xs = filter (\<lambda>x. f x = a) xs @ filter (\<lambda>x. a < f x) xs"
      using Cons.prems(1)
    proof (induction xs)
      case (Cons y ys)
      show ?case
      proof (cases "f y = a")
        case True
        with Cons show ?thesis by simp
      next
        case False
        then have "a < f y" using Cons.prems(1) by force
        then have "\<forall>z \<in> set (y # ys). a < f z" using Cons.prems(2) by (auto intro: less_le_trans)
        then show ?thesis by (auto intro: filter_True [symmetric] simp: filter_empty_conv)
      qed
    qed simp
    then show ?thesis using True by simp
  next
    case False
    then have "f x < a" using Cons.prems by (force simp: order.order_iff_strict)
    then show ?thesis using False Cons by auto
  qed
qed simp

lemma as_usize_inj: "as_usize i = as_usize j \<longleftrightarrow> i = j"
  by (cases i; cases j) (auto simp: as_usize_def word_unat_eq_iff)

lemma slot_keys_sorted:
  assumes "n \<le> 2 ^ 32"
  shows "sorted_wrt (<) (map (\<lambda>s. (i :: i64, of_nat s :: u32)) [0..<n])"
  unfolding sorted_wrt_map
proof (rule sorted_wrt_mono_rel [OF _ sorted_wrt_upt])
  fix x y assume "x \<in> set [0..<n]" "y \<in> set [0..<n]" "x < y"
  then have "x < 2 ^ 32" "y < 2 ^ 32" "x < y" using assms by auto
  then have "unat (of_nat x :: u32) < unat (of_nat y :: u32)" by (simp only: unat_of_nat_u32)
  then have "(of_nat x :: u32) < of_nat y" by (simp only: word_less_nat_alt)
  then show "(i, of_nat x :: u32) < (i, of_nat y)" by (simp only: less_prod_simp order_refl simp_thms)
qed

lemma slot_keys_set:
  assumes "n \<le> 2 ^ 32"
  shows "set (map (\<lambda>s. (i :: i64, of_nat s :: u32)) [0..<n]) = {k. fst k = i \<and> unat (snd k) < n}"
proof (intro set_eqI iffI)
  fix k assume "k \<in> set (map (\<lambda>s. (i, of_nat s :: u32)) [0..<n])"
  then obtain s where s: "k = (i, of_nat s)" "s < n" by auto
  then have "unat (of_nat s :: u32) = s" using assms by (intro unat_of_nat_u32) simp
  then show "k \<in> {k. fst k = i \<and> unat (snd k) < n}" using s by simp
next
  fix k :: group_key assume "k \<in> {k. fst k = i \<and> unat (snd k) < n}"
  then show "k \<in> set (map (\<lambda>s. (i, of_nat s :: u32)) [0..<n])"
    by (cases k) (auto intro!: image_eqI [where x = "unat (snd k)"])
qed

lemma occ_nonempty:
  assumes "fits_kinds K ms" "(i, vars) \<in> set ms"
  shows "occ (i, s) ms \<noteq> [] \<longleftrightarrow> unat s < length vars"
proof
  have same: "length vars' = length vars" if "(i, vars') \<in> set ms" for vars'
  proof -
    have "K ! as_usize i = map fst vars'" "K ! as_usize i = map fst vars"
      using assms that by (auto simp: fits_kinds_def)
    then show ?thesis by (metis length_map)
  qed
  assume "occ (i, s) ms \<noteq> []"
  then have "\<exists>vars'. (i, vars') \<in> set ms \<and> unat s < length vars'" by (induction ms) (auto split: if_splits)
  then show "unat s < length vars" using same by auto
next
  assume "unat s < length vars"
  with assms(2) show "occ (i, s) ms \<noteq> []" by (induction ms) auto
qed

text \<open>The keys of the groups of template \<open>i\<close>, in order.\<close>

lemma template_keys:
  assumes "fits_kinds K ms" "(i, vars) \<in> set ms"
  shows "map fst (filter (\<lambda>x. fst (fst x) = i) (group_vars ms [])) = map (\<lambda>s. (i, of_nat s)) [0..<length vars]"
proof -
  have len: "\<forall>m \<in> set ms. length (snd m) \<le> 2 ^ 32" and L: "length vars \<le> 2 ^ 32"
    using assms by (auto simp: fits_kinds_def)
  note G = group_vars_spec [OF len]
  let ?B = "filter (\<lambda>x. fst (fst x) = i) (group_vars ms [])"
  have "sorted_wrt (<) (map fst (group_vars ms []))" using G(1) by (simp add: bt_wf_def)
  then have "sorted_wrt (<) (map fst ?B)" by (simp add: sorted_wrt_map sorted_wrt_filter)
  moreover have "set (map fst ?B) = {k. fst k = i \<and> unat (snd k) < length vars}"
  proof (intro set_eqI)
    fix k :: group_key
    have "k \<in> set (map fst ?B) \<longleftrightarrow> fst k = i \<and> (\<exists>vs. (k, vs) \<in> set (group_vars ms []))" by force
    also have "\<dots> \<longleftrightarrow> fst k = i \<and> occ k ms \<noteq> []" using G(2,3) [of k] by blast
    also have "\<dots> \<longleftrightarrow> fst k = i \<and> unat (snd k) < length vars" using occ_nonempty [OF assms] by (cases k) auto
    finally show "k \<in> set (map fst ?B) \<longleftrightarrow> k \<in> {k. fst k = i \<and> unat (snd k) < length vars}" by simp
  qed
  ultimately show ?thesis
    using slot_keys_sorted [OF L, of i] slot_keys_set [OF L, of i]
    by (intro sorted_distinct_set_unique) (simp_all only: strict_sorted_iff)
qed

lemma group_position:
  assumes ms: "fits_kinds K ms" and m: "(i, vars) \<in> set ms" "slot < length vars"
  defines "G \<equiv> group_vars ms []"
  shows "first_at (as_usize i) G + slot < length G"
    and "fst (G ! (first_at (as_usize i) G + slot)) = (i, of_nat slot)"
proof -
  let ?f = "\<lambda>x :: group_key \<times> var list. fst (fst x)"
  let ?B = "filter (\<lambda>x. ?f x = i) G" and ?p = "first_at (as_usize i) G"
  have B: "map fst ?B = map (\<lambda>s. (i, of_nat s)) [0..<length vars]"
    using template_keys [OF ms m(1)] by (simp only: G_def)
  have lenB: "length ?B = length vars" using arg_cong [OF B, of length] by simp
  then have "?B \<noteq> []" using m(2) by auto
  then have "\<exists>x \<in> set G. ?f x = i" by (simp add: filter_empty_conv)
  moreover have "sorted_wrt (\<lambda>x y. fst x < fst y) G"
    using group_vars_wf [of "[]" ms] by (simp add: bt_wf_def sorted_wrt_map G_def)
  then have "sorted (map ?f G)"
    unfolding sorted_wrt_map by (rule sorted_wrt_mono_rel [rotated]) (auto simp: less_prod_def)
  ultimately have "drop (length (takeWhile (\<lambda>x. ?f x \<noteq> i) G)) G = ?B @ filter (\<lambda>x. i < ?f x) G"
    by (intro sorted_first_block)
  then have D: "drop ?p G = ?B @ filter (\<lambda>x. i < ?f x) G"
    by (simp add: first_at_def as_usize_inj split_def)
  with lenB m(2) have "slot < length (drop ?p G)" by simp
  then show lt: "?p + slot < length G" by simp
  have "G ! (?p + slot) = drop ?p G ! slot" using lt by simp
  also have "\<dots> = ?B ! slot" using D m(2) lenB by (simp add: nth_append)
  finally show "fst (G ! (?p + slot)) = (i, of_nat slot)"
    using arg_cong [OF B, of "\<lambda>l. l ! slot"] m(2) lenB by simp
qed

subsection \<open>The cursors\<close>

text \<open>The cursors after the messages \<open>done\<close> have been read.\<close>

definition cursors_at :: "var_kind list list \<Rightarrow> (group_key, var list) btree \<Rightarrow> (i64 \<times> var list) list \<Rightarrow> nat list" where
  "cursors_at K G fin = map (\<lambda>j. offs K (kind_of K (fst (G ! j))) (take j G) + length (occ (fst (G ! j)) fin)) [0..<length G]"

lemma length_cursors_at [simp]: "length (cursors_at K G fin) = length G"
  by (simp add: cursors_at_def)

lemma cursors_start: "map g_start (lay K G) = cursors_at K G []"
  by (simp add: lay_def cursors_at_def)

text \<open>What reading the slots yields, when every cursor is inside its stream.\<close>

definition in_stream :: "bytes \<Rightarrow> i64 list \<Rightarrow> str list \<Rightarrow> var_kind \<Rightarrow> nat \<Rightarrow> bool" where
  "in_stream W V S k c \<longleftrightarrow> (case k of VNum \<Rightarrow> c < length W \<and> c < length V | VStr \<Rightarrow> c < length S)"

lemma read_slots_ok:
  assumes "\<forall>s < length kinds. p + s < length cs \<and> in_stream W V S (kinds ! s) (cs ! (p + s))"
  shows "read_slots W V S kinds p cs = Inr
    ((map (\<lambda>(j, _). W ! (cs ! j)) (filter (\<lambda>(_, k). k = VNum) (enumerate p kinds)),
      map (\<lambda>(j, _). V ! (cs ! j)) (filter (\<lambda>(_, k). k = VNum) (enumerate p kinds)),
      map (\<lambda>(j, _). S ! (cs ! j)) (filter (\<lambda>(_, k). k = VStr) (enumerate p kinds))),
     map (\<lambda>j. if p \<le> j \<and> j < p + length kinds then Suc (cs ! j) else cs ! j) [0..<length cs])"
  using assms
proof (induction kinds arbitrary: p cs)
  case Nil
  then show ?case by (auto intro: nth_equalityI)
next
  case (Cons k kinds)
  let ?cs = "cs[p := Suc (cs ! p)]"
  have p: "p < length cs" "in_stream W V S k (cs ! p)" using Cons.prems by force+
  have q: "\<forall>s < length kinds. Suc p + s < length ?cs \<and> in_stream W V S (kinds ! s) (?cs ! (Suc p + s))"
    using Cons.prems by (auto dest: spec [of _ "Suc _"])
  have cursors: "map (\<lambda>j. if Suc p \<le> j \<and> j < Suc p + length kinds then Suc (?cs ! j) else ?cs ! j) [0..<length ?cs] =
      map (\<lambda>j. if p \<le> j \<and> j < p + length (k # kinds) then Suc (cs ! j) else cs ! j) [0..<length cs]"
    by (auto simp: nth_list_update not_less_eq_eq intro: le_antisym arg_cong [of _ _ "(!) cs"])
  show ?case
    using p
    by (cases k) (auto simp: in_stream_def Let_def Cons.IH [OF q] cursors nth_list_update not_less_eq_eq
        in_set_enumerate_eq        intro: le_antisym arg_cong [of _ _ "(!) cs"])
qed

lemma group_at:
  assumes "fits_kinds K ms" "j < length (group_vars ms [])"
  shows "snd (group_vars ms [] ! j) = occ (fst (group_vars ms [] ! j)) ms"
proof -
  have "\<forall>m \<in> set ms. length (snd m) \<le> 2 ^ 32" using assms(1) by (auto simp: fits_kinds_def)
  from group_vars_spec(2) [OF this, of "fst (group_vars ms [] ! j)" "snd (group_vars ms [] ! j)"] assms(2)
  show ?thesis by simp
qed

lemma offs_at:
  assumes "j < length G"
  shows "offs K kd (take j G) + (if kind_of K (fst (G ! j)) = kd then length (snd (G ! j)) else 0) \<le> offs K kd G"
proof -
  have "G = take j G @ (fst (G ! j), snd (G ! j)) # drop (Suc j) G" using assms by (simp add: id_take_nth_drop)
  then have "offs K kd G = offs K kd (take j G @ (fst (G ! j), snd (G ! j)) # drop (Suc j) G)" by simp
  then show ?thesis unfolding offs_simps by simp
qed

text \<open>One message: its slots' cursors are inside the streams, at the message's own variables.\<close>

lemma slot_cursor:
  assumes ms: "fits_kinds K (fin @ (i, vars) # after)" and s: "s < length vars"
  defines "G \<equiv> group_vars (fin @ (i, vars) # after) []"
  defines "j \<equiv> first_at (as_usize i) G + s" and "c \<equiv> cursors_at K G fin ! (first_at (as_usize i) G + s)"
  shows "j < length G" "fst (G ! j) = (i, of_nat s)" "kind_of K (fst (G ! j)) = fst (vars ! s)"
    and "c = offs K (fst (vars ! s)) (take j G) + length (occ (i, of_nat s) fin)"
    and "snd (G ! j) = occ (i, of_nat s) fin @ vars ! s # occ (i, of_nat s) after"
    and "c < offs K (fst (vars ! s)) G"
proof -
  have m: "(i, vars) \<in> set (fin @ (i, vars) # after)" by simp
  show j: "j < length G" and k: "fst (G ! j) = (i, of_nat s)"
    using group_position [OF ms m s] by (simp_all only: j_def G_def)
  have len: "length vars \<le> 2 ^ 32" and K: "K ! as_usize i = map fst vars"
    using ms by (auto simp: fits_kinds_def)
  then have u: "unat (of_nat s :: u32) = s" using s by (intro unat_of_nat_u32) simp
  show kind: "kind_of K (fst (G ! j)) = fst (vars ! s)" using K s u by (simp add: kind_of_def k)
  show snd: "snd (G ! j) = occ (i, of_nat s) fin @ vars ! s # occ (i, of_nat s) after"
    using group_at [OF ms, folded G_def, OF j] k u s by simp
  show c: "c = offs K (fst (vars ! s)) (take j G) + length (occ (i, of_nat s) fin)"
    using j kind k by (simp add: c_def cursors_at_def j_def [symmetric])
  show "c < offs K (fst (vars ! s)) G" using offs_at [OF j, of K "fst (vars ! s)"] kind snd c by simp
qed

lemma cursors_step:
  assumes ms: "fits_kinds K (fin @ (i, vars) # after)"
  defines "G \<equiv> group_vars (fin @ (i, vars) # after) []"
  defines "p \<equiv> first_at (as_usize i) G"
  shows "map (\<lambda>j. if p \<le> j \<and> j < p + length vars then Suc (cursors_at K G fin ! j) else cursors_at K G fin ! j)
    [0..<length (cursors_at K G fin)] = cursors_at K G (fin @ [(i, vars)])"
proof -
  have step: "length (occ (fst (G ! j)) [(i, vars)]) = (if p \<le> j \<and> j < p + length vars then 1 else 0)"
    if j: "j < length G" for j
  proof (cases "p \<le> j \<and> j < p + length vars")
    case True
    then obtain s where s: "j = p + s" "s < length vars" by (metis le_add_diff_inverse add_less_cancel_left)
    have "length vars \<le> 2 ^ 32" using ms by (auto simp: fits_kinds_def)
    then have "unat (of_nat s :: u32) = s" using s by (intro unat_of_nat_u32) simp
    then show ?thesis using True slot_cursor(2) [OF ms s(2)] s by (simp add: G_def p_def)
  next
    case False
    have "\<not> (fst (fst (G ! j)) = i \<and> unat (snd (fst (G ! j))) < length vars)"
    proof
      assume k: "fst (fst (G ! j)) = i \<and> unat (snd (fst (G ! j))) < length vars"
      let ?s = "unat (snd (fst (G ! j)))"
      have "p + ?s < length G" "fst (G ! (p + ?s)) = (i, of_nat ?s)"
        using slot_cursor(1,2) [OF ms, of ?s] k by (simp_all only: G_def p_def)
      moreover have "(i, of_nat ?s) = fst (G ! j)" using k by (cases "fst (G ! j)") simp
      moreover have "distinct (map fst G)" by (simp add: G_def bt_wf_distinct group_vars_wf)
      ultimately have "p + ?s = j" using j by (metis distinct_conv_nth length_map nth_map)
      with False k show False by auto
    qed
    with False show ?thesis by auto
  qed
  have "(if p \<le> j \<and> j < p + length vars then Suc (cursors_at K G fin ! j) else cursors_at K G fin ! j) =
      cursors_at K G (fin @ [(i, vars)]) ! j" if "j < length G" for j
    using step [OF that] that by (simp add: cursors_at_def del: occ.simps)
  then show ?thesis
    by (intro nth_equalityI) (simp_all only: length_map length_upt length_cursors_at diff_zero nth_map nth_upt add_0)
qed

text \<open>For streams of the right length no read leaves them, whatever the messages.\<close>

lemma enumerate_of_map: "enumerate p (map f xs) = map (\<lambda>(j, x). (j, f x)) (enumerate p xs)"
  by (induction xs arbitrary: p) simp_all

lemma read_slots_at:
  assumes ms: "fits_kinds K (fin @ (i, vars) # after)"
  defines "G \<equiv> group_vars (fin @ (i, vars) # after) []"
  assumes "length W = offs K VNum G" "length V = offs K VNum G" "length S = offs K VStr G"
  defines "cs \<equiv> cursors_at K G fin" and "p \<equiv> first_at (as_usize i) G"
  shows "read_slots W V S (map fst vars) p cs = Inr
    ((map (\<lambda>(j, _). W ! (cs ! j)) (filter (\<lambda>(_, v). fst v = VNum) (enumerate p vars)),
      map (\<lambda>(j, _). V ! (cs ! j)) (filter (\<lambda>(_, v). fst v = VNum) (enumerate p vars)),
      map (\<lambda>(j, _). S ! (cs ! j)) (filter (\<lambda>(_, v). fst v = VStr) (enumerate p vars))),
     cursors_at K G (fin @ [(i, vars)]))"
proof -
  have "p + s < length cs \<and> in_stream W V S (map fst vars ! s) (cs ! (p + s))" if s: "s < length (map fst vars)" for s
  proof -
    have "s < length vars" using s by simp
    note c = slot_cursor [OF ms this, folded G_def]
    show ?thesis using c(1,6) assms(3-5) s
      by (cases "fst (vars ! s)") (simp_all add: in_stream_def cs_def p_def)
  qed
  then have "\<forall>s < length (map fst vars). p + s < length cs \<and> in_stream W V S (map fst vars ! s) (cs ! (p + s))" by blast
  from read_slots_ok [OF this, unfolded cs_def p_def] cursors_step [OF ms, folded G_def]
  show ?thesis unfolding cs_def p_def
    by (simp add: enumerate_of_map filter_map comp_def split_def)
qed

subsection \<open>The streams\<close>

definition homog :: "var_kind list list \<Rightarrow> (group_key, var list) btree \<Rightarrow> bool" where
  "homog K G \<longleftrightarrow> (\<forall>(k, vs) \<in> set G. \<forall>v \<in> set vs. fst v = kind_of K k)"

lemma occ_in: "v \<in> set (occ k ms) \<Longrightarrow> \<exists>vars. (fst k, vars) \<in> set ms \<and> unat (snd k) < length vars \<and> v = vars ! unat (snd k)"
  by (induction ms) (auto split: if_splits)

lemma group_vars_homog:
  assumes "fits_kinds K ms"
  shows "homog K (group_vars ms [])" "keys_ok K (group_vars ms [])"
proof -
  have "\<forall>m \<in> set ms. length (snd m) \<le> 2 ^ 32" using assms by (auto simp: fits_kinds_def)
  note G = group_vars_spec(2) [OF this]
  have ex: "\<exists>vars. (fst k, vars) \<in> set ms \<and> unat (snd k) < length vars \<and> v = vars ! unat (snd k)"
    if "(k, vs) \<in> set (group_vars ms [])" "v \<in> set vs" for k vs v
    using G [OF that(1)] that(2) occ_in by blast
  have K: "as_usize (fst k) < length K \<and> K ! as_usize (fst k) = map fst vars" if "(fst k, vars) \<in> set ms" for k :: group_key and vars
    using assms that by (auto simp: fits_kinds_def)
  show "homog K (group_vars ms [])"
    unfolding homog_def using ex K by (fastforce simp: kind_of_def)
  show "keys_ok K (group_vars ms [])"
    unfolding keys_ok_def
  proof clarify
    fix i s vs assume a: "((i, s), vs) \<in> set (group_vars ms [])"
    then obtain v where "v \<in> set vs" using G [OF a] by (meson last_in_set)
    from ex [OF a this] K show "as_usize (fst (i, s)) < length K \<and> unat (snd (i, s)) < length (K ! as_usize (fst (i, s)))"
      by fastforce
  qed
qed

lemma kinded_length: "homog K G \<Longrightarrow> length (filter (\<lambda>v. fst v = kd) (concat (map snd G))) = offs K kd G"
proof (induction G)
  case (Cons x G)
  obtain k vs where x: "x = (k, vs)" by (cases x)
  have "\<forall>v \<in> set vs. fst v = kind_of K k" using Cons.prems x by (auto simp: homog_def)
  then have "filter (\<lambda>v. fst v = kd) vs = (if kind_of K k = kd then vs else [])"
    by (auto simp: filter_empty_conv intro: filter_True)
  moreover have "homog K G" using Cons.prems by (simp add: homog_def)
  ultimately show ?case using Cons.IH x by simp
qed simp

lemma kinded_nth:
  assumes h: "homog K G" and j: "j < length G" and t: "t < length (snd (G ! j))"
  shows "filter (\<lambda>v. fst v = kind_of K (fst (G ! j))) (concat (map snd G)) ! (offs K (kind_of K (fst (G ! j))) (take j G) + t) =
    snd (G ! j) ! t"
proof -
  let ?kd = "kind_of K (fst (G ! j))" and ?P = "\<lambda>xs. filter (\<lambda>v. fst v = kind_of K (fst (G ! j))) xs"
  have "G ! j \<in> set G" using j by simp
  then have "\<forall>v \<in> set (snd (G ! j)). fst v = ?kd" using h by (auto simp: homog_def split_def)
  then have "?P (snd (G ! j)) = snd (G ! j)" by simp
  moreover have "concat (map snd G) = concat (map snd (take j G)) @ snd (G ! j) @ concat (map snd (drop (Suc j) G))"
    using arg_cong [OF id_take_nth_drop [OF j], of "\<lambda>G. concat (map snd G)"]
    by (simp only: map_append list.map concat_append concat.simps)
  moreover have "length (?P (concat (map snd (take j G)))) = offs K ?kd (take j G)"
    using h by (intro kinded_length) (auto simp: homog_def dest: in_set_takeD)
  ultimately show ?thesis using t by (simp add: nth_append)
qed

text \<open>A slot's cursor points at the message's own variable in the stream of its kind.\<close>

lemma cursor_var:
  assumes ms: "fits_kinds K (fin @ (i, vars) # after)" and s: "s < length vars"
  defines "G \<equiv> group_vars (fin @ (i, vars) # after) []"
  shows "filter (\<lambda>v. fst v = fst (vars ! s)) (concat (map snd G)) ! (cursors_at K G fin ! (first_at (as_usize i) G + s)) = vars ! s"
proof -
  note c = slot_cursor [OF ms s, folded G_def]
  show ?thesis
    using kinded_nth [OF group_vars_homog(1) [OF ms, folded G_def] c(1), of "length (occ (i, of_nat s) fin)"] c
    by simp
qed

lemma map_filter_enumerate:
  assumes "\<And>s. s < length vars \<Longrightarrow> fst (vars ! s) = kd \<Longrightarrow> f (p + s) = h (vars ! s)"
  shows "map (\<lambda>(j, _). f j) (filter (\<lambda>(_, v). fst v = kd) (enumerate p vars)) = map h (filter (\<lambda>v. fst v = kd) vars)"
  using assms
proof (induction vars arbitrary: p)
  case (Cons v vars)
  have "f (Suc p + s) = h (vars ! s)" if "s < length vars" "fst (vars ! s) = kd" for s
    using Cons.prems [of "Suc s"] that by simp
  then show ?case using Cons.IH [of "Suc p"] Cons.prems [of 0] by simp
qed simp

lemma not_is_num: "\<not> is_num v \<longleftrightarrow> fst v = VStr"
  by (cases "fst v") (simp_all add: is_num_def)

lemma filter_is_num:
  "filter is_num vs = filter (\<lambda>v. fst v = VNum) vs" "filter (\<lambda>v. \<not> is_num v) vs = filter (\<lambda>v. fst v = VStr) vs"
  by (simp_all add: is_num_def [abs_def] not_is_num [unfolded is_num_def])

lemma read_slots_vars:
  assumes ms: "fits_kinds K (fin @ (i, vars) # after)"
  defines "G \<equiv> group_vars (fin @ (i, vars) # after) []"
  defines "vs \<equiv> concat (map snd G)"
  shows "read_slots (var_widths vs) (var_values vs) (var_strs vs) (map fst vars) (first_at (as_usize i) G) (cursors_at K G fin) =
    Inr ((var_widths vars, var_values vars, var_strs vars), cursors_at K G (fin @ [(i, vars)]))"
proof -
  let ?p = "first_at (as_usize i) G" and ?cs = "cursors_at K G fin"
  have nums: "length (filter is_num vs) = offs K VNum G"
    using kinded_length [OF group_vars_homog(1) [OF ms, folded G_def], of VNum] by (simp add: vs_def filter_is_num)
  have strs: "length (filter (\<lambda>v. \<not> is_num v) vs) = offs K VStr G"
    using kinded_length [OF group_vars_homog(1) [OF ms, folded G_def], of VStr] by (simp add: vs_def filter_is_num)
  have at: "?cs ! (?p + s) < offs K kd G \<and> filter (\<lambda>v. fst v = kd) vs ! (?cs ! (?p + s)) = vars ! s"
    if "s < length vars" "fst (vars ! s) = kd" for s kd
    using slot_cursor(6) [OF ms that(1), folded G_def] cursor_var [OF ms that(1), folded G_def] that(2) by (simp add: vs_def)
  have "read_slots (var_widths vs) (var_values vs) (var_strs vs) (map fst vars) ?p ?cs = Inr
    ((map (\<lambda>(j, _). var_widths vs ! (?cs ! j)) (filter (\<lambda>(_, v). fst v = VNum) (enumerate ?p vars)),
      map (\<lambda>(j, _). var_values vs ! (?cs ! j)) (filter (\<lambda>(_, v). fst v = VNum) (enumerate ?p vars)),
      map (\<lambda>(j, _). var_strs vs ! (?cs ! j)) (filter (\<lambda>(_, v). fst v = VStr) (enumerate ?p vars))),
     cursors_at K G (fin @ [(i, vars)]))"
    unfolding G_def by (rule read_slots_at [OF ms])
      (simp_all only: var_widths_def var_values_def var_strs_def length_map nums strs G_def [symmetric])
  moreover have "map (\<lambda>(j, _). var_widths vs ! (?cs ! j)) (filter (\<lambda>(_, v). fst v = VNum) (enumerate ?p vars)) = var_widths vars"
    unfolding var_widths_def filter_is_num
    by (rule map_filter_enumerate) (use at [of _ VNum] nums in \<open>simp add: filter_is_num\<close>)
  moreover have "map (\<lambda>(j, _). var_values vs ! (?cs ! j)) (filter (\<lambda>(_, v). fst v = VNum) (enumerate ?p vars)) = var_values vars"
    unfolding var_values_def filter_is_num
    by (rule map_filter_enumerate) (use at [of _ VNum] nums in \<open>simp add: filter_is_num\<close>)
  moreover have "map (\<lambda>(j, _). var_strs vs ! (?cs ! j)) (filter (\<lambda>(_, v). fst v = VStr) (enumerate ?p vars)) = var_strs vars"
    unfolding var_strs_def filter_is_num
    by (rule map_filter_enumerate) (use at [of _ VStr] strs in \<open>simp add: filter_is_num\<close>)
  ultimately show ?thesis by simp
qed

end
