(* ===== verification/TemplateFacts.thy ===== *)
theory TemplateFacts
  imports TemplateColumn StoredLib "HOL-Library.Multiset"
begin

section \<open>What the template column promises\<close>

text \<open>
  The walk of the decoder over the messages, what the dictionary of a block holds, and from both the
  round trip and the safety of \<open>decode_template_str\<close>.
\<close>

subsection \<open>The decoder's walk\<close>

lemma group_layout_spec:
  assumes "fits_kinds K ms" "length (group_vars ms []) < USIZE_MAX"
  shows "group_layout (map fst ms) K num_n str_n =
    (if offs K VNum (group_vars ms []) \<noteq> num_n \<or> offs K VStr (group_vars ms []) \<noteq> str_n
     then Inl (Invalid ''template column: slot totals disagree with header'')
     else Inr (base_of (length K) (group_vars ms []), lay K (group_vars ms [])))"
  using layout_loop_spec [of K "[]" "group_vars ms []"] group_vars_homog(2) [OF assms(1)] assms(2)
    count_groups_map [OF assms(1), of "[]"]
  by (simp add: group_layout_def base_of_Nil lay_def)

lemma base_at:
  assumes "fits_kinds K (fin @ (i, vars) # after)" "vars \<noteq> []"
  shows "base_of (length K) (group_vars (fin @ (i, vars) # after) []) ! as_usize i =
    first_at (as_usize i) (group_vars (fin @ (i, vars) # after) [])"
proof -
  have "as_usize i < length K" using assms(1) by (auto simp: fits_kinds_def)
  moreover have "first_at (as_usize i) (group_vars (fin @ (i, vars) # after) []) <
      length (group_vars (fin @ (i, vars) # after) [])"
    using group_position(1) [OF assms(1), of i vars 0] assms(2) by simp
  ultimately show ?thesis by (simp add: base_of_def)
qed

text \<open>Reading at the base of the template, also for a template without variables.\<close>

lemma read_slots_base:
  assumes "fits_kinds K (fin @ (i, vars) # after)"
    and "read_slots W V S (map fst vars) (first_at (as_usize i) (group_vars (fin @ (i, vars) # after) [])) cs = x"
  shows "read_slots W V S (map fst vars) (base_of (length K) (group_vars (fin @ (i, vars) # after) []) ! as_usize i) cs = x"
  using assms base_at by (cases "vars = []") simp_all

lemma read_messages_ok:
  assumes "K = map slot_kinds D" "fits_kinds K (fin @ ms)"
  defines "G \<equiv> group_vars (fin @ ms) []"
  defines "vs \<equiv> concat (map snd G)"
  assumes "list_all2 (\<lambda>(i, vars) msg. detokenize (D ! as_usize i) (var_widths vars) (var_values vars) (var_strs vars) = Inr msg)
    ms msgs"
  shows "read_messages D K (base_of (length K) G) (var_widths vs) (var_values vs) (var_strs vs) (map fst ms)
    (cursors_at K G fin) = Inr msgs"
  using assms(2,5) unfolding vs_def G_def
proof (induction ms arbitrary: fin msgs)
  case (Cons m ms)
  obtain i vars where m: "m = (i, vars)" by (cases m)
  obtain msg rst where msgs: "msgs = msg # rst"
    and d: "detokenize (D ! as_usize i) (var_widths vars) (var_values vars) (var_strs vars) = Inr msg"
    using Cons.prems(2) m by (auto simp: list_all2_Cons1)
  have fk: "fits_kinds K (fin @ (i, vars) # ms)" using Cons.prems(1) m by simp
  then have i: "as_usize i < length K" "K ! as_usize i = map fst vars" by (auto simp: fits_kinds_def)
  let ?G = "group_vars (fin @ (i, vars) # ms) []" and ?vs = "concat (map snd (group_vars (fin @ (i, vars) # ms) []))"
  have "read_messages D K (base_of (length K) ?G) (var_widths ?vs) (var_values ?vs) (var_strs ?vs) (map fst ms)
      (cursors_at K ?G (fin @ [(i, vars)])) = Inr rst"
    using Cons.IH [of "fin @ [(i, vars)]" rst] Cons.prems msgs m by simp
  moreover have "read_slots (var_widths ?vs) (var_values ?vs) (var_strs ?vs) (map fst vars)
      (base_of (length K) ?G ! as_usize i) (cursors_at K ?G fin) =
    Inr ((var_widths vars, var_values vars, var_strs vars), cursors_at K ?G (fin @ [(i, vars)]))"
    using read_slots_base [OF fk read_slots_vars [OF fk]] .
  moreover have "as_usize i < length D" "as_usize i < length (base_of (length K) ?G)"
    using i(1) assms(1) by (simp_all add: base_of_def)
  ultimately show ?case using d i m msgs by simp
qed simp

text \<open>No panic, whatever the streams hold, as long as they are as long as the header says.\<close>

lemma detokenize_no_panic: "valid_utf8 t \<Longrightarrow> \<not> is_panic (detokenize t W V S)"
proof (induction t arbitrary: W V S rule: length_induct)
  case (1 t)
  then have IH: "valid_utf8 t' \<Longrightarrow> length t' < length t \<Longrightarrow> \<not> is_panic (detokenize t' W V S)" for t' W V S by blast
  show ?case
  proof (cases t)
    case t: (Cons b r)
    show ?thesis
    proof (cases "b = SENTINEL")
      case True
      then have r: "valid_utf8 r" using "1.prems" t by (simp add: SENTINEL_def)
      show ?thesis
      proof (cases r)
        case (Cons tag r')
        have "valid_utf8 r'" if "tag = SENTINEL \<or> tag = KIND_NUM \<or> tag = KIND_STR"
          using that r Cons by (auto simp: template_bytes)
        then have "\<not> is_panic (detokenize r' W V S)" if "tag = SENTINEL \<or> tag = KIND_NUM \<or> tag = KIND_STR" for W V S
          using that IH [of r'] t Cons by simp
        with True t Cons show ?thesis
          by (auto simp: detokenize.simps(2) split: list.split if_split)
      qed (use True t in \<open>simp add: detokenize.simps(2)\<close>)
    next
      case False
      obtain k where k: "utf8_width (b # r) = Some k" "valid_utf8 (drop k (b # r))"
        using "1.prems" t by (auto elim: valid_utf8_widthE)
      have len: "utf8_char_len b = k" using k(1) by (rule utf8_char_len_width)
      have "str_split k (b # r) = Inr (take k (b # r), drop k (b # r))"
        using "1.prems" t k(2) by (simp add: str_split_def valid_utf8_boundary)
      moreover have "0 < k" using k(1) by (rule utf8_width_pos)
      ultimately show ?thesis
        using False IH [OF k(2)] t len by (simp add: detokenize.simps(2))
    qed
  qed simp
qed

lemma read_messages_no_panic:
  assumes K: "K = map slot_kinds D" and D: "\<forall>t \<in> set D. valid_utf8 t" and ms: "fits_kinds K (fin @ ms)"
  defines "G \<equiv> group_vars (fin @ ms) []"
  assumes len: "length W = offs K VNum G" "length V = offs K VNum G" "length S = offs K VStr G"
  shows "\<not> is_panic (read_messages D K (base_of (length K) G) W V S (map fst ms) (cursors_at K G fin))"
  using ms len unfolding G_def
proof (induction ms arbitrary: fin)
  case (Cons m ms)
  obtain i vars where m: "m = (i, vars)" by (cases m)
  have fk: "fits_kinds K (fin @ (i, vars) # ms)" using Cons.prems(1) m by simp
  let ?G = "group_vars (fin @ (i, vars) # ms) []"
  have i: "as_usize i < length D" "as_usize i < length (base_of (length K) ?G)" "K ! as_usize i = map fst vars"
    using fk K by (auto simp: fits_kinds_def base_of_def)
  have "\<not> is_panic (read_messages D K (base_of (length K) ?G) W V S (map fst ms) (cursors_at K ?G (fin @ [(i, vars)])))"
    using Cons.IH [of "fin @ [(i, vars)]"] Cons.prems m by simp
  moreover obtain x where
    "read_slots W V S (map fst vars) (base_of (length K) ?G ! as_usize i) (cursors_at K ?G fin) =
      Inr (x, cursors_at K ?G (fin @ [(i, vars)]))"
    using read_slots_base [OF fk read_slots_at [OF fk]] Cons.prems(2-) m by simp
  moreover have "valid_utf8 (D ! as_usize i)" using D i(1) by simp
  moreover have "slot_kinds (D ! as_usize i) = map fst vars" using i K by simp
  ultimately show ?case using i K m by (cases x) (auto simp: detokenize_no_panic)
qed simp

text \<open>There are few groups: a (template, slot) has at most one.\<close>

lemma group_count:
  assumes "fits_kinds K ms" "\<forall>ks \<in> set K. length ks \<le> b"
  shows "length (group_vars ms []) \<le> length K * b"
proof -
  let ?G = "group_vars ms []" and ?f = "\<lambda>k :: group_key. (as_usize (fst k), unat (snd k))"
  have "inj_on ?f (fst ` set ?G)"
  proof (rule inj_onI)
    fix k k' assume "?f k = ?f k'"
    then show "k = k'" by (intro prod_eqI) (simp_all add: as_usize_inj word_unat_eq_iff)
  qed
  moreover have "?f k \<in> {..<length K} \<times> {..<b}" if "(k, vs) \<in> set ?G" for k vs
  proof -
    have k: "as_usize (fst k) < length K" "unat (snd k) < length (K ! as_usize (fst k))"
      using group_vars_homog(2) [OF assms(1)] that by (auto simp: keys_ok_def)
    then have "length (K ! as_usize (fst k)) \<le> b" using assms(2) by simp
    with k show ?thesis by simp
  qed
  then have "?f ` fst ` set ?G \<subseteq> {..<length K} \<times> {..<b}" by (intro image_subsetI) auto
  then have "card (?f ` fst ` set ?G) \<le> card ({..<length K} \<times> {..<b})" by (intro card_mono) simp_all
  then have "card (?f ` fst ` set ?G) \<le> length K * b" by simp
  moreover have "card (fst ` set ?G) = length ?G"
    using bt_wf_distinct [OF group_vars_wf [OF bt_wf_Nil], of ms] distinct_card [of "map fst ?G"] by simp
  ultimately show ?thesis by (simp add: card_image)
qed

lemma length_slot_kinds: "length (slot_kinds t) \<le> length t"
  by (induction t rule: slot_kinds.induct) auto

lemma take_columns_no_panic [simp]: "\<not> is_panic (take_columns ns r)"
  by (induction ns r rule: take_columns.induct) auto

lemma take_columns_length: "take_columns ns r = Inr (cs, r') \<Longrightarrow> length cs = length ns"
  by (induction ns r arbitrary: cs rule: take_columns.induct) auto

lemma read_u32s_no_panic [simp]: "\<not> is_panic (read_u32s k r)"
  by (induction k r rule: read_u32s.induct) auto

lemma read_u32s_length: "read_u32s k r = Inr (xs, r') \<Longrightarrow> length xs = k"
  by (induction k r arbitrary: xs rule: read_u32s.induct) auto

lemma read_template_parts_no_panic [simp]: "\<not> is_panic (read_template_parts b)"
  by (auto simp: read_template_parts_def)

lemma read_template_header_no_panic [simp]: "\<not> is_panic (read_template_header b)"
  by (auto simp: read_template_header_def)

lemma read_template_parts_counts:
  "read_template_parts b = Inr ((mode, dict_n, num_n, str_n, stored), r) \<Longrightarrow> dict_n < 2 ^ 32 \<and> num_n < 2 ^ 32"
  using unsigned_less [where 'a = nat and 'b = 32]
  by (auto simp: read_template_parts_def split: if_split_asm)

lemma read_template_header_counts:
  "read_template_header b = Inr (mode, dict_n, num_n, str_n, stored) \<Longrightarrow> dict_n < 2 ^ 32 \<and> num_n < 2 ^ 32"
  by (auto simp: read_template_header_def dest: read_template_parts_counts split: if_split_asm)

definition dummy_vars :: "var_kind list list \<Rightarrow> i64 list \<Rightarrow> (i64 \<times> var list) list" where
  "dummy_vars K ids = map (\<lambda>i. (i, map (\<lambda>k. (k, [])) (K ! as_usize i))) ids"

lemma dummy_vars_fit:
  assumes "\<forall>i \<in> set ids. as_usize i < length K" "\<forall>ks \<in> set K. length ks \<le> 2 ^ 32"
  shows "fits_kinds K (dummy_vars K ids)" "map fst (dummy_vars K ids) = ids"
  using assms by (auto simp: fits_kinds_def dummy_vars_def comp_def)

text \<open>
  A block that was read is laid out as the messages (with variables of no content) would be, and its
  streams are as long as the layout says.
\<close>

definition block_ms :: "template_block \<Rightarrow> (i64 \<times> var list) list" where
  "block_ms tb = dummy_vars (map slot_kinds (tb_dict tb)) (tb_ids tb)"

definition block_ok :: "template_block \<Rightarrow> (i64 \<times> var list) list \<Rightarrow> bool" where
  "block_ok tb ms \<longleftrightarrow>
     (let K = map slot_kinds (tb_dict tb); G = group_vars ms [] in
      fits_kinds K ms \<and> map fst ms = tb_ids tb \<and> (\<forall>t \<in> set (tb_dict tb). valid_utf8 t) \<and>
      length G < USIZE_MAX \<and> tb_base tb = base_of (length K) G \<and> tb_groups tb = lay K G \<and>
      length (tb_widths tb) = offs K VNum G \<and> length (tb_values tb) = offs K VNum G \<and>
      length (tb_strs tb) = offs K VStr G)"

lemma read_template_block_no_panic:
  assumes "codec_lib_ok lib"
  shows "n * 8 \<le> ISIZE_MAX \<Longrightarrow> \<not> is_panic (read_template_block lib b n)"
    and "read_template_block lib b n = Inr tb \<Longrightarrow> block_ok tb (block_ms tb)"
proof -
  have lay: "fits_kinds (map slot_kinds dict) (dummy_vars (map slot_kinds dict) ids) \<and>
      map fst (dummy_vars (map slot_kinds dict) ids) = ids \<and> (\<forall>t \<in> set dict. valid_utf8 t) \<and>
      length (group_vars (dummy_vars (map slot_kinds dict) ids) []) < USIZE_MAX \<and>
      length widths = num_n \<and> length vals = num_n \<and> length strs = str_n"
    if "read_template_header b = Inr (mode, dict_n, num_n, str_n, stored)" "decode_str lib (stored ! 1) dict_n = Inr dict"
      "decode_u8 lib (stored ! 2) num_n = Inr widths" "decode_i64 lib (stored ! 3) num_n = Inr vals"
      "decode_str lib (stored ! 4) str_n = Inr strs" "list_all (\<lambda>i. 0 \<le> i64_int i \<and> as_usize i < dict_n) ids"
    for mode dict_n num_n str_n stored dict widths vals strs ids
  proof -
    let ?K = "map slot_kinds dict" and ?ms = "dummy_vars (map slot_kinds dict) ids"
    have dict: "length dict = dict_n" "\<forall>t \<in> set dict. valid_utf8 t \<and> length t \<le> DECOMPRESS_MAX_BYTES"
      using decode_str_length [OF that(2)] decode_str_values [OF assms that(2)] by auto
    then have ks: "\<forall>ks \<in> set ?K. length ks \<le> DECOMPRESS_MAX_BYTES"
      using length_slot_kinds by (auto intro: le_trans)
    then have "\<forall>ks \<in> set ?K. length ks \<le> 2 ^ 32" by (auto simp: DECOMPRESS_MAX_BYTES_def)
    then have fk: "fits_kinds ?K ?ms" "map fst ?ms = ids"
      using dummy_vars_fit [of ids ?K] that(6) dict(1) by (simp_all add: list_all_iff)
    have "length ?K < 2 ^ 32" using read_template_header_counts [OF that(1)] dict(1) by simp
    then have "length (group_vars ?ms []) < USIZE_MAX"
      using group_count [OF fk(1) ks] by (simp add: DECOMPRESS_MAX_BYTES_def USIZE_MAX_def)
    moreover have "length widths = num_n" "length vals = num_n" "length strs = str_n"
      using decode_u8_length [OF that(3)] decode_i64_length [OF that(4)] decode_str_length [OF that(5)] by simp_all
    ultimately show ?thesis using fk dict(2) by simp
  qed
  have gl: "group_layout ids K num_n str_n =
      (if offs K VNum (group_vars ms []) \<noteq> num_n \<or> offs K VStr (group_vars ms []) \<noteq> str_n
       then Inl (Invalid ''template column: slot totals disagree with header'')
       else Inr (base_of (length K) (group_vars ms []), lay K (group_vars ms [])))"
    if "fits_kinds K ms" "map fst ms = ids" "length (group_vars ms []) < USIZE_MAX" for K ms ids num_n str_n
    using group_layout_spec [OF that(1,3)] that(2) by simp
  have "\<not> is_panic (group_layout ids (map slot_kinds dict) num_n str_n)"
    if "read_template_header b = Inr (mode, dict_n, num_n, str_n, stored)" "decode_str lib (stored ! 1) dict_n = Inr dict"
      "decode_u8 lib (stored ! 2) num_n = Inr widths" "decode_i64 lib (stored ! 3) num_n = Inr vals"
      "decode_str lib (stored ! 4) str_n = Inr strs" "list_all (\<lambda>i. 0 \<le> i64_int i \<and> as_usize i < dict_n) ids"
    for mode dict_n num_n str_n stored dict widths vals strs ids
    using lay [OF that] gl [of "map slot_kinds dict" "dummy_vars (map slot_kinds dict) ids" ids num_n str_n] by auto
  moreover have "num_n * 8 \<le> ISIZE_MAX" if "read_template_header b = Inr (mode, dict_n, num_n, str_n, stored)"
    for mode dict_n num_n str_n stored using read_template_header_counts [OF that] by (simp add: machine_limits)
  ultimately show "\<not> is_panic (read_template_block lib b n)" if "n * 8 \<le> ISIZE_MAX"
    using that by (auto simp: read_template_block_def decode_i64_no_panic decode_str_no_panic decode_u8_no_panic)
  show "block_ok tb (block_ms tb)" if "read_template_block lib b n = Inr tb"
  proof -
    from that obtain mode dict_n num_n str_n stored ids dict widths vals strs base groups where
      r: "read_template_header b = Inr (mode, dict_n, num_n, str_n, stored)" "decode_str lib (stored ! 1) dict_n = Inr dict"
        "decode_u8 lib (stored ! 2) num_n = Inr widths" "decode_i64 lib (stored ! 3) num_n = Inr vals"
        "decode_str lib (stored ! 4) str_n = Inr strs" "list_all (\<lambda>i. 0 \<le> i64_int i \<and> as_usize i < dict_n) ids"
      and g: "group_layout ids (map slot_kinds dict) num_n str_n = Inr (base, groups)"
      and tb: "tb = \<lparr>tb_mode = mode, tb_ids = ids, tb_dict = dict, tb_widths = widths, tb_values = vals,
         tb_strs = strs, tb_base = base, tb_groups = groups\<rparr>"
      by (auto simp: read_template_block_def split: if_split_asm)
    note l = lay [OF r]
    have "offs (map slot_kinds dict) VNum (group_vars (dummy_vars (map slot_kinds dict) ids) []) = num_n"
        "offs (map slot_kinds dict) VStr (group_vars (dummy_vars (map slot_kinds dict) ids) []) = str_n"
        "base = base_of (length (map slot_kinds dict)) (group_vars (dummy_vars (map slot_kinds dict) ids) [])"
        "groups = lay (map slot_kinds dict) (group_vars (dummy_vars (map slot_kinds dict) ids) [])"
      using g gl [of "map slot_kinds dict" "dummy_vars (map slot_kinds dict) ids" ids num_n str_n] l
      by (auto split: if_split_asm)
    with l show ?thesis by (simp add: block_ok_def block_ms_def tb Let_def)
  qed
qed

lemma decode_template_str_no_panic:
  assumes "codec_lib_ok lib" "24 * n \<le> ISIZE_MAX"
  shows "\<not> is_panic (decode_template_str lib b n)"
proof -
  have "\<not> is_panic (read_messages (tb_dict tb) (map slot_kinds (tb_dict tb)) (tb_base tb) (tb_widths tb) (tb_values tb)
      (tb_strs tb) (tb_ids tb) (map g_start (tb_groups tb)))" if "read_template_block lib b n = Inr tb" for tb
  proof -
    have ok: "block_ok tb (block_ms tb)" by (rule read_template_block_no_panic(2) [OF assms(1) that])
    then show ?thesis
      using read_messages_no_panic [OF refl, of "tb_dict tb" "[]" "block_ms tb" "tb_widths tb" "tb_values tb" "tb_strs tb"]
      by (simp add: block_ok_def Let_def cursors_start)
  qed
  then show ?thesis
    using assms(2) read_template_block_no_panic(1) [OF assms(1), of n b] by (auto simp: decode_template_str_def)
qed

subsection \<open>The dictionary of a block\<close>

lemma as_usize_index: "n < 2 ^ 63 \<Longrightarrow> as_usize (i64_of_int (int n)) = n \<and> 0 \<le> i64_int (i64_of_int (int n))"
  using unat_i64_of_nat [of n] by (simp add: as_usize_def)

definition dict_map_ok :: "(str \<rightharpoonup> i64) \<Rightarrow> str list \<Rightarrow> bool" where
  "dict_map_ok m dict \<longleftrightarrow> (\<forall>t i. m t = Some i \<longrightarrow> as_usize i < length dict \<and> 0 \<le> i64_int i \<and> dict ! as_usize i = t)"

lemma tokenize_loop_spec:
  fixes sr :: bool
  assumes "dict_map_ok m dict" "length dict + length msgs < 2 ^ 63"
  defines "tk \<equiv> tokenize_loop sr msgs m dict"
  shows "(\<exists>ext. tk_dict tk = dict @ ext \<and> length ext \<le> length msgs \<and>
      set ext \<subseteq> (\<lambda>msg. fst (tokenize msg sr)) ` set msgs \<and> strs_size ext \<le> strs_size (map (\<lambda>msg. fst (tokenize msg sr)) msgs)) \<and>
    tk_msg_vars tk = map (\<lambda>msg. snd (tokenize msg sr)) msgs \<and>
    list_all2 (\<lambda>i msg. as_usize i < length (tk_dict tk) \<and> 0 \<le> i64_int i \<and>
      tk_dict tk ! as_usize i = fst (tokenize msg sr)) (tk_ids tk) msgs"
  using assms(1,2) unfolding tk_def
proof (induction msgs arbitrary: m dict)
  case (Cons msg msgs)
  let ?t = "fst (tokenize msg sr)"
  let ?new = "case m ?t of Some i \<Rightarrow> (i, m, dict)
    | None \<Rightarrow> (i64_of_int (int (length dict)), m(?t \<mapsto> i64_of_int (int (length dict))), dict @ [?t])"
  obtain i m' dict' where new: "?new = (i, m', dict')" by (metis surj_pair)
  let ?tk = "tokenize_loop sr msgs m' dict'"
  have tk: "tokenize_loop sr (msg # msgs) m dict =
      ?tk\<lparr>tk_ids := i # tk_ids ?tk, tk_msg_vars := snd (tokenize msg sr) # tk_msg_vars ?tk\<rparr>"
    using new by (cases "tokenize msg sr"; cases "m ?t") (auto simp: Let_def)
  obtain e where e: "dict' = dict @ e" "e = [] \<or> e = [?t]" "dict_map_ok m' dict'"
      "as_usize i < length dict'" "0 \<le> i64_int i" "dict' ! as_usize i = ?t"
  proof (cases "m ?t")
    case None
    then have new': "i = i64_of_int (int (length dict))" "m' = m(?t \<mapsto> i)" "dict' = dict @ [?t]" using new by auto
    moreover have i: "as_usize i = length dict" "0 \<le> i64_int i"
      using as_usize_index [of "length dict"] Cons.prems(2) new'(1) by simp_all
    moreover have "dict_map_ok m' dict'"
      using Cons.prems(1) i new'(2,3) by (auto simp: dict_map_ok_def nth_append intro: less_SucI)
    ultimately show thesis using that [of "[?t]"] by simp
  next
    case (Some j)
    then show thesis using that [of "[]"] new Cons.prems(1) by (auto simp: dict_map_ok_def)
  qed
  have small: "length dict' + length msgs < 2 ^ 63" using e(1,2) Cons.prems(2) by auto
  note IH = Cons.IH [OF e(3) small]
  from IH obtain ext where ext: "tk_dict ?tk = dict' @ ext" "length ext \<le> length msgs"
    "set ext \<subseteq> (\<lambda>msg. fst (tokenize msg sr)) ` set msgs"
    "strs_size ext \<le> strs_size (map (\<lambda>msg. fst (tokenize msg sr)) msgs)" by blast
  have "as_usize i < length (tk_dict ?tk)" "tk_dict ?tk ! as_usize i = ?t"
    using e(4,6) by (simp_all add: ext(1) nth_append_left)
  moreover have "\<exists>ext. tk_dict ?tk = dict @ ext \<and> length ext \<le> length (msg # msgs) \<and>
      set ext \<subseteq> (\<lambda>msg. fst (tokenize msg sr)) ` set (msg # msgs) \<and>
      strs_size ext \<le> strs_size (map (\<lambda>msg. fst (tokenize msg sr)) (msg # msgs))"
    using ext e(1,2) by (intro exI [of _ "e @ ext"]) auto
  ultimately show ?case using tk IH e(5) by simp
qed simp

text \<open>Grouping only rearranges the variables.\<close>

lemma mset_bt_insert:
  "bt_wf g \<Longrightarrow> mset (concat (map snd (bt_insert k (bt_or_default [] g k @ [v]) g))) = add_mset v (mset (concat (map snd g)))"
proof (induction g)
  case (Cons x g)
  obtain k' vs where x: "x = (k', vs)" by (cases x)
  consider "k < k'" | "k = k'" | "k' < k" using less_linear by blast
  then show ?case
  proof cases
    case 1
    then have "bt_get (x # g) k = None"
      using Cons.prems x by (auto simp: bt_wf_Cons map_of_eq_None_iff)
    then show ?thesis using 1 x by (simp add: bt_or_default_def)
  next
    case 2
    then show ?thesis using x by (simp add: bt_or_default_def)
  next
    case 3
    moreover have "bt_or_default [] (x # g) k = bt_or_default [] g k" using 3 x by (auto simp: bt_or_default_def)
    ultimately show ?thesis using Cons x by (auto simp: bt_wf_Cons)
  qed
qed (simp add: bt_or_default_def)

lemma mset_group_slots:
  "bt_wf g \<Longrightarrow> mset (concat (map snd (group_slots i slot vars g))) = mset vars + mset (concat (map snd g))"
  by (induction i slot vars g rule: group_slots.induct) (simp_all only: group_slots.simps Let_def mset_bt_insert bt_wf_insert, simp_all)

lemma mset_group_vars:
  "bt_wf g \<Longrightarrow> mset (concat (map snd (group_vars ms g))) = mset (concat (map snd ms)) + mset (concat (map snd g))"
  by (induction ms g rule: group_vars.induct) (simp_all add: mset_group_slots group_slots_wf)

subsection \<open>Round trip\<close>

lemma read_u32s_ok:
  assumes "reader_wf r" "rest r = concat (map (\<lambda>x. u32_le (of_nat x)) xs) @ ys" "\<forall>x \<in> set xs. x \<le> U32_MAX"
  shows "read_u32s (length xs) r = Inr (xs, adv (4 * length xs) r)"
  using assms
proof (induction xs arbitrary: r)
  case (Cons x xs)
  have wf: "reader_wf (adv 4 r)" using Cons.prems by (intro reader_wf_adv) simp_all
  have "read_u32s (length xs) (adv 4 r) = Inr (xs, adv (4 * length xs) (adv 4 r))"
    using wf Cons.prems by (intro Cons.IH) simp_all
  then show ?case using Cons.prems by (simp add: codec_simps)
qed simp

lemma take_columns_ok:
  assumes "reader_wf r" "rest r = concat cs @ ys"
  shows "take_columns (map length cs) r = Inr (cs, adv (length (concat cs)) r)"
  using assms
proof (induction cs arbitrary: r)
  case (Cons c cs)
  have wf: "reader_wf (adv (length c) r)" using Cons.prems by (intro reader_wf_adv) simp_all
  have "take_columns (map length cs) (adv (length c) r) = Inr (cs, adv (length (concat cs)) (adv (length c) r))"
    using wf Cons.prems by (intro Cons.IH) simp_all
  then show ?case using Cons.prems by (simp add: codec_simps)
qed simp

lemma sub_len_Inr [simp]: "sub_len c = Inr l \<longleftrightarrow> length c \<le> U32_MAX \<and> l = u32_le (of_nat (length c))"
  by (auto simp: sub_len_def)

lemma read_template_header_ok:
  assumes "dict_n \<le> U32_MAX" "num_n \<le> U32_MAX" "str_n \<le> U32_MAX" "length cols = 5" "\<forall>c \<in> set cols. length c \<le> U32_MAX"
  shows "read_template_header (mode # u32_le (of_nat dict_n) @ u32_le (of_nat num_n) @ u32_le (of_nat str_n) @
    concat (map (\<lambda>c. u32_le (of_nat (length c))) cols) @ concat cols) = Inr (mode, dict_n, num_n, str_n, cols)"
proof -
  let ?lens = "concat (map (\<lambda>c. u32_le (of_nat (length c))) cols)"
  let ?b = "mode # u32_le (of_nat dict_n) @ u32_le (of_nat num_n) @ u32_le (of_nat str_n) @ ?lens @ concat cols"
  let ?r = "adv 13 (reader_new ?b)"
  have lens: "length ?lens = 20" 
    using assms(4) length_concat_const [of cols "\<lambda>c. u32_le (of_nat (length c))" 4] by simp
  have "length (concat cols) \<le> length cols * U32_MAX"
    using assms(5) by (induction cols) auto
  then have len: "length ?b \<le> USIZE_MAX" using lens assms(4) by (simp add: machine_limits)
  have wf: "reader_wf ?r" using len by (intro reader_wf_adv) simp_all
  have rest: "rest ?r = ?lens @ concat cols" by simp
  have "read_u32s (length (map length cols)) ?r = Inr (map length cols, adv (4 * length (map length cols)) ?r)"
    using wf assms(5) by (intro read_u32s_ok [where ys = "concat cols"]) (auto simp: rest comp_def)
  then have u: "read_u32s 5 ?r = Inr (map length cols, adv 20 ?r)" using assms(4) by simp
  have wf2: "reader_wf (adv 20 ?r)" using wf by (rule reader_wf_adv) (simp only: rest length_append lens le_add1)
  have rest2: "rest (adv 20 ?r) = concat cols @ []" unfolding rest_adv [of 20] rest using lens by simp
  have w: "reader_wf (reader_new ?b)" "reader_wf (adv 1 (reader_new ?b))" "reader_wf (adv 5 (reader_new ?b))"
      "reader_wf (adv 9 (reader_new ?b))"
    using len by simp_all
  have "reader_remaining (adv (length (concat cols)) (adv 20 ?r)) = 0"
    unfolding reader_remaining_rest rest_adv [of "length (concat cols)"] rest2 by simp
  then show ?thesis
    using w u take_columns_ok [OF wf2 rest2] assms(1-3)
    by (simp add: read_template_header_def read_template_parts_def codec_simps unat_of_nat_u32 U32_MAX_def)
qed

text \<open>Messages the column can hold: their templates and variables stay within the decompression limit.\<close>

definition msgs_fit :: "str list \<Rightarrow> bool" where
  "msgs_fit msgs \<longleftrightarrow> list_all valid_utf8 msgs \<and> 8 * strs_size msgs \<le> DECOMPRESS_MAX_BYTES"

definition block_vars :: "str list \<Rightarrow> bool \<Rightarrow> (i64 \<times> var list) list" where
  "block_vars msgs sr = zip (tk_ids (tokenize_block msgs sr)) (tk_msg_vars (tokenize_block msgs sr))"

lemma msgs_fit_dest:
  assumes "msgs_fit msgs"
  shows "m \<in> set msgs \<Longrightarrow> valid_utf8 m" "m \<in> set msgs \<Longrightarrow> 8 * length m \<le> DECOMPRESS_MAX_BYTES"
    "32 * length msgs \<le> DECOMPRESS_MAX_BYTES"
  using assms in_strs_size [of m msgs] strs_size_length [of msgs] by (auto simp: msgs_fit_def list_all_iff)

lemma block_tokens:
  fixes sr :: bool
  assumes "msgs_fit msgs"
  defines "tk \<equiv> tokenize_block msgs sr"
  shows "tk_msg_vars tk = map (\<lambda>msg. snd (tokenize msg sr)) msgs"
    and "list_all2 (\<lambda>i msg. as_usize i < length (tk_dict tk) \<and> 0 \<le> i64_int i \<and>
      tk_dict tk ! as_usize i = fst (tokenize msg sr)) (tk_ids tk) msgs"
    and "set (tk_dict tk) \<subseteq> (\<lambda>msg. fst (tokenize msg sr)) ` set msgs"
    and "length (tk_dict tk) \<le> length msgs"
    and "strs_size (tk_dict tk) \<le> strs_size (map (\<lambda>msg. fst (tokenize msg sr)) msgs)"
  using tokenize_loop_spec [of Map.empty "[]" msgs sr] msgs_fit_dest(3) [OF assms(1)]
  by (auto simp: tk_def tokenize_block_def dict_map_ok_def DECOMPRESS_MAX_BYTES_def)

lemma block_dict_fit:
  assumes "msgs_fit msgs"
  shows "strs_fit (tk_dict (tokenize_block msgs sr))"
proof -
  note t = block_tokens [OF assms, of sr]
  have valid: "valid_utf8 (fst (tokenize m sr))" "length (fst (tokenize m sr)) \<le> 2 * length m" if "m \<in> set msgs" for m
    using tokenize_lengths [OF msgs_fit_dest(1) [OF assms that], of sr] by (metis prod.collapse)+
  have "strs_size (map (\<lambda>msg. fst (tokenize msg sr)) msgs) \<le> 2 * strs_size msgs"
    using valid(2) by (induction msgs) fastforce+
  then have "strs_size (tk_dict (tokenize_block msgs sr)) \<le> DECOMPRESS_MAX_BYTES"
    using t(5) assms by (simp add: msgs_fit_def)
  moreover have "8 * length (tk_dict (tokenize_block msgs sr)) \<le> DECOMPRESS_MAX_BYTES"
    using t(4) msgs_fit_dest(3) [OF assms] by simp
  moreover have "list_all valid_utf8 (tk_dict (tokenize_block msgs sr))"
    using t(3) valid(1) by (auto simp: list_all_iff)
  ultimately show ?thesis by (simp add: strs_fit_def)
qed

lemma block_vars_fit:
  fixes sr :: bool
  assumes "msgs_fit msgs"
  defines "D \<equiv> tk_dict (tokenize_block msgs sr)"
  shows "fits_kinds (map slot_kinds D) (block_vars msgs sr)"
    and "list_all2 (\<lambda>(i, vars) msg. detokenize (D ! as_usize i) (var_widths vars) (var_values vars) (var_strs vars) = Inr msg)
      (block_vars msgs sr) msgs"
    and "map fst (block_vars msgs sr) = tk_ids (tokenize_block msgs sr)"
proof -
  note t = block_tokens [OF assms(1), of sr, folded D_def]
  have len: "length (tk_ids (tokenize_block msgs sr)) = length msgs" using t(2) by (rule list_all2_lengthD)
  have at: "\<exists>i. block_vars msgs sr ! j = (i, snd (tokenize (msgs ! j) sr)) \<and> as_usize i < length D \<and>
      D ! as_usize i = fst (tokenize (msgs ! j) sr)" if "j < length msgs" for j
    using t(1,2) len that by (auto simp: block_vars_def list_all2_conv_all_nth)
  have bl: "length (block_vars msgs sr) = length msgs" using len t(1) by (simp add: block_vars_def)
  have "as_usize i < length (map slot_kinds D) \<and> map slot_kinds D ! as_usize i = map fst vars \<and> length vars \<le> 2 ^ 32"
    if m: "(i, vars) \<in> set (block_vars msgs sr)" for i vars
  proof -
    obtain j where j: "j < length msgs" "block_vars msgs sr ! j = (i, vars)"
      using m bl by (metis in_set_conv_nth)
    have m: "msgs ! j \<in> set msgs" using j(1) by simp
    note m = msgs_fit_dest [OF assms(1)] m
    have tok: "tokenize (msgs ! j) sr = (D ! as_usize i, vars)" "as_usize i < length D"
      using at [OF j(1)] j(2) by (auto simp: prod_eq_iff)
    have "length vars \<le> length (concat (map snd vars))"
      using tokenize_vars_ok(3) [OF m(1) [OF m(4)] tok(1)]
    proof (induction vars)
      case (Cons v vars)
      then have "snd v \<noteq> []" "length vars \<le> length (concat (map snd vars))" by auto
      then show ?case by (cases "snd v") auto
    qed simp
    also have "\<dots> \<le> length (msgs ! j)" by (rule tokenize_lengths(2) [OF m(1) [OF m(4)] tok(1)])
    finally have "length vars \<le> 2 ^ 32" using m(2) [OF m(4)] by (simp add: DECOMPRESS_MAX_BYTES_def)
    then show ?thesis using slot_kinds_tokenize [OF m(1) [OF m(4)] tok(1)] tok(2) by simp
  qed
  then show "fits_kinds (map slot_kinds D) (block_vars msgs sr)" by (auto simp: fits_kinds_def)
  have "detokenize (D ! as_usize (fst (block_vars msgs sr ! j))) (var_widths (snd (block_vars msgs sr ! j)))
      (var_values (snd (block_vars msgs sr ! j))) (var_strs (snd (block_vars msgs sr ! j))) = Inr (msgs ! j)"
    if "j < length msgs" for j
    using at [OF that] renders_tokenize [OF msgs_fit_dest(1) [OF assms(1)], of "msgs ! j" sr] that
    by (auto simp: renders_def)
  then show "list_all2 (\<lambda>(i, vars) msg. detokenize (D ! as_usize i) (var_widths vars) (var_values vars) (var_strs vars) = Inr msg)
      (block_vars msgs sr) msgs"
    using bl by (simp add: list_all2_conv_all_nth split_def)
  show "map fst (block_vars msgs sr) = tk_ids (tokenize_block msgs sr)"
    using len t(1) by (simp add: block_vars_def)
qed

definition block_stream :: "str list \<Rightarrow> bool \<Rightarrow> var list" where
  "block_stream msgs sr = concat (map snd (group_vars (block_vars msgs sr) []))"

lemma mset_block_stream:
  assumes "msgs_fit msgs"
  shows "mset (block_stream msgs sr) = mset (concat (map (\<lambda>msg. snd (tokenize msg sr)) msgs))"
proof -
  note t = block_tokens [OF assms, of sr]
  have "map snd (block_vars msgs sr) = map (\<lambda>msg. snd (tokenize msg sr)) msgs"
    using t(1) list_all2_lengthD [OF t(2)] by (simp add: block_vars_def)
  then show ?thesis using mset_group_vars [of "[]" "block_vars msgs sr"] by (simp add: block_stream_def)
qed

lemma block_stream_vars:
  assumes "msgs_fit msgs" "v \<in> set (block_stream msgs sr)"
  shows "is_ascii (snd v)" "is_num v \<Longrightarrow> parse_i64 (snd v) \<noteq> None" "snd v \<noteq> []"
proof -
  obtain m where m: "m \<in> set msgs" "v \<in> set (snd (tokenize m sr))"
    using mset_eq_setD [OF mset_block_stream [OF assms(1), of sr]] assms(2) by auto
  obtain t vars where tok: "tokenize m sr = (t, vars)" by (cases "tokenize m sr")
  with m(2) have "v \<in> set vars" by simp
  note ok = tokenize_vars_ok [OF msgs_fit_dest(1) [OF assms(1) m(1)] tok this]
  show "is_ascii (snd v)" by (rule ok(1))
  show "is_num v \<Longrightarrow> parse_i64 (snd v) \<noteq> None" by (rule ok(2))
  show "snd v \<noteq> []" by (rule ok(3))
qed

lemma block_stream_size:
  assumes "msgs_fit msgs"
  shows "(\<Sum>v \<leftarrow> block_stream msgs sr. length (snd v)) \<le> strs_size msgs"
proof -
  have "(\<Sum>v \<leftarrow> block_stream msgs sr. length (snd v)) =
      (\<Sum>v \<leftarrow> concat (map (\<lambda>msg. snd (tokenize msg sr)) msgs). length (snd v))"
    using arg_cong [OF mset_block_stream [OF assms, of sr], of "\<lambda>m. sum_mset (image_mset (\<lambda>v. length (snd v)) m)"]
    by (simp only: mset_map [symmetric] sum_mset_sum_list)
  also have "\<dots> \<le> strs_size msgs"
    using msgs_fit_dest(1) [OF assms]
  proof (induction msgs)
    case (Cons m msgs)
    have "(\<Sum>v \<leftarrow> snd (tokenize m sr). length (snd v)) \<le> length m"
      using tokenize_lengths(2) [of m sr] Cons.prems by (cases "tokenize m sr") (simp add: length_concat comp_def)
    then show ?case using Cons by simp
  qed simp
  finally show ?thesis .
qed

lemma block_streams_fit:
  assumes "msgs_fit msgs"
  shows "strs_fit (var_strs (block_stream msgs sr))" "8 * length (block_stream msgs sr) \<le> DECOMPRESS_MAX_BYTES"
    "length (block_stream msgs sr) \<le> strs_size msgs"
proof -
  let ?vs = "block_stream msgs sr"
  have "length vs \<le> (\<Sum>v \<leftarrow> vs. length (snd v)) \<and> strs_size (var_strs vs) \<le> 5 * (\<Sum>v \<leftarrow> vs. length (snd v))"
    if "\<forall>v \<in> set vs. snd v \<noteq> []" for vs
    using that
  proof (induction vs)
    case (Cons v vs)
    then have "1 \<le> length (snd v)" by (cases "snd v") auto
    then show ?case using Cons by (auto simp: var_strs_def)
  qed (simp add: var_strs_def)
  then have le: "length ?vs \<le> strs_size msgs" "strs_size (var_strs ?vs) \<le> 5 * strs_size msgs"
    using block_stream_vars(3) [OF assms] block_stream_size [OF assms, of sr] by (meson le_trans mult_le_mono2)+
  show "length ?vs \<le> strs_size msgs" by (rule le(1))
  from le show "8 * length ?vs \<le> DECOMPRESS_MAX_BYTES" using assms by (simp add: msgs_fit_def)
  moreover have "length (var_strs ?vs) \<le> length ?vs" by (simp add: var_strs_def)
  moreover have "list_all valid_utf8 (var_strs ?vs)"
    using block_stream_vars(1) [OF assms] by (auto simp: var_strs_def list_all_iff intro: is_ascii_valid)
  ultimately show "strs_fit (var_strs ?vs)" using le(2) assms by (simp add: strs_fit_def msgs_fit_def)
qed

lemma block_values:
  assumes "msgs_fit msgs"
  shows "collect_r (\<lambda>v. ok_or (parse_i64 (snd v)) e) (filter is_num (block_stream msgs sr)) =
    Inr (var_values (block_stream msgs sr))"
  unfolding var_values_def
  by (rule collect_r_map) (use block_stream_vars(2) [OF assms] in auto)

lemma encode_mode_cases:
  assumes fit: "msgs_fit msgs" and enc: "encode_mode lib msgs sr level = Inr b"
  obtains c1 c2 c3 c4 c5 where
    "and_then (encode_i64 lib (tk_ids (tokenize_block msgs sr)) level) to_bytes = Inr c1"
    "and_then (encode_str lib (tk_dict (tokenize_block msgs sr)) (length (tk_dict (tokenize_block msgs sr))) level) to_bytes = Inr c2"
    "and_then (encode_u8 lib (var_widths (block_stream msgs sr)) level) to_bytes = Inr c3"
    "and_then (encode_i64 lib (var_values (block_stream msgs sr)) level) to_bytes = Inr c4"
    "and_then (encode_str lib (var_strs (block_stream msgs sr)) (length (var_strs (block_stream msgs sr))) level) to_bytes = Inr c5"
    "read_template_header b = Inr ((if sr then 0 else 1), length (tk_dict (tokenize_block msgs sr)),
      length (var_values (block_stream msgs sr)), length (var_strs (block_stream msgs sr)), [c1, c2, c3, c4, c5])"
proof -
  let ?tk = "tokenize_block msgs sr" and ?vs = "block_stream msgs sr"
  have vs: "concat (map snd (group_vars (zip (tk_ids ?tk) (tk_msg_vars ?tk)) [])) = ?vs"
    by (simp add: block_stream_def block_vars_def)
  from enc obtain c1 c2 c3 c4 c5 where c:
    "and_then (encode_i64 lib (tk_ids ?tk) level) to_bytes = Inr c1"
    "and_then (encode_str lib (tk_dict ?tk) (length (tk_dict ?tk)) level) to_bytes = Inr c2"
    "and_then (encode_u8 lib (var_widths ?vs) level) to_bytes = Inr c3"
    "and_then (encode_i64 lib (var_values ?vs) level) to_bytes = Inr c4"
    "and_then (encode_str lib (var_strs ?vs) (length (var_strs ?vs)) level) to_bytes = Inr c5"
    "length (tk_dict ?tk) \<le> U32_MAX" "length (var_values ?vs) \<le> U32_MAX" "length (var_strs ?vs) \<le> U32_MAX"
    and lens: "\<forall>c \<in> set [c1, c2, c3, c4, c5]. length c \<le> U32_MAX"
    and b: "b = (if sr then 0 else 1) # u32_le (of_nat (length (tk_dict ?tk))) @ u32_le (of_nat (length (var_values ?vs))) @
      u32_le (of_nat (length (var_strs ?vs))) @ concat (map (\<lambda>c. u32_le (of_nat (length c))) [c1, c2, c3, c4, c5]) @
      concat [c1, c2, c3, c4, c5]"
    unfolding encode_mode_def Let_def vs block_values [OF fit]
    by (auto simp: not_less simp del: to_bytes_Inr split: if_split_asm)
  show thesis
    using that c read_template_header_ok [OF c(6-8) _ lens, of "if sr then 0 else 1"] b by simp
qed

definition encoded_tb :: "str list \<Rightarrow> bool \<Rightarrow> template_block" where
  "encoded_tb msgs sr =
     (let tk = tokenize_block msgs sr; vs = block_stream msgs sr; K = map slot_kinds (tk_dict tk);
          G = group_vars (block_vars msgs sr) [] in
      \<lparr>tb_mode = (if sr then 0 else 1), tb_ids = tk_ids tk, tb_dict = tk_dict tk, tb_widths = var_widths vs,
       tb_values = var_values vs, tb_strs = var_strs vs, tb_base = base_of (length K) G, tb_groups = lay K G\<rparr>)"

lemma encoded_tb_read:
  assumes ok: "codec_lib_ok lib" and fit: "msgs_fit msgs" and enc: "encode_mode lib msgs sr level = Inr b"
  shows "read_template_block lib b (length msgs) = Inr (encoded_tb msgs sr)"
proof -
  let ?tk = "tokenize_block msgs sr" and ?vs = "block_stream msgs sr" and ?ms = "block_vars msgs sr"
  let ?K = "map slot_kinds (tk_dict ?tk)" and ?G = "group_vars (block_vars msgs sr) []"
  from encode_mode_cases [OF fit enc] obtain c1 c2 c3 c4 c5 where c:
    "and_then (encode_i64 lib (tk_ids ?tk) level) to_bytes = Inr c1"
    "and_then (encode_str lib (tk_dict ?tk) (length (tk_dict ?tk)) level) to_bytes = Inr c2"
    "and_then (encode_u8 lib (var_widths ?vs) level) to_bytes = Inr c3"
    "and_then (encode_i64 lib (var_values ?vs) level) to_bytes = Inr c4"
    "and_then (encode_str lib (var_strs ?vs) (length (var_strs ?vs)) level) to_bytes = Inr c5"
    "read_template_header b = Inr ((if sr then 0 else 1), length (tk_dict ?tk), length (var_values ?vs), length (var_strs ?vs), [c1, c2, c3, c4, c5])" .
  note t = block_tokens [OF fit, of sr] and v = block_vars_fit [OF fit, of sr]
  have n: "length (tk_ids ?tk) = length msgs" using t(2) by (rule list_all2_lengthD)
  have "length (var_values ?vs) \<le> length ?vs" by (simp add: var_values_def)
  then have w: "words_fit (tk_ids ?tk)" "words_fit (var_values ?vs)"
    using n msgs_fit_dest(3) [OF fit] block_streams_fit(2) [OF fit, of sr]
    by (simp_all add: words_fit_def machine_limits DECOMPRESS_MAX_BYTES_def)
  have ids: "list_all (\<lambda>i. 0 \<le> i64_int i \<and> as_usize i < length (tk_dict ?tk)) (tk_ids ?tk)"
    using t(2) by (auto simp: list_all2_conv_all_nth list_all_length)
  have "length ?G \<le> length ?K * DECOMPRESS_MAX_BYTES"
  proof (rule group_count [OF v(1)])
    show "\<forall>ks \<in> set ?K. length ks \<le> DECOMPRESS_MAX_BYTES"
      using block_dict_fit [OF fit, of sr] in_strs_size [of _ "tk_dict ?tk"] length_slot_kinds
      by (fastforce simp: strs_fit_def intro: le_trans)
  qed
  then have "length ?G < USIZE_MAX"
    using t(4) msgs_fit_dest(3) [OF fit] by (simp add: DECOMPRESS_MAX_BYTES_def USIZE_MAX_def)
  note lay = group_layout_spec [OF v(1) this, unfolded v(3)]
  have "offs ?K VNum ?G = length (var_values ?vs)" "offs ?K VStr ?G = length (var_strs ?vs)"
    using kinded_length [OF group_vars_homog(1) [OF v(1)]]
    by (simp_all add: block_stream_def var_values_def var_strs_def filter_is_num)
  moreover have "length (var_widths ?vs) = length (var_values ?vs)" by (simp add: var_widths_def var_values_def)
  ultimately show ?thesis
    using c(6) ids n lay
      i64c.framed_roundtrip [OF ok w(1) c(1) refl] strc.framed_roundtrip [OF ok block_dict_fit [OF fit] c(2) refl]
      u8c.framed_roundtrip [OF ok _ c(3) refl] i64c.framed_roundtrip [OF ok w(2) c(4) refl]
      strc.framed_roundtrip [OF ok block_streams_fit(1) [OF fit] c(5) refl]
    by (simp add: read_template_block_def encoded_tb_def Let_def)
qed

lemma msgs_fit_alloc: "msgs_fit msgs \<Longrightarrow> alloc_r (length msgs) 24 = Inr ()"
  using msgs_fit_dest(3) [of msgs] by (simp add: alloc_r_def machine_limits DECOMPRESS_MAX_BYTES_def)

lemma decode_encode_mode:
  assumes ok: "codec_lib_ok lib" and fit: "msgs_fit msgs" and enc: "encode_mode lib msgs sr level = Inr b"
  shows "decode_template_str lib b (length msgs) = Inr msgs"
  using encoded_tb_read [OF assms] block_vars_fit [OF fit, of sr] msgs_fit_alloc [OF fit]
    read_messages_ok [OF refl, of "tk_dict (tokenize_block msgs sr)" "[]" "block_vars msgs sr" msgs]
  by (simp add: decode_template_str_def encoded_tb_def Let_def block_stream_def cursors_start)

lemma stored_encode_mode:
  assumes "msgs_fit msgs" "length msgs < 8" and vs: "length (block_stream msgs sr) < 8"
  shows "\<exists>b. encode_mode stored_lib msgs sr level = Inr b"
proof -
  let ?tk = "tokenize_block msgs sr" and ?vs = "block_stream msgs sr"
  note t = block_tokens [OF assms(1), of sr]
  have n: "length (tk_ids ?tk) = length msgs" using t(2) by (rule list_all2_lengthD)
  have small: "length msgs < 8" "length (tk_dict ?tk) < 8"
    using assms(2) t(4) by linarith+
  have len: "length (var_widths ?vs) \<le> length ?vs" "length (var_values ?vs) \<le> length ?vs" "length (var_strs ?vs) \<le> length ?vs"
    by (simp_all add: var_widths_def var_values_def var_strs_def)
  obtain c1 where c1: "and_then (encode_i64 stored_lib (tk_ids ?tk) level) to_bytes = Inr c1" "length c1 = 5 + 8 * length (tk_ids ?tk)"
    using stored_i64_column [of "tk_ids ?tk" level] n small by (auto simp: U32_MAX_def)
  obtain c2 where c2: "and_then (encode_str stored_lib (tk_dict ?tk) (length (tk_dict ?tk)) level) to_bytes = Inr c2"
      "length c2 = 5 + strs_size (tk_dict ?tk)"
    using stored_str_column [of "tk_dict ?tk" level] small(2) block_dict_fit [OF assms(1), of sr]
    by (auto simp: strs_fit_def U32_MAX_def DECOMPRESS_MAX_BYTES_def)
  obtain c3 where c3: "and_then (encode_u8 stored_lib (var_widths ?vs) level) to_bytes = Inr c3" "length c3 \<le> 5 + length (var_widths ?vs)"
    using stored_u8_column [of "var_widths ?vs" level] vs len(1) by (auto simp: U32_MAX_def)
  obtain c4 where c4: "and_then (encode_i64 stored_lib (var_values ?vs) level) to_bytes = Inr c4" "length c4 = 5 + 8 * length (var_values ?vs)"
    using stored_i64_column [of "var_values ?vs" level] vs len(2) by (auto simp: U32_MAX_def)
  obtain c5 where c5: "and_then (encode_str stored_lib (var_strs ?vs) (length (var_strs ?vs)) level) to_bytes = Inr c5"
      "length c5 = 5 + strs_size (var_strs ?vs)"
    using stored_str_column [of "var_strs ?vs" level] vs len(3) block_streams_fit(1) [OF assms(1), of sr]
    by (auto simp: strs_fit_def U32_MAX_def DECOMPRESS_MAX_BYTES_def)
  have "\<forall>c \<in> set [c1, c2, c3, c4, c5]. length c \<le> U32_MAX"
    using c1(2) c2(2) c3(2) c4(2) c5(2) n small vs len block_dict_fit [OF assms(1), of sr] block_streams_fit(1) [OF assms(1), of sr]
    by (auto simp: strs_fit_def U32_MAX_def DECOMPRESS_MAX_BYTES_def)
  then have "\<exists>lens. collect_r sub_len [c1, c2, c3, c4, c5] = Inr lens" by simp
  moreover have eq: "concat (map snd (group_vars (zip (tk_ids ?tk) (tk_msg_vars ?tk)) [])) = ?vs"
    by (simp add: block_stream_def block_vars_def)
  moreover have "length (tk_dict ?tk) \<le> U32_MAX" "length (var_values ?vs) \<le> U32_MAX" "length (var_strs ?vs) \<le> U32_MAX"
    using small(2) vs len by (simp_all add: U32_MAX_def)
  ultimately show ?thesis
    unfolding encode_mode_def Let_def eq block_values [OF assms(1)] c1(1) c2(1) c3(1) c4(1) c5(1) and_then.simps
    by (auto simp: not_less simp del: to_bytes_Inr collect_r.simps)
qed

lemma stored_encode_template:
  assumes "msgs_fit msgs" "length msgs < 8" "\<And>sr. length (block_stream msgs sr) < 8"
  shows "\<exists>b. encode_template_str stored_lib msgs level = Inr b"
proof -
  obtain b1 where b1: "encode_mode stored_lib msgs True level = Inr b1" using stored_encode_mode [OF assms(1,2) assms(3)] by blast
  obtain b2 where b2: "encode_mode stored_lib msgs False level = Inr b2" using stored_encode_mode [OF assms(1,2) assms(3)] by blast
  show ?thesis using b1 b2 by (simp add: encode_template_str_def)
qed

lemma stored_template_example:
  defines "msgs \<equiv> [str_lit ''x42'']"
  shows "list_all valid_utf8 msgs" "8 * strs_size msgs \<le> DECOMPRESS_MAX_BYTES" "\<exists>b. encode_template_str stored_lib msgs level = Inr b"
proof -
  show valid: "list_all valid_utf8 msgs" by (simp add: msgs_def str_lit_def is_ascii_valid is_ascii_def)
  have sz: "strs_size msgs = 7" by (simp add: msgs_def str_lit_def)
  then show le: "8 * strs_size msgs \<le> DECOMPRESS_MAX_BYTES" by (simp add: DECOMPRESS_MAX_BYTES_def)
  with valid have fit: "msgs_fit msgs" by (simp add: msgs_fit_def)
  have "length (block_stream msgs sr) < 8" for sr using block_streams_fit(3) [OF fit, of sr] sz by simp
  then show "\<exists>b. encode_template_str stored_lib msgs level = Inr b"
    by (intro stored_encode_template [OF fit]) (simp_all add: msgs_def)
qed

text \<open>
  C8. Message templates are lossless: what the template column encodes, in whichever tokenizer mode was
  smaller, decodes to exactly the messages, when they are UTF-8 and take at most 8 MiB with a length of
  four bytes each. The decoder's limit is 64 MiB for each of its streams; an eighth of it is enough,
  since a byte of text gives at most eight bytes of a stream.
\<close>

theorem template_column_roundtrip:
  assumes "codec_lib_ok lib" "list_all valid_utf8 msgs" "8 * strs_size msgs \<le> DECOMPRESS_MAX_BYTES"
    and "encode_template_str lib msgs level = Inr b"
  shows "decode_template_str lib b (length msgs) = Inr msgs"
  using assms decode_encode_mode [of lib msgs _ level b]
  by (auto simp: encode_template_str_def msgs_fit_def split: if_split_asm)

theorem template_column_roundtrip_witness:
  "\<exists>b. encode_template_str stored_lib [str_lit ''x42''] 7 = Inr b \<and>
     decode_template_str stored_lib b 1 = Inr [str_lit ''x42'']"
proof -
  obtain b where "encode_template_str stored_lib [str_lit ''x42''] 7 = Inr b" using stored_template_example(3) by blast
  with template_column_roundtrip [OF stored_lib_ok stored_template_example(1,2) this] show ?thesis by simp
qed

text \<open>
  C9. Decoding a template column never panics, whatever its bytes: the group cursors of the decoder stay
  inside the variable streams. The expected count \<open>n\<close> is one whose \<open>n\<close> strings (24 bytes each) fit the
  largest allocation of \<open>isize::MAX\<close> bytes; blocks expect at most 1,048,576.
\<close>

theorem template_decode_never_panics:
  assumes "codec_lib_ok lib" "24 * n \<le> ISIZE_MAX"
  shows "\<not> is_panic (decode_template_str lib b n)"
  by (rule decode_template_str_no_panic [OF assms])

theorem template_decode_never_panics_witness: "\<not> is_panic (decode_template_str stored_lib [0, 1, 2] 7)"
  by (rule template_decode_never_panics [OF stored_lib_ok]) (simp add: machine_limits)

end
