(* ===== verification/TemplateSearch.thy ===== *)
theory TemplateSearch
  imports TemplateFacts
begin

section \<open>Searching a template column\<close>

text \<open>
  The feasibility checks of \<open>template.rs\<close>, which decide from the dictionary and the variables alone
  that no message of a block (\<open>column_may_contain\<close>) or of a template (\<open>template_feasible\<close>) contains a
  needle, and the decoder that uses them to skip rows (\<open>decode_template_str_filtered\<close>).
\<close>

definition FEASIBILITY_MAX_FRAGMENT :: nat where
  "FEASIBILITY_MAX_FRAGMENT = 256"

definition contains_ci :: "str \<Rightarrow> str \<Rightarrow> bool" where
  "contains_ci haystack needle \<longleftrightarrow> needle = [] \<or> any_window_ci haystack needle"

definition ends_with_ci :: "str \<Rightarrow> str \<Rightarrow> bool" where
  "ends_with_ci haystack suffix \<longleftrightarrow> length haystack \<ge> length suffix \<and>
     eq_ignore_ascii_case (drop (length haystack - length suffix) haystack) suffix"

definition starts_with_ci :: "str \<Rightarrow> str \<Rightarrow> bool" where
  "starts_with_ci haystack prefix \<longleftrightarrow> length haystack \<ge> length prefix \<and>
     eq_ignore_ascii_case (take (length prefix) haystack) prefix"

text \<open>The loop of \<open>template_segments\<close>; \<open>seg\<close> is the text since the last placeholder.\<close>

definition push_seg :: "str \<Rightarrow> str list" where
  "push_seg seg = (if seg \<noteq> [] then [seg] else [])"

function segments_loop :: "str \<Rightarrow> str \<Rightarrow> str list res" where
  "segments_loop seg [] = Inr (push_seg seg)"
| "segments_loop seg (b # r) =
     (if b = SENTINEL then
        (case r of
           [] \<Rightarrow> segments_loop (seg @ [SENTINEL]) []
         | tag # r' \<Rightarrow>
             if tag = SENTINEL then segments_loop (seg @ [SENTINEL]) r'
             else if tag = KIND_NUM \<or> tag = KIND_STR then
               and_then (segments_loop [] r') (\<lambda>out. Inr (push_seg seg @ out))
             else segments_loop (seg @ [SENTINEL]) r)
      else
        and_then (str_split (utf8_char_len b) (b # r)) (\<lambda>(s, r).
        segments_loop (seg @ s) r))"
  by pat_completeness auto
termination
  by (relation "measure (\<lambda>(_, t). length t)") (auto dest: str_split_length simp: less_Suc_eq_le)

declare segments_loop.simps(2) [simp del]

definition template_segments :: "str \<Rightarrow> str list res" where
  "template_segments template = segments_loop [] template"

definition has_maximal_digit_run :: "str \<Rightarrow> str \<Rightarrow> bool" where
  "has_maximal_digit_run t r \<longleftrightarrow> length t \<ge> length r \<and>
     list_ex (\<lambda>start. take (length r) (drop start t) = r \<and>
        (start = 0 \<or> \<not> is_ascii_digit (t ! (start - 1))) \<and>
        (start + length r = length t \<or> \<not> is_ascii_digit (t ! (start + length r))))
       [0..<length t - length r + 1]"

definition fragment_feasible :: "str \<Rightarrow> str list \<Rightarrow> str list \<Rightarrow> bool" where
  "fragment_feasible frag segments strs \<longleftrightarrow>
     frag = [] \<or> length frag > FEASIBILITY_MAX_FRAGMENT \<or> list_ex (\<lambda>v. contains_ci v frag) strs \<or>
     (let cut_is = 0 # filter (\<lambda>i. is_char_boundary (drop i frag) \<and> list_ex (\<lambda>v. ends_with_ci v (take i frag)) strs)
            [1..<length frag + 1];
          cut_js = filter (\<lambda>j. is_char_boundary (drop j frag) \<and> list_ex (\<lambda>v. starts_with_ci v (drop j frag)) strs)
            [0..<length frag] @ [length frag]
      in list_ex (\<lambda>i. list_ex (\<lambda>j. let middle = take (j - i) (drop i frag)
            in middle = [] \<or> list_ex (\<lambda>s. contains_ci s middle) segments) (filter (\<lambda>j. j \<ge> i) cut_js)) cut_is)"

definition num_ok :: "str \<Rightarrow> (byte \<times> i64) list \<Rightarrow> bool" where
  "num_ok run nums \<longleftrightarrow> length run \<le> 19 \<and>
     (case parse_i64 run of None \<Rightarrow> False | Some v \<Rightarrow> list_ex (\<lambda>(w, x). unat w = length run \<and> x = v) nums)"

definition run_feasible :: "str \<Rightarrow> str list \<Rightarrow> (byte \<times> i64) list \<Rightarrow> bool" where
  "run_feasible run strs nums \<longleftrightarrow> num_ok run nums \<or> list_ex (\<lambda>s. has_maximal_digit_run s run) strs"

text \<open>\<open>token_confined_mixed\<close>: token bytes only, a digit and a non-digit among them.\<close>

definition token_confined :: "str \<Rightarrow> bool" where
  "token_confined nb \<longleftrightarrow> list_all is_token_byte nb \<and> list_ex is_ascii_digit nb \<and> list_ex (\<lambda>b. \<not> is_ascii_digit b) nb"

text \<open>The loop of \<open>column_may_contain\<close> over the needle; \<open>first\<close> says that nothing was read yet.\<close>

function may_loop :: "str list \<Rightarrow> str list \<Rightarrow> (byte \<times> i64) list \<Rightarrow> bool \<Rightarrow> str \<Rightarrow> bool" where
  "may_loop segments strs nums first [] \<longleftrightarrow> True"
| "may_loop segments strs nums first (b # r) \<longleftrightarrow>
     (if is_ascii_digit b then
        let run = takeWhile is_ascii_digit (b # r); after = dropWhile is_ascii_digit (b # r) in
        if first \<or> after = [] then may_loop segments strs nums False after
        else if \<not> run_feasible run strs nums then False
        else may_loop segments strs nums False after
      else
        let frag = takeWhile (\<lambda>c. \<not> is_ascii_digit c) (b # r); after = dropWhile (\<lambda>c. \<not> is_ascii_digit c) (b # r) in
        if \<not> fragment_feasible frag segments strs then False
        else may_loop segments strs nums False after)"
  by pat_completeness auto
termination
  by (relation "measure (\<lambda>(_, _, _, _, nb). length nb)") (auto simp: length_dropWhile_le less_Suc_eq_le)

declare may_loop.simps(2) [simp del]

text \<open>A digit run between the first and the last non-digit of the needle.\<close>

definition has_inner_run :: "str \<Rightarrow> bool" where
  "has_inner_run nb \<longleftrightarrow>
     list_ex is_ascii_digit (dropWhile is_ascii_digit (rev (dropWhile is_ascii_digit (rev nb))))"

definition column_may_contain :: "codec_lib \<Rightarrow> bytes \<Rightarrow> str \<Rightarrow> bool res" where
  "column_may_contain lib b needle =
     (if needle = [] \<or> \<not> is_ascii needle then Inr True
      else
        and_then (read_template_parts b) (\<lambda>((mode, dict_n, num_n, str_n, stored), _).
        and_then (decode_str lib (stored ! 1) dict_n) (\<lambda>dict.
        and_then (decode_str lib (stored ! 4) str_n) (\<lambda>strs_owned.
        let strs = remdups strs_owned in
        and_then (collect_r template_segments dict) (\<lambda>segs.
        let segments = concat segs in
        if mode = 1 \<and> token_confined needle then Inr (list_ex (\<lambda>v. contains_ci v needle) strs)
        else
          and_then (if has_inner_run needle then
              and_then (decode_u8 lib (stored ! 2) num_n) (\<lambda>widths.
              and_then (decode_i64 lib (stored ! 3) num_n) (\<lambda>values. Inr (remdups (zip widths values))))
            else Inr []) (\<lambda>num_pairs.
          Inr (may_loop segments strs num_pairs True needle)))))))"

subsection \<open>Rows of one template\<close>

record needle_parts =
  np_fragments :: "str list"
  np_inner_runs :: "str list"
  np_token_confined_mixed :: bool

text \<open>The loop of \<open>needle_parts\<close>: fragments and inner runs of what is left of the needle.\<close>

function parts_loop :: "bool \<Rightarrow> str \<Rightarrow> str list \<times> str list" where
  "parts_loop first [] = ([], [])"
| "parts_loop first (b # r) =
     (if is_ascii_digit b then
        let run = takeWhile is_ascii_digit (b # r); after = dropWhile is_ascii_digit (b # r);
            (fs, rs) = parts_loop False after
        in (fs, if \<not> first \<and> after \<noteq> [] then run # rs else rs)
      else
        let frag = takeWhile (\<lambda>c. \<not> is_ascii_digit c) (b # r);
            (fs, rs) = parts_loop False (dropWhile (\<lambda>c. \<not> is_ascii_digit c) (b # r))
        in (frag # fs, rs))"
  by pat_completeness auto
termination
  by (relation "measure (\<lambda>(_, nb). length nb)") (auto simp: length_dropWhile_le less_Suc_eq_le)

declare parts_loop.simps(2) [simp del]

definition needle_parts_of :: "str \<Rightarrow> needle_parts" where
  "needle_parts_of needle =
     \<lparr>np_fragments = fst (parts_loop True needle), np_inner_runs = snd (parts_loop True needle),
      np_token_confined_mixed = (needle \<noteq> [] \<and> token_confined needle)\<rparr>"

definition template_feasible ::
  "str \<Rightarrow> needle_parts \<Rightarrow> bool \<Rightarrow> str list \<Rightarrow> str list \<Rightarrow> (byte \<times> i64) list \<Rightarrow> bool" where
  "template_feasible needle parts whole_token_mode segments t_strs t_nums \<longleftrightarrow>
     (if whole_token_mode \<and> np_token_confined_mixed parts then list_ex (\<lambda>v. contains_ci v needle) t_strs
      else list_all (\<lambda>frag. fragment_feasible frag segments t_strs) (np_fragments parts) \<and>
           list_all (\<lambda>run. run_feasible run t_strs t_nums) (np_inner_runs parts))"

text \<open>The variables of the groups from position \<open>p\<close> on.\<close>

fun gather_slots :: "template_block \<Rightarrow> nat \<Rightarrow> nat \<Rightarrow> (str list \<times> (byte \<times> i64) list) res" where
  "gather_slots tb p 0 = Inr ([], [])"
| "gather_slots tb p (Suc k) =
     and_then (index_r ''groups'' (tb_groups tb) p) (\<lambda>g.
     case g_kind g of
       VStr \<Rightarrow>
         and_then (slice_r ''strs'' (tb_strs tb) (g_start g) (g_start g + g_len g)) (\<lambda>ss.
         and_then (gather_slots tb (Suc p) k) (\<lambda>(strs, nums). Inr (ss @ strs, nums)))
     | VNum \<Rightarrow>
         and_then (slice_r ''widths'' (tb_widths tb) (g_start g) (g_start g + g_len g)) (\<lambda>ws.
         and_then (slice_r ''values'' (tb_values tb) (g_start g) (g_start g + g_len g)) (\<lambda>vs.
         and_then (gather_slots tb (Suc p) k) (\<lambda>(strs, nums). Inr (strs, zip ws vs @ nums)))))"

definition template_entry :: "template_block \<Rightarrow> str \<Rightarrow> nat \<Rightarrow> bool res" where
  "template_entry tb needle t =
     and_then (index_r ''dict'' (tb_dict tb) t) (\<lambda>template.
     and_then (template_segments template) (\<lambda>segments.
     let kinds = slot_kinds template; parts = needle_parts_of needle; whole = (tb_mode tb = 1) in
     if kinds = [] then Inr (template_feasible needle parts whole segments [] [])
     else
       and_then (index_r ''base'' (tb_base tb) t) (\<lambda>b.
       if b = USIZE_MAX then Inr False
       else
         and_then (gather_slots tb b (length kinds)) (\<lambda>(t_strs, t_nums).
         Inr (template_feasible needle parts whole segments (btree_set t_strs) t_nums)))))"

fun skip_slots :: "nat \<Rightarrow> nat \<Rightarrow> nat list \<Rightarrow> nat list res" where
  "skip_slots p 0 cursors = Inr cursors"
| "skip_slots p (Suc k) cursors =
     (if p < length cursors then skip_slots (Suc p) k (cursors[p := Suc (cursors ! p)])
      else Inl (Invalid ''template column: missing group cursor''))"

record filtered_messages =
  fm_rows :: "(nat \<times> str) list"
  fm_candidate_rows :: nat

fun filter_loop ::
  "template_block \<Rightarrow> str \<Rightarrow> bool list \<Rightarrow> nat \<Rightarrow> i64 list \<Rightarrow> nat list \<Rightarrow> filtered_messages res" where
  "filter_loop tb needle feasible row [] cursors = Inr \<lparr>fm_rows = [], fm_candidate_rows = 0\<rparr>"
| "filter_loop tb needle feasible row (i # ids) cursors =
     and_then (index_r ''dict'' (tb_dict tb) (as_usize i)) (\<lambda>template.
     and_then (index_r ''feasible'' feasible (as_usize i)) (\<lambda>f.
     and_then (index_r ''base'' (tb_base tb) (as_usize i)) (\<lambda>b.
     let kinds = slot_kinds template in
     if \<not> f then
       and_then (skip_slots b (length kinds) cursors) (\<lambda>cursors.
       filter_loop tb needle feasible (Suc row) ids cursors)
     else
       and_then (read_slots (tb_widths tb) (tb_values tb) (tb_strs tb) kinds b cursors) (\<lambda>((ws, vs, ss), cursors).
       and_then (detokenize template ws vs ss) (\<lambda>message.
       and_then (filter_loop tb needle feasible (Suc row) ids cursors) (\<lambda>fm.
       Inr \<lparr>fm_rows = (if contains_ci message needle then [(row, message)] else []) @ fm_rows fm,
            fm_candidate_rows = Suc (fm_candidate_rows fm)\<rparr>))))))"

definition decode_template_str_filtered :: "codec_lib \<Rightarrow> bytes \<Rightarrow> nat \<Rightarrow> str \<Rightarrow> filtered_messages res" where
  "decode_template_str_filtered lib b n needle =
     (if needle = [] \<or> \<not> is_ascii needle then
        Inl (Invalid ''template column: filtered decode requires a non-empty ASCII needle'')
      else
        and_then (read_template_block lib b n) (\<lambda>tb.
        and_then (collect_r (template_entry tb needle) [0..<length (tb_dict tb)]) (\<lambda>feasible.
        filter_loop tb needle feasible 0 (tb_ids tb) (map g_start (tb_groups tb)))))"

end
