(* ===== verification/BlockCodec.thy ===== *)
theory BlockCodec
  imports PairsColumn TemplateSearch
begin

section \<open>The block codec\<close>

text \<open>
  The container of log blocks (\<open>crates/timeless-core/src/blocks/codec.rs\<close>): \<open>encode_block\<close> for its
  seven codecs, \<open>decode_block_projected\<close> for every projection, the row-skipping
  \<open>decode_block_filtered\<close> and the pre-decode check \<open>block_message_feasible\<close>. The JSON library is a
  parameter, as are the compressors and the Unicode lowercase mapping.
\<close>

subsection \<open>Codecs\<close>

definition CODEC_RAW :: byte where "CODEC_RAW = 1"
definition CODEC_ZSTD :: byte where "CODEC_ZSTD = 2"
definition CODEC_COLUMNAR :: byte where "CODEC_COLUMNAR = 4"
definition CODEC_COLUMNAR_V2 :: byte where "CODEC_COLUMNAR_V2 = 5"
definition CODEC_RICH_RAW :: byte where "CODEC_RICH_RAW = 6"
definition CODEC_RICH_COLUMNAR :: byte where "CODEC_RICH_COLUMNAR = 7"
definition CODEC_RICH_TEMPLATE :: byte where "CODEC_RICH_TEMPLATE = 8"

definition FORMAT_VERSION :: byte where "FORMAT_VERSION = 1"
definition HEADER_LEN :: nat where "HEADER_LEN = 38"

lemmas codec_ids = CODEC_RAW_def CODEC_ZSTD_def CODEC_COLUMNAR_def CODEC_COLUMNAR_V2_def CODEC_RICH_RAW_def
  CODEC_RICH_COLUMNAR_def CODEC_RICH_TEMPLATE_def

definition known_codec :: "byte \<Rightarrow> bool" where
  "known_codec codec \<longleftrightarrow> codec = CODEC_RAW \<or> codec = CODEC_ZSTD \<or> codec = CODEC_COLUMNAR \<or>
     codec = CODEC_COLUMNAR_V2 \<or> codec = CODEC_RICH_RAW \<or> codec = CODEC_RICH_COLUMNAR \<or> codec = CODEC_RICH_TEMPLATE"

definition is_raw_codec :: "byte \<Rightarrow> bool" where
  "is_raw_codec codec \<longleftrightarrow> codec = CODEC_RAW \<or> codec = CODEC_RICH_RAW"

text \<open>The \<open>matches!\<close> tests of the encoder and the decoder.\<close>

definition rich_codec :: "byte \<Rightarrow> bool" where
  "rich_codec codec \<longleftrightarrow> codec \<in> {CODEC_RICH_RAW, CODEC_RICH_COLUMNAR, CODEC_RICH_TEMPLATE}"

definition typed_codec :: "byte \<Rightarrow> bool" where
  "typed_codec codec \<longleftrightarrow> codec \<in> {CODEC_COLUMNAR, CODEC_COLUMNAR_V2, CODEC_RICH_COLUMNAR, CODEC_RICH_TEMPLATE}"

subsection \<open>JSON metadata\<close>

text \<open>
  \<open>serde_json::Value\<close>; an object is the list of its entries in iteration order. Parsing a text and
  printing a value are parameters: \<open>None\<close> is the library's error.
\<close>

datatype json = JNull | JBool bool | JPosInt u64 | JNegInt i64 | JFloat f64 | JString str
  | JArray "json list" | JObject "(str \<times> json) list"

record json_lib =
  serde_from_str :: "str \<Rightarrow> json option"
  serde_to_string :: "json \<Rightarrow> str option"

text \<open>\<open>collect()\<close> into a \<open>BTreeMap\<close>: a later entry replaces an earlier one with the same key.\<close>

definition bt_collect :: "('k::linorder \<times> 'v) list \<Rightarrow> ('k, 'v) btree" where
  "bt_collect xs = fold (\<lambda>(k, v). bt_insert k v) xs []"

definition canonical_metadata_json :: "json_lib \<Rightarrow> str \<Rightarrow> str res" where
  "canonical_metadata_json js j =
     and_then (ok_or (serde_from_str js j) (Invalid ''metadata JSON'')) (\<lambda>v.
     case v of
       JObject entries \<Rightarrow> ok_or (serde_to_string js (JObject (bt_collect entries))) (Invalid ''metadata JSON encode'')
     | _ \<Rightarrow> Inl (Invalid ''metadata JSON must be an object''))"

definition pairs_metadata_json :: "json_lib \<Rightarrow> (str \<times> str) list \<Rightarrow> str res" where
  "pairs_metadata_json js md =
     ok_or (serde_to_string js (JObject (bt_collect (map (\<lambda>(k, v). (k, JString v)) md)))) (Invalid ''metadata JSON encode'')"

definition json_text :: "json_lib \<Rightarrow> json \<Rightarrow> str" where
  "json_text js v =
     (case v of
        JString s \<Rightarrow> s
      | other \<Rightarrow> (case serde_to_string js other of Some s \<Rightarrow> s | None \<Rightarrow> []))"

definition metadata_pairs_from_json :: "json_lib \<Rightarrow> str \<Rightarrow> (str \<times> str) list res" where
  "metadata_pairs_from_json js j =
     and_then (ok_or (serde_from_str js j) (Invalid ''metadata JSON'')) (\<lambda>v.
     case v of
       JObject entries \<Rightarrow> Inr (map (\<lambda>(k, v). (k, json_text js v)) entries)
     | _ \<Rightarrow> Inl (Invalid ''metadata JSON must be an object''))"

subsection \<open>Projections\<close>

record log_projection =
  lp_message :: bool
  lp_metadata :: bool
  lp_metadata_pairs :: bool
  lp_severity :: bool

definition PROJECTION_ALL :: log_projection where
  "PROJECTION_ALL = \<lparr>lp_message = True, lp_metadata = True, lp_metadata_pairs = True, lp_severity = True\<rparr>"

definition u8_from_bool :: "bool \<Rightarrow> byte" where
  "u8_from_bool b = (if b then 1 else 0)"

definition projection_bits :: "log_projection \<Rightarrow> byte" where
  "projection_bits p =
     or (or (or (u8_from_bool (lp_message p)) (push_bit 1 (u8_from_bool (lp_metadata p))))
        (push_bit 2 (u8_from_bool (lp_metadata_pairs p)))) (push_bit 3 (u8_from_bool (lp_severity p)))"

definition projection_from_bits :: "byte \<Rightarrow> log_projection" where
  "projection_from_bits bits =
     \<lparr>lp_message = (and bits 1 \<noteq> 0), lp_metadata = (and bits 2 \<noteq> 0), lp_metadata_pairs = (and bits 4 \<noteq> 0),
      lp_severity = (and bits 8 \<noteq> 0)\<rparr>"

definition rich_envelope :: "log_projection \<Rightarrow> bool" where
  "rich_envelope p \<longleftrightarrow> lp_metadata p \<or> lp_metadata_pairs p \<or> lp_severity p"

subsection \<open>The rich metadata column\<close>

record rich_metadata =
  rm_severity :: str
  rm_metadata :: "(str \<times> str) list"
  rm_metadata_json :: str

definition entry_json :: "json_lib \<Rightarrow> log_entry \<Rightarrow> str res" where
  "entry_json js e =
     (case le_metadata_json e of Some j \<Rightarrow> canonical_metadata_json js j | None \<Rightarrow> pairs_metadata_json js (le_metadata e))"

definition serialize_rich_entry :: "json_lib \<Rightarrow> log_entry \<Rightarrow> bytes res" where
  "serialize_rich_entry js e =
     and_then (severity_name e) (\<lambda>severity.
     if length severity > U16_MAX then Inl (ExceedsU16 ''encode_block: severity'' (length severity))
     else
       and_then (entry_json js e) (\<lambda>j.
       if length j > U32_MAX then Inl (ExceedsU32 ''encode_block: metadata JSON'' (length j))
       else Inr (u16_le (of_nat (length severity)) @ severity @ u32_le (of_nat (length j)) @ j)))"

definition serialize_rich_metadata :: "json_lib \<Rightarrow> log_entry list \<Rightarrow> bytes res" where
  "serialize_rich_metadata js entries =
     and_then (collect_r (serialize_rich_entry js) entries) (\<lambda>bs. Inr (concat bs))"

text \<open>What both rich readers do with the severity and the JSON text of a row.\<close>

definition read_severity :: "nat \<Rightarrow> nat \<Rightarrow> reader \<Rightarrow> (str \<times> reader) res" where
  "read_severity index severity_len r =
     and_then (reader_take r severity_len ''severity bytes'') (\<lambda>(sb, r).
     and_then (from_utf8 sb (InvalidUtf8 ''block: severity'' index)) (\<lambda>severity.
     and_then (canonical_severity severity) (\<lambda>_. Inr (severity, r))))"

definition read_json_text :: "nat \<Rightarrow> reader \<Rightarrow> (str \<times> reader) res" where
  "read_json_text index r =
     and_then (reader_u32 r ''metadata JSON length'') (\<lambda>(json_len, r).
     and_then (reader_take r (unat json_len) ''metadata JSON bytes'') (\<lambda>(jb, r).
     and_then (from_utf8 jb (InvalidUtf8 ''block: metadata JSON'' index)) (\<lambda>j. Inr (j, r))))"

fun parse_rich_rows :: "json_lib \<Rightarrow> log_projection \<Rightarrow> nat \<Rightarrow> nat \<Rightarrow> reader \<Rightarrow> (rich_metadata list \<times> reader) res" where
  "parse_rich_rows js p index 0 r = Inr ([], r)"
| "parse_rich_rows js p index (Suc n) r =
     and_then (reader_u16 r ''severity length'') (\<lambda>(severity_len, r).
     and_then (read_severity index (unat severity_len) r) (\<lambda>(severity, r).
     and_then (read_json_text index r) (\<lambda>(j, r).
     and_then (if lp_metadata p \<or> lp_metadata_pairs p then canonical_metadata_json js j else Inr []) (\<lambda>metadata_json.
     and_then (if lp_metadata_pairs p then metadata_pairs_from_json js metadata_json else Inr []) (\<lambda>metadata.
     and_then (parse_rich_rows js p (Suc index) n r) (\<lambda>(out, r).
     Inr (\<lparr>rm_severity = severity, rm_metadata = metadata, rm_metadata_json = metadata_json\<rparr> # out, r)))))))"

definition parse_rich_metadata_projected :: "json_lib \<Rightarrow> bytes \<Rightarrow> nat \<Rightarrow> log_projection \<Rightarrow> rich_metadata list res" where
  "parse_rich_metadata_projected js b n p =
     and_then (parse_rich_rows js p 0 n (reader_new b)) (\<lambda>(out, r).
     if reader_remaining r \<noteq> 0 then Inl (Trailing ''rich metadata column'' (reader_remaining r))
     else Inr out)"

subsection \<open>Encoding a block\<close>

text \<open>The message column of the typed codecs and the codec it is written with: codec 8 falls back to 7.\<close>

definition encode_messages :: "codec_lib \<Rightarrow> str list \<Rightarrow> byte \<Rightarrow> int \<Rightarrow> (byte \<times> bytes) res" where
  "encode_messages lib msgs codec zstd_level =
     and_then (and_then (encode_str lib msgs (length msgs) zstd_level) to_bytes) (\<lambda>col_msg_str.
     if codec = CODEC_RICH_TEMPLATE then
       and_then (encode_template_str lib msgs zstd_level) (\<lambda>tpl.
       if length tpl < length col_msg_str then Inr (codec, tpl)
       else Inr (CODEC_RICH_COLUMNAR, col_msg_str))
     else Inr (codec, col_msg_str))"

definition encode_columns ::
  "codec_lib \<Rightarrow> log_entry list \<Rightarrow> byte \<Rightarrow> int \<Rightarrow> bytes \<Rightarrow> (byte \<times> bytes list) res" where
  "encode_columns lib entries codec zstd_level col_meta_raw =
     (let n = length entries; ts_values = map le_ts entries; col_lvl_raw = map le_level entries;
          msgs = map le_message entries in
      if typed_codec codec then
        and_then (if codec = CODEC_COLUMNAR_V2 then encode_pairs_column lib (map le_metadata entries) col_meta_raw zstd_level
                  else zstd_compress lib col_meta_raw zstd_level) (\<lambda>col_meta.
        and_then (encode_messages lib msgs codec zstd_level) (\<lambda>(codec, col_msg).
        and_then (and_then (encode_i64 lib ts_values zstd_level) to_bytes) (\<lambda>col_ts.
        and_then (and_then (encode_u8 lib col_lvl_raw zstd_level) to_bytes) (\<lambda>col_lvl.
        Inr (codec, [col_ts, col_lvl, col_msg, col_meta])))))
      else
        let col_ts = (if is_raw_codec codec then concat (map i64_le ts_values)
                      else concat (map i64_le (deltas (I64 0) ts_values))) in
        and_then (len_prefixed_all msgs) (\<lambda>col_msg.
        if codec = CODEC_ZSTD then
          and_then (zstd_compress lib col_ts zstd_level) (\<lambda>c0.
          and_then (zstd_compress lib col_lvl_raw zstd_level) (\<lambda>c1.
          and_then (zstd_compress lib col_msg zstd_level) (\<lambda>c2.
          and_then (zstd_compress lib col_meta_raw zstd_level) (\<lambda>c3.
          Inr (codec, [c0, c1, c2, c3])))))
        else Inr (codec, [col_ts, col_lvl_raw, col_msg, col_meta_raw])))"

text \<open>The length field of a column.\<close>

definition column_len :: "bytes \<Rightarrow> bytes res" where
  "column_len c =
     (if length c > U32_MAX then Inl (ExceedsU32 ''encode_block: column'' (length c))
      else Inr (u32_le (of_nat (length c))))"

definition encode_block :: "codec_lib \<Rightarrow> json_lib \<Rightarrow> log_entry list \<Rightarrow> byte \<Rightarrow> int \<Rightarrow> (bytes \<times> block_meta) res" where
  "encode_block lib js entries codec zstd_level =
     (if entries = [] then Inl (Invalid ''encode_block: refusing to encode an empty block'')
      else if \<not> known_codec codec then Inl (UnknownEncoding ''encode_block'' codec)
      else
        let n = length entries in
        if n > U32_MAX then Inl (ExceedsU32 ''encode_block: entry count'' n)
        else if \<not> rich_codec codec \<and> list_ex is_rich entries then Inl (Invalid ''encode_block: rich log entry'')
        else if list_ex (\<lambda>e. le_level e > 3) entries then Inl (Invalid ''encode_block: invalid level'')
        else
          let ts_min = fold (\<lambda>e m. min m (le_ts e)) entries I64_MAX;
              ts_max = fold (\<lambda>e m. max m (le_ts e)) entries I64_MIN in
          and_then (if rich_codec codec then serialize_rich_metadata js entries else serialize_metadata entries) (\<lambda>col_meta_raw.
          and_then (encode_columns lib entries codec zstd_level col_meta_raw) (\<lambda>(codec, columns).
          and_then (collect_r column_len columns) (\<lambda>lens.
          Inr (FORMAT_VERSION # codec # u32_le (of_nat n) @ i64_le ts_min @ i64_le ts_max @ concat lens @ concat columns,
            \<lparr>bm_ts_min = ts_min, bm_ts_max = ts_max, bm_entry_count = of_nat n, bm_codec = codec\<rparr>)))))"

subsection \<open>Decoding a block\<close>

text \<open>The header: codec, entry count, range and the lengths of the four columns.\<close>

definition read_block_codec :: "bytes \<Rightarrow> (byte \<times> reader) res" where
  "read_block_codec b =
     and_then (reader_u8 (reader_new b) ''format version'') (\<lambda>(version, r).
     if version \<noteq> FORMAT_VERSION then Inl (Invalid ''block: unsupported format version'')
     else reader_u8 r ''codec'')"

definition read_block_lens :: "reader \<Rightarrow> ((nat \<times> i64 \<times> i64 \<times> nat \<times> nat \<times> nat \<times> nat) \<times> reader) res" where
  "read_block_lens r =
     and_then (reader_u32 r ''entry_count'') (\<lambda>(n, r).
     and_then (check_entry_count (unat n) ''block'') (\<lambda>_.
     and_then (reader_i64 r ''ts_min'') (\<lambda>(ts_min, r).
     and_then (reader_i64 r ''ts_max'') (\<lambda>(ts_max, r).
     and_then (reader_u32 r ''ts column length'') (\<lambda>(l0, r).
     and_then (reader_u32 r ''level column length'') (\<lambda>(l1, r).
     and_then (reader_u32 r ''message column length'') (\<lambda>(l2, r).
     and_then (reader_u32 r ''metadata column length'') (\<lambda>(l3, r).
     Inr ((unat n, ts_min, ts_max, unat l0, unat l1, unat l2, unat l3), r)))))))))"

record block_columns =
  bc_n :: nat
  bc_ts_min :: i64
  bc_ts_max :: i64
  bc_ts :: bytes
  bc_levels :: bytes
  bc_messages :: bytes
  bc_metadata :: bytes

definition read_block_columns :: "reader \<Rightarrow> block_columns res" where
  "read_block_columns r =
     and_then (read_block_lens r) (\<lambda>((n, ts_min, ts_max, l0, l1, l2, l3), r).
     and_then (reader_take r l0 ''ts column'') (\<lambda>(c0, r).
     and_then (reader_take r l1 ''level column'') (\<lambda>(c1, r).
     and_then (reader_take r l2 ''message column'') (\<lambda>(c2, r).
     and_then (reader_take r l3 ''metadata column'') (\<lambda>(c3, r).
     if reader_remaining r \<noteq> 0 then Inl (Trailing ''block'' (reader_remaining r))
     else Inr \<lparr>bc_n = n, bc_ts_min = ts_min, bc_ts_max = ts_max, bc_ts = c0, bc_levels = c1, bc_messages = c2, bc_metadata = c3\<rparr>)))))"

text \<open>The loops that zip the columns back into entries; \<open>next_r\<close> is \<open>it.next().unwrap()\<close> or an index.\<close>

fun next_r :: "string \<Rightarrow> 'a list \<Rightarrow> ('a \<times> 'a list) res" where
  "next_r w [] = Inl (Panic w)"
| "next_r w (x # xs) = Inr (x, xs)"

fun zip_entries ::
  "bool \<Rightarrow> nat \<Rightarrow> i64 list \<Rightarrow> bytes \<Rightarrow> str list \<Rightarrow> (str \<times> str) list list \<Rightarrow> rich_metadata list \<Rightarrow> log_entry list res" where
  "zip_entries rich 0 ts ls ms mds rs = Inr []"
| "zip_entries rich (Suc n) ts ls ms mds rs =
     and_then (if rich then
         and_then (next_r ''rich'' rs) (\<lambda>(r, rs).
         Inr ((rm_metadata r, Some (rm_severity r), Some (rm_metadata_json r)), mds, rs))
       else and_then (next_r ''metadata'' mds) (\<lambda>(md, mds). Inr ((md, None, None), mds, rs)))
       (\<lambda>((metadata, severity, metadata_json), mds, rs).
     and_then (next_r ''timestamps'' ts) (\<lambda>(t, ts).
     and_then (next_r ''levels'' ls) (\<lambda>(l, ls).
     and_then (next_r ''messages'' ms) (\<lambda>(m, ms).
     and_then (zip_entries rich n ts ls ms mds rs) (\<lambda>out.
     Inr (\<lparr>le_ts = t, le_level = l, le_severity = severity, le_message = m, le_metadata = metadata,
           le_metadata_json = metadata_json\<rparr> # out))))))"

definition check_levels :: "bytes \<Rightarrow> unit res" where
  "check_levels levels = ensure (\<not> list_ex (\<lambda>l. l > 3) levels) (Invalid ''block: invalid level byte'')"

definition decode_columnar :: "codec_lib \<Rightarrow> json_lib \<Rightarrow> byte \<Rightarrow> block_columns \<Rightarrow> log_projection \<Rightarrow> log_entry list res" where
  "decode_columnar lib js codec bc p =
     (let n = bc_n bc; rich = (codec \<in> {CODEC_RICH_COLUMNAR, CODEC_RICH_TEMPLATE}) in
      and_then (decode_i64 lib (bc_ts bc) n) (\<lambda>timestamps.
      and_then (decode_u8 lib (bc_levels bc) n) (\<lambda>levels.
      and_then (check_levels levels) (\<lambda>_.
      and_then (if \<not> lp_message p then Inr (replicate n [])
                else if codec = CODEC_RICH_TEMPLATE then decode_template_str lib (bc_messages bc) n
                else decode_str lib (bc_messages bc) n) (\<lambda>messages.
      and_then (if rich \<and> rich_envelope p then
                  and_then (zstd_decompress lib (bc_metadata bc) ''rich metadata column'') (\<lambda>raw.
                  parse_rich_metadata_projected js raw n p)
                else Inr []) (\<lambda>rich_metadatas.
      and_then (if \<not> lp_metadata p \<and> \<not> lp_metadata_pairs p then Inr (replicate n [])
                else if codec = CODEC_COLUMNAR_V2 then decode_pairs_column lib (bc_metadata bc) n parse_metadata
                else if rich then Inr []
                else and_then (zstd_decompress lib (bc_metadata bc) ''metadata column'') (\<lambda>raw. parse_metadata raw n)) (\<lambda>metadatas.
      and_then (zip_entries (rich \<and> rich_envelope p) n timestamps levels messages metadatas rich_metadatas) (\<lambda>out.
      and_then (check_block_range ''block'' n (bc_ts_min bc) (bc_ts_max bc) timestamps) (\<lambda>_.
      Inr out)))))))))"

definition legacy_columns :: "codec_lib \<Rightarrow> byte \<Rightarrow> block_columns \<Rightarrow> log_projection \<Rightarrow> (bytes \<times> bytes \<times> bytes \<times> bytes) res" where
  "legacy_columns lib codec bc p =
     (if codec = CODEC_ZSTD then
        and_then (zstd_decompress lib (bc_ts bc) ''ts column'') (\<lambda>c0.
        and_then (zstd_decompress lib (bc_levels bc) ''level column'') (\<lambda>c1.
        and_then (if \<not> lp_message p then Inr [] else zstd_decompress lib (bc_messages bc) ''message column'') (\<lambda>c2.
        and_then (if \<not> lp_metadata p \<and> \<not> lp_metadata_pairs p then Inr []
                  else zstd_decompress lib (bc_metadata bc) ''metadata column'') (\<lambda>c3.
        Inr (c0, c1, c2, c3)))))
      else
        Inr (bc_ts bc, bc_levels bc, if \<not> lp_message p then [] else bc_messages bc,
          if \<not> (lp_metadata p \<or> lp_metadata_pairs p \<or> (codec = CODEC_RICH_RAW \<and> lp_severity p)) then []
          else bc_metadata bc))"

definition legacy_timestamps :: "byte \<Rightarrow> nat \<Rightarrow> bytes \<Rightarrow> i64 list res" where
  "legacy_timestamps codec n c0 =
     (if length c0 \<noteq> n * 8 then Inl (WrongCount ''block: ts column'' (length c0) (n * 8))
      else
        let words = map i64_from_le (as_chunks 8 c0)
        in Inr (if codec = CODEC_ZSTD then undeltas (I64 0) words else words))"

definition legacy_messages :: "log_projection \<Rightarrow> nat \<Rightarrow> bytes \<Rightarrow> str list res" where
  "legacy_messages p n c2 =
     and_then (if \<not> lp_message p then Inr (replicate n [], reader_new c2)
               else read_strs ''message length'' ''message bytes'' ''block: message'' 0 n (reader_new c2)) (\<lambda>(messages, mr).
     if reader_remaining mr \<noteq> 0 then Inl (Trailing ''message column'' (reader_remaining mr)) else Inr messages)"

definition decode_block_legacy :: "codec_lib \<Rightarrow> json_lib \<Rightarrow> byte \<Rightarrow> block_columns \<Rightarrow> log_projection \<Rightarrow> log_entry list res" where
  "decode_block_legacy lib js codec bc p =
     (let n = bc_n bc; rich = (codec = CODEC_RICH_RAW) in
      and_then (legacy_columns lib codec bc p) (\<lambda>(c0, c1, c2, c3).
      and_then (legacy_timestamps codec n c0) (\<lambda>timestamps.
      and_then (ensure (length c1 = n) (WrongCount ''block: level column'' (length c1) n)) (\<lambda>_.
      and_then (check_levels c1) (\<lambda>_.
      and_then (legacy_messages p n c2) (\<lambda>messages.
      and_then (if rich \<and> rich_envelope p then parse_rich_metadata_projected js c3 n p else Inr []) (\<lambda>rich_metadatas.
      and_then (if \<not> lp_metadata p \<and> \<not> lp_metadata_pairs p then Inr (replicate n [])
                else if rich then Inr [] else parse_metadata c3 n) (\<lambda>metadatas.
      and_then (zip_entries (rich \<and> rich_envelope p) n timestamps c1 messages metadatas rich_metadatas) (\<lambda>out.
      and_then (check_block_range ''block'' n (bc_ts_min bc) (bc_ts_max bc) timestamps) (\<lambda>_.
      Inr out))))))))))"

definition decode_block_projected :: "codec_lib \<Rightarrow> json_lib \<Rightarrow> bytes \<Rightarrow> log_projection \<Rightarrow> log_entry list res" where
  "decode_block_projected lib js b p =
     and_then (read_block_codec b) (\<lambda>(codec, r).
     if \<not> known_codec codec then Inl (UnknownEncoding ''block'' codec)
     else
       and_then (read_block_columns r) (\<lambda>bc.
       if typed_codec codec then decode_columnar lib js codec bc p
       else decode_block_legacy lib js codec bc p))"

definition decode_block :: "codec_lib \<Rightarrow> json_lib \<Rightarrow> bytes \<Rightarrow> log_entry list res" where
  "decode_block lib js b = decode_block_projected lib js b PROJECTION_ALL"

subsection \<open>Decoding matching rows only\<close>

text \<open>
  The engine's \<open>message_contains\<close>: \<open>lower\<close> stands for \<open>str::to_lowercase\<close>, which only non-ASCII needles
  reach.
\<close>

definition str_contains :: "str \<Rightarrow> str \<Rightarrow> bool" where
  "str_contains hay needle \<longleftrightarrow> list_ex (\<lambda>w. w = needle) (windows (length needle) hay)"

definition message_contains_ci :: "(str \<Rightarrow> str) \<Rightarrow> str \<Rightarrow> str \<Rightarrow> bool" where
  "message_contains_ci lower message needle \<longleftrightarrow>
     (if needle = [] then True
      else if is_ascii needle then any_window_ci message needle
      else str_contains (lower message) (lower needle))"

record filtered_block_rows =
  fb_rows :: "(nat \<times> log_entry) list"
  fb_total_rows :: nat
  fb_candidate_rows :: nat

definition full_fallback :: "codec_lib \<Rightarrow> json_lib \<Rightarrow> (str \<Rightarrow> str) \<Rightarrow> bytes \<Rightarrow> str \<Rightarrow> filtered_block_rows res" where
  "full_fallback lib js lower b needle =
     and_then (decode_block lib js b) (\<lambda>entries.
     Inr \<lparr>fb_rows = filter (\<lambda>(_, e). message_contains_ci lower (le_message e) needle) (enumerate 0 entries),
          fb_total_rows = length entries, fb_candidate_rows = length entries\<rparr>)"

text \<open>The walk over the rich metadata: rows that are not kept only advance the reader.\<close>

fun rich_walk ::
  "json_lib \<Rightarrow> i64 list \<Rightarrow> bytes \<Rightarrow> (nat \<times> str) list \<Rightarrow> nat \<Rightarrow> nat \<Rightarrow> reader \<Rightarrow> ((nat \<times> log_entry) list \<times> reader) res" where
  "rich_walk js timestamps levels keep index 0 r = Inr ([], r)"
| "rich_walk js timestamps levels keep index (Suc n) r =
     and_then (reader_u16 r ''severity length'') (\<lambda>(severity_len, r).
     if keep \<noteq> [] \<and> fst (hd keep) = index then
       and_then (read_severity index (unat severity_len) r) (\<lambda>(severity, r).
       and_then (read_json_text index r) (\<lambda>(j, r).
       and_then (canonical_metadata_json js j) (\<lambda>metadata_json.
       and_then (metadata_pairs_from_json js metadata_json) (\<lambda>metadata.
       and_then (index_r ''timestamps'' timestamps index) (\<lambda>t.
       and_then (index_r ''levels'' levels index) (\<lambda>l.
       and_then (rich_walk js timestamps levels (tl keep) (Suc index) n r) (\<lambda>(rows, r).
       Inr ((fst (hd keep), \<lparr>le_ts = t, le_level = l, le_severity = Some severity, le_message = snd (hd keep),
              le_metadata = metadata, le_metadata_json = Some metadata_json\<rparr>) # rows, r))))))))
     else
       and_then (reader_take r (unat severity_len) ''severity bytes'') (\<lambda>(_, r).
       and_then (reader_u32 r ''metadata JSON length'') (\<lambda>(json_len, r).
       and_then (reader_take r (unat json_len) ''metadata JSON bytes'') (\<lambda>(_, r).
       rich_walk js timestamps levels keep (Suc index) n r))))"

definition decode_block_filtered :: "codec_lib \<Rightarrow> json_lib \<Rightarrow> (str \<Rightarrow> str) \<Rightarrow> bytes \<Rightarrow> str \<Rightarrow> filtered_block_rows res" where
  "decode_block_filtered lib js lower b needle =
     (if needle = [] \<or> \<not> is_ascii needle then full_fallback lib js lower b needle
      else
        and_then (read_block_codec b) (\<lambda>(codec, r).
        if codec \<noteq> CODEC_RICH_TEMPLATE then full_fallback lib js lower b needle
        else
          and_then (read_block_columns r) (\<lambda>bc.
          let n = bc_n bc in
          and_then (decode_template_str_filtered lib (bc_messages bc) n needle) (\<lambda>filtered.
          if fm_rows filtered = [] then
            Inr \<lparr>fb_rows = [], fb_total_rows = n, fb_candidate_rows = fm_candidate_rows filtered\<rparr>
          else
            and_then (decode_i64 lib (bc_ts bc) n) (\<lambda>timestamps.
            and_then (decode_u8 lib (bc_levels bc) n) (\<lambda>levels.
            and_then (check_levels levels) (\<lambda>_.
            and_then (zstd_decompress lib (bc_metadata bc) ''rich metadata column'') (\<lambda>raw.
            and_then (rich_walk js timestamps levels (fm_rows filtered) 0 n (reader_new raw)) (\<lambda>(rows, r).
            if reader_remaining r \<noteq> 0 then Inl (Trailing ''rich metadata column'' (reader_remaining r))
            else
              and_then (check_block_range ''block'' n (bc_ts_min bc) (bc_ts_max bc) timestamps) (\<lambda>_.
              Inr \<lparr>fb_rows = rows, fb_total_rows = n, fb_candidate_rows = fm_candidate_rows filtered\<rparr>)))))))))) "

subsection \<open>The pre-decode check\<close>

lemma reader_u32_remaining: "reader_u32 r w = Inr (x, r') \<Longrightarrow> reader_remaining r' < reader_remaining r"
  by (auto simp: reader_fields_eq reader_take_eq reader_remaining_def split: if_split_asm)

lemma reader_take_remaining: "reader_take r n w = Inr (x, r') \<Longrightarrow> reader_remaining r' \<le> reader_remaining r"
  by (auto simp: reader_take_eq reader_remaining_def split: if_split_asm)

text \<open>The scan of the concatenated strings: how many there are and whether one has the needle.\<close>

function scan_strs :: "(str \<Rightarrow> bool) \<Rightarrow> nat \<Rightarrow> bool \<Rightarrow> reader \<Rightarrow> (nat \<times> bool) res" where
  "scan_strs contains cnt found r =
     (if reader_remaining r > 0 then
        and_then (reader_u32 r ''string length'') (\<lambda>(len, r1).
        and_then (reader_take r1 (unat len) ''string bytes'') (\<lambda>(bs, r2).
        and_then (from_utf8 bs (InvalidUtf8 ''string column'' cnt)) (\<lambda>s.
        scan_strs contains (Suc cnt) (found \<or> contains s) r2)))
      else Inr (cnt, found))"
  by pat_completeness auto
termination
  by (relation "measure (\<lambda>(_, _, _, r). reader_remaining r)")
    (auto dest!: reader_u32_remaining reader_take_remaining)

declare scan_strs.simps [simp del]

fun codes_found :: "nat \<Rightarrow> bool list \<Rightarrow> nat \<Rightarrow> bool \<Rightarrow> bytes list \<Rightarrow> (nat \<times> bool) res" where
  "codes_found n hits expanded found [] = Inr (expanded, found)"
| "codes_found n hits expanded found (p # ps) =
     (if pair_code p \<ge> length hits then Inl (CodeOutOfRange ''string column'' (pair_code p) (length hits))
      else if pair_run p = 0 \<or> (case checked_add expanded (pair_run p) of
                None \<Rightarrow> True | Some tot \<Rightarrow> tot > n)
        then Inl (RunsExceed ''string column'' n)
      else and_then (if found then Inr True else index_r ''hits'' hits (pair_code p)) (\<lambda>found.
           codes_found n hits (expanded + pair_run p) found ps))"

definition columnar_message_feasible :: "codec_lib \<Rightarrow> bytes \<Rightarrow> nat \<Rightarrow> (str \<Rightarrow> bool) \<Rightarrow> bool res" where
  "columnar_message_feasible lib msg n contains =
     and_then (read_column_frame msg ''message column'') (\<lambda>(enc, payload).
     if enc = ENC_STR_ZSTD then
       and_then (zstd_decompress_capped lib payload ''message column'' DECOMPRESS_MAX_BYTES) (\<lambda>raw.
       and_then (scan_strs contains 0 False (reader_new raw)) (\<lambda>(cnt, found).
       if cnt \<noteq> n then Inl (WrongCount ''string column'' cnt n) else Inr found))
     else if enc = ENC_STR_DICT then
       and_then (reader_u32 (reader_new payload) ''dict count'') (\<lambda>(dict_count, r).
       and_then (reader_u32 r ''dict zstd length'') (\<lambda>(dict_zstd_len, r).
       and_then (reader_take r (unat dict_zstd_len) ''dict bytes'') (\<lambda>(dict_zstd, r).
       and_then (reader_take r (reader_remaining r) ''code bytes'') (\<lambda>(codes_zstd, r).
       and_then (zstd_decompress_capped lib dict_zstd ''message dictionary'' DECOMPRESS_MAX_BYTES) (\<lambda>dict_raw.
       and_then (read_strs ''dict entry length'' ''dict entry bytes'' ''string column: dict entry''
                   0 (unat dict_count) (reader_new dict_raw)) (\<lambda>(dict, dr).
       if reader_remaining dr \<noteq> 0 then Inl (Trailing ''string column: dictionary'' (reader_remaining dr))
       else
         and_then (zstd_decompress_capped lib codes_zstd ''message codes'' DECOMPRESS_MAX_BYTES) (\<lambda>codes_raw.
         if length codes_raw mod 8 \<noteq> 0 then Inl (NotMultiple ''string column: RLE stream'' (length codes_raw) 8)
         else
           and_then (codes_found n (map contains dict) 0 False (as_chunks 8 codes_raw)) (\<lambda>(expanded, found).
           if expanded \<noteq> n then Inl (WrongCount ''string column'' expanded n) else Inr found))))))))
     else Inl (UnknownEncoding ''string column'' enc))"

definition block_message_feasible :: "codec_lib \<Rightarrow> bytes \<Rightarrow> str \<Rightarrow> bool res" where
  "block_message_feasible lib b needle =
     (if needle = [] \<or> \<not> is_ascii needle then Inr True
      else
        and_then (read_block_codec b) (\<lambda>(codec, r).
        if \<not> known_codec codec then Inl (UnknownEncoding ''block'' codec)
        else
          and_then (read_block_lens r) (\<lambda>((n, _, _, l0, l1, l2, _), r).
          and_then (reader_take r l0 ''ts column'') (\<lambda>(_, r).
          and_then (reader_take r l1 ''level column'') (\<lambda>(_, r).
          and_then (reader_take r l2 ''message column'') (\<lambda>(msg, _).
          if codec = CODEC_RICH_TEMPLATE then column_may_contain lib msg needle
          else if codec \<in> {CODEC_RAW, CODEC_RICH_RAW} then Inr (any_window_ci msg needle)
          else if codec = CODEC_ZSTD then
            and_then (zstd_decompress lib msg ''message column'') (\<lambda>raw. Inr (any_window_ci raw needle))
          else columnar_message_feasible lib msg n (\<lambda>s. any_window_ci s needle)))))))"

end
