(* ===== verification/PieceSearch.thy ===== *)
theory PieceSearch
  imports Template
begin

section \<open>Where a substring of a message can lie\<close>

text \<open>
  The combinatorial facts behind the feasibility checks: a digit-free stretch of a message lies in one
  string variable, or is the end of a string variable followed by template text followed by the start of
  a string variable; a maximal digit run is a number variable or a maximal run of a string variable; in
  whole-token mode a stretch of token bytes lies in one piece.
\<close>

abbreviation digit_free :: "bytes \<Rightarrow> bool" where
  "digit_free \<equiv> list_all (\<lambda>b. \<not> is_ascii_digit b)"

abbreviation str_var :: "piece list \<Rightarrow> str \<Rightarrow> bool" where
  "str_var ps t \<equiv> PVar VStr t \<in> set ps"

primrec lead :: "piece list \<Rightarrow> str" where
  "lead [] = []"
| "lead (p # ps) = (if is_pvar p then [] else piece_text p @ lead ps)"

definition seg_part :: "str \<Rightarrow> piece list \<Rightarrow> bool" where
  "seg_part x ps \<longleftrightarrow> (\<exists>qs rs y z. ps = qs @ rs \<and> lead rs = y @ x @ z)"

lemma seg_part_Cons: "seg_part x ps \<Longrightarrow> seg_part x (p # ps)"
  unfolding seg_part_def by (metis append_Cons)

lemma seg_part_lead: "lead ps = y @ x @ z \<Longrightarrow> seg_part x ps"
  unfolding seg_part_def by (metis append_Nil)

text \<open>Splitting a piece off a text that a known stretch occurs in.\<close>

lemma append_split_le:
  assumes "x @ r = f @ c" "length f \<le> length x"
  obtains y where "x = f @ y" "c = y @ r"
proof
  have "take (length f) (x @ r) = f" "drop (length f) (x @ r) = c" by (simp_all add: assms(1))
  then show "x = f @ drop (length f) x" "c = drop (length f) x @ r"
    using assms(2) append_take_drop_id [of "length f" x] by auto
qed

lemma split_first:
  assumes "t @ r = a @ f @ c"
  obtains (later) a' where "a = t @ a'" "r = a' @ f @ c"
    | (inside) y where "t = a @ f @ y" "c = y @ r"
    | (across) t' f' where "t = a @ t'" "t' \<noteq> []" "f = t' @ f'" "f' \<noteq> []" "r = f' @ c"
proof (cases "length t \<le> length a")
  case True
  show thesis by (rule append_split_le [OF assms [symmetric] True]) (rule later)
next
  case False
  then obtain t' where t': "t = a @ t'" "f @ c = t' @ r" using append_split_le [OF assms] by auto
  show thesis
  proof (cases "length f \<le> length t'")
    case True
    then show thesis using append_split_le [OF t'(2) [symmetric] True] inside t'(1) by auto
  next
    case no: False
    then obtain f' where f': "f = t' @ f'" "r = f' @ c" using append_split_le [OF t'(2)] by auto
    have "t' \<noteq> []" "f' \<noteq> []" using False t'(1) no f'(1) by auto
    then show thesis using across [of t' f'] t'(1) f' by simp
  qed
qed

lemma piece_text_digit_free: "piece_ok p \<Longrightarrow> \<not> is_pvar p \<Longrightarrow> digit_free (piece_text p) \<and> piece_text p \<noteq> []"
  by (cases p) (auto simp: list_all_iff SENTINEL_def is_ascii_digit_def)

lemma pvar_cases:
  assumes "piece_ok p" "is_pvar p"
  obtains k t where "p = PVar k t" "piece_text p = t" "list_ex is_ascii_digit t" "k = VNum \<longrightarrow> list_all is_ascii_digit t"
  using assms by (cases p) auto

lemma digit_free_prefix:
  assumes "pieces_wf ps" "pieces_text ps = f @ c" "digit_free f"
  shows "\<exists>mid v. f = mid @ v \<and> (\<exists>z. lead ps = mid @ z) \<and> (v = [] \<or> (\<exists>t y. str_var ps t \<and> t = v @ y))"
  using assms
proof (induction ps arbitrary: f)
  case (Cons p ps)
  have ok: "piece_ok p" "pieces_wf ps" using Cons.prems(1) by simp_all
  have eq: "piece_text p @ pieces_text ps = [] @ f @ c" using Cons.prems(2) by simp
  show ?case
  proof (cases "is_pvar p")
    case True
    obtain k t where p: "p = PVar k t" "piece_text p = t" "list_ex is_ascii_digit t"
      "k = VNum \<longrightarrow> list_all is_ascii_digit t" using pvar_cases [OF ok(1) True] .
    from eq show ?thesis
    proof (cases rule: split_first)
      case (later a')
      then show ?thesis using p by simp
    next
      case (inside y)
      then have "t = f @ y" using p(2) by simp
      moreover have "f = []" if "k = VNum" using p(4) that Cons.prems(3) \<open>t = f @ y\<close> by (cases f) auto
      ultimately show ?thesis using p(1) by (intro exI [of _ "[]"] exI [of _ f]) (cases k; auto)
    next
      case (across t' f')
      then have "digit_free t" using p(2) Cons.prems(3) by simp
      then show ?thesis using p(3) by (auto simp: list_all_iff list_ex_iff)
    qed
  next
    case False
    from eq show ?thesis
    proof (cases rule: split_first)
      case (later a')
      then show ?thesis using piece_text_digit_free [OF ok(1) False] by simp
    next
      case (inside y)
      then show ?thesis using False by (intro exI [of _ f] exI [of _ "[]"]) auto
    next
      case (across t' f')
      then have "digit_free f'" using Cons.prems(3) by simp
      then obtain mid v where "f' = mid @ v" "\<exists>z. lead ps = mid @ z" "v = [] \<or> (\<exists>t y. str_var ps t \<and> t = v @ y)"
        using Cons.IH [OF ok(2) across(5)] by blast
      then show ?thesis using across False by (intro exI [of _ "t' @ mid"] exI [of _ v]) auto
    qed
  qed
qed auto

text \<open>A digit-free stretch.\<close>

inductive frag_in :: "str set \<Rightarrow> (str \<Rightarrow> bool) \<Rightarrow> str \<Rightarrow> bool" for S seg where
  inside: "x @ f @ y \<in> S \<Longrightarrow> frag_in S seg f"
| parts: "u = [] \<or> x @ u \<in> S \<Longrightarrow> mid = [] \<or> seg mid \<Longrightarrow> v = [] \<or> v @ y \<in> S \<Longrightarrow> frag_in S seg (u @ mid @ v)"

lemma frag_in_mono:
  assumes "frag_in S seg f" "S \<subseteq> S'" "\<And>x. seg x \<Longrightarrow> seg' x"
  shows "frag_in S' seg' f"
  using assms(1)
proof cases
  case (inside x y)
  then show ?thesis using assms(2) by (intro frag_in.inside) blast
next
  case (parts u x mid v y)
  then show ?thesis using assms(2,3) unfolding parts(1) by (intro frag_in.parts) blast+
qed

abbreviation str_texts :: "piece list \<Rightarrow> str set" where
  "str_texts ps \<equiv> {t. str_var ps t}"

lemma fragment_in_pieces:
  assumes "pieces_wf ps" "pieces_text ps = a @ f @ c" "f \<noteq> []" "digit_free f"
  shows "frag_in (str_texts ps) (\<lambda>x. seg_part x ps) f"
  using assms(1,2)
proof (induction ps arbitrary: a)
  case (Cons p ps)
  have ok: "piece_ok p" "pieces_wf ps" using Cons.prems(1) by simp_all
  have eq: "piece_text p @ pieces_text ps = a @ f @ c" using Cons.prems(2) by simp
  have str: "piece_text p \<in> str_texts (p # ps)"
    if v: "is_pvar p" and t: "piece_text p = a @ g @ y" "g \<noteq> []" "digit_free g" for g y
  proof -
    obtain k t where p: "p = PVar k t" "piece_text p = t" "list_ex is_ascii_digit t" "k = VNum \<longrightarrow> list_all is_ascii_digit t"
      using pvar_cases [OF ok(1) v] .
    have "\<not> list_all is_ascii_digit t" using t p(2) by (cases g) auto
    then show ?thesis using p by (cases k) auto
  qed
  from eq show ?case
  proof (cases rule: split_first)
    case (later a')
    from Cons.IH [OF ok(2) later(2)] show ?thesis by (rule frag_in_mono) (auto intro: seg_part_Cons)
  next
    case (inside y)
    show ?thesis
    proof (cases "is_pvar p")
      case True
      then show ?thesis
        using str [OF True inside(1) assms(3,4)] inside(1) by (intro frag_in.inside) simp
    next
      case False
      then have "seg_part f (p # ps)" using inside(1) by (intro seg_part_lead [of _ a f "y @ lead ps"]) simp
      then show ?thesis using frag_in.parts [of "[]" _ _ f _ "[]"] by simp
    qed
  next
    case (across t' f')
    have df: "digit_free t'" "digit_free f'" using assms(4) across(3) by simp_all
    obtain mid v z y where m: "f' = mid @ v" "v = [] \<or> v @ y \<in> str_texts ps" and z: "lead ps = mid @ z"
      using digit_free_prefix [OF ok(2) across(5) df(2)] by auto
    have v: "v = [] \<or> v @ y \<in> str_texts (p # ps)" using m(2) by auto
    show ?thesis
    proof (cases "is_pvar p")
      case True
      have "piece_text p \<in> str_texts (p # ps)" "piece_text p = a @ t'"
        using str [OF True, of t' "[]"] across(1,2) df(1) by simp_all
      then have u: "a @ t' \<in> str_texts (p # ps)" by simp
      moreover have "seg_part mid (p # ps)" using seg_part_lead [of ps "[]" mid z] z by (simp add: seg_part_Cons)
      ultimately show ?thesis
        unfolding across(3) m(1) using v by (intro frag_in.parts [of _ a _ _ _ _ y]) simp_all
    next
      case False
      then have "seg_part (t' @ mid) (p # ps)"
        using across(1) z by (intro seg_part_lead [of _ a "t' @ mid" z]) simp
      then show ?thesis
        using frag_in.parts [of "[]" _ _ "t' @ mid" _ v y] v across(3) m(1) by simp
    qed
  qed
qed (use assms(3) in auto)

text \<open>A maximal digit run.\<close>

lemma run_in_pieces:
  assumes "pieces_wf ps" "pieces_text ps = a @ r @ c" "r \<noteq> []" "list_all is_ascii_digit r"
    and "a \<noteq> [] \<Longrightarrow> \<not> is_ascii_digit (last a)" "c \<noteq> [] \<Longrightarrow> \<not> is_ascii_digit (hd c)"
  shows "PVar VNum r \<in> set ps \<or> (\<exists>t x y. str_var ps t \<and> t = x @ r @ y \<and>
     (x \<noteq> [] \<longrightarrow> \<not> is_ascii_digit (last x)) \<and> (y \<noteq> [] \<longrightarrow> \<not> is_ascii_digit (hd y)))"
  using assms(1,2,5)
proof (induction ps arbitrary: a)
  case (Cons p ps)
  have ok: "piece_ok p" "pieces_wf ps" using Cons.prems(1) by simp_all
  have hd: "is_ascii_digit (hd r)" "r = hd r # tl r" using assms(3,4) by (cases r; simp)+
  have eq: "piece_text p @ pieces_text ps = a @ r @ c" using Cons.prems(2) by simp
  have var: "is_pvar p" if "piece_text p = a @ t'" "t' \<noteq> []" "is_ascii_digit (hd t')" for t'
    using piece_text_digit_free [OF ok(1)] that by (cases t') auto
  from eq show ?case
  proof (cases rule: split_first)
    case (later a')
    have "a' \<noteq> [] \<Longrightarrow> \<not> is_ascii_digit (last a')" using Cons.prems(3) later(1) by simp
    from Cons.IH [OF ok(2) later(2) this] show ?thesis by auto
  next
    case (inside y)
    have v: "is_pvar p" using var [of "r @ y"] inside(1) assms(3) hd(1) by simp
    obtain k t where p: "p = PVar k t" "piece_text p = t" "list_ex is_ascii_digit t"
      "k = VNum \<longrightarrow> list_all is_ascii_digit t" using pvar_cases [OF ok(1) v] .
    have y: "\<not> is_ascii_digit (hd y)" if "y \<noteq> []"
    proof -
      have "c \<noteq> []" "hd c = hd y" using inside(2) that by simp_all
      then show ?thesis using assms(6) by simp
    qed
    show ?thesis
    proof (cases k)
      case VNum
      then have "list_all is_ascii_digit (a @ r @ y)" using p(2,4) inside(1) by simp
      then have da: "list_all is_ascii_digit a" and dy: "list_all is_ascii_digit y" by simp_all
      have "a = []" using Cons.prems(3) da by (cases a rule: rev_cases) auto
      moreover have "y = []" using y dy by (cases y) auto
      ultimately show ?thesis using p(1,2) VNum inside(1) by simp
    next
      case VStr
      then have "str_var (p # ps) (a @ r @ y)" using p(1,2) inside(1) by simp
      then show ?thesis using Cons.prems(3) y by blast
    qed
  next
    case (across t' f')
    have "is_ascii_digit (hd t')" using across(2,3) assms(4) by (cases t') simp_all
    then have "is_pvar p" using var [of t'] across(1,2) by simp
    then have "\<not> starts_var ps" using Cons.prems(1) by simp
    moreover have "is_ascii_digit (hd (pieces_text ps))" "pieces_text ps \<noteq> []"
      using across(3-5) assms(4) by (cases f'; simp)+
    moreover from this obtain q qs where q: "ps = q # qs" by (cases ps) auto
    ultimately have "digit_free (piece_text q)" "piece_text q \<noteq> []" "is_ascii_digit (hd (piece_text q @ pieces_text qs))"
      using piece_text_digit_free [of q] ok(2) by simp_all
    then show ?thesis by (cases "piece_text q") simp_all
  qed
qed (use assms(3) in auto)

text \<open>A stretch of token bytes with a digit and a non-digit, in whole-token mode.\<close>

lemma token_in_pieces:
  assumes "pieces_wf ps" "whole_pieces ps" "pieces_text ps = a @ w @ c"
    and "list_all is_token_byte w" "list_ex is_ascii_digit w" "list_ex (\<lambda>b. \<not> is_ascii_digit b) w"
  shows "\<exists>t \<in> str_texts ps. \<exists>x y. t = x @ w @ y"
  using assms(1-3)
proof (induction ps arbitrary: a)
  case (Cons p ps)
  have ok: "piece_ok p" "pieces_wf ps" using Cons.prems(1) by simp_all
  have eq: "piece_text p @ pieces_text ps = a @ w @ c" using Cons.prems(3) by simp
  from eq show ?case
  proof (cases rule: split_first)
    case (later a')
    from Cons.IH [OF ok(2) _ later(2)] Cons.prems(2) show ?thesis by auto
  next
    case (inside y)
    have v: "is_pvar p"
      using piece_text_digit_free [OF ok(1)] inside(1) assms(5) by (auto simp: list_all_iff list_ex_iff)
    obtain k t where p: "p = PVar k t" "piece_text p = t" "list_ex is_ascii_digit t"
      "k = VNum \<longrightarrow> list_all is_ascii_digit t" using pvar_cases [OF ok(1) v] .
    then have "k = VStr" using inside(1) assms(6) by (cases k) (auto simp: list_all_iff list_ex_iff)
    then show ?thesis using p(1,2) inside(1) by auto
  next
    case (across t' f')
    have "is_token_byte (hd t')" "is_token_byte (hd f')" using across assms(4) by (cases t'; cases f'; simp)+
    then have "tok_piece p" using Cons.prems(2) across(1,2) by (cases t') auto
    then have "\<not> starts_tok ps" using Cons.prems(2) by simp
    moreover obtain q qs where "ps = q # qs" using across(4,5) by (cases ps) auto
    moreover have "piece_text q \<noteq> []"
      using ok(2) \<open>ps = q # qs\<close> piece_text_digit_free [of q] by (cases q) auto
    ultimately show ?thesis
      using Cons.prems(2) \<open>is_token_byte (hd f')\<close> across(4,5) by (cases "piece_text q"; cases f') auto
  qed
qed (use assms(5) in auto)

end
