(* ===== verification/SearchFacts.thy ===== *)
theory SearchFacts
  imports TemplateSearch PieceSearch
begin

section \<open>A needle that occurs is never ruled out\<close>

text \<open>
  Soundness of the feasibility checks: if a message contains the needle, every part of the needle is
  explained by the template text and the variables of the message, so the checks answer true. Then the
  decoder that skips rows finds the same rows as decoding everything.
\<close>

subsection \<open>Case-insensitive matches\<close>

lemma lower_digit [simp]: "is_ascii_digit (to_ascii_lowercase b) = is_ascii_digit b"
  by (auto simp: to_ascii_lowercase_def is_ascii_digit_def is_ascii_upper_def word_le_nat_alt unat_plus_if')

lemma lower_token [simp]: "is_token_byte (to_ascii_lowercase b) = is_token_byte b"
  by (auto simp: to_ascii_lowercase_def is_token_byte_def is_ascii_alphanumeric_def is_ascii_alphabetic_def
      is_ascii_digit_def is_ascii_upper_def is_ascii_lower_def word_le_nat_alt unat_plus_if')

lemma eq_ignore_list:
  assumes "eq_ignore_ascii_case w n" "\<And>b. P (to_ascii_lowercase b) = P b"
  shows "list_all P w = list_all P n" "list_ex P w = list_ex P n"
proof -
  have "list_all P xs = list_all P (map to_ascii_lowercase xs)" "list_ex P xs = list_ex P (map to_ascii_lowercase xs)" for xs
    using assms(2) by (simp_all add: list_all_iff list_ex_iff)
  then show "list_all P w = list_all P n" "list_ex P w = list_ex P n"
    using assms(1) unfolding eq_ignore_ascii_case_def by metis+
qed

lemma eq_ignore_digits: "eq_ignore_ascii_case w r \<Longrightarrow> list_all is_ascii_digit r \<Longrightarrow> w = r"
proof -
  assume a: "eq_ignore_ascii_case w r" "list_all is_ascii_digit r"
  then have "list_all is_ascii_digit w" using eq_ignore_list(1) [OF a(1), of is_ascii_digit] by simp
  then have "map to_ascii_lowercase w = w" "map to_ascii_lowercase r = r"
    using a(2) by (simp_all add: list_all_iff to_ascii_lowercase_digit map_idI)
  then show ?thesis using a(1) by (simp add: eq_ignore_ascii_case_def)
qed

lemma eq_ignore_split:
  assumes "eq_ignore_ascii_case w (a @ f @ c)"
  obtains a' f' c' where "w = a' @ f' @ c'" "eq_ignore_ascii_case a' a" "eq_ignore_ascii_case f' f" "eq_ignore_ascii_case c' c"
proof -
  let ?l = "map to_ascii_lowercase"
  have "?l w = ?l a @ (?l f @ ?l c)" using assms by (simp add: eq_ignore_ascii_case_def)
  then obtain a' v where a: "w = a' @ v" "?l a = ?l a'" "?l f @ ?l c = ?l v"
    unfolding map_eq_append_conv by blast
  from a(3) [symmetric] obtain f' c' where f: "v = f' @ c'" "?l f = ?l f'" "?l c = ?l c'"
    unfolding map_eq_append_conv by blast
  show thesis by (rule that [of a' f' c']) (simp_all add: eq_ignore_ascii_case_def a f)
qed

lemma contains_ci_intro: "h = x @ w @ y \<Longrightarrow> eq_ignore_ascii_case w n \<Longrightarrow> contains_ci h n"
  unfolding contains_ci_def any_window_ci_iff by blast

lemma contains_ci_cases:
  assumes "contains_ci h n" "n \<noteq> []"
  obtains x w y where "h = x @ w @ y" "eq_ignore_ascii_case w n"
  using assms unfolding contains_ci_def any_window_ci_iff by blast

subsection \<open>The parts of a needle\<close>

lemma takeWhile_dropWhile_split:
  "nb = takeWhile P nb @ dropWhile P nb" "list_all P (takeWhile P nb)" "dropWhile P nb \<noteq> [] \<Longrightarrow> \<not> P (hd (dropWhile P nb))"
  using set_takeWhileD by (fastforce simp: list_all_iff hd_dropWhile)+

lemma parts_loop_digit:
  fixes r :: str
  assumes "is_ascii_digit b"
  defines "after \<equiv> dropWhile is_ascii_digit (b # r)"
  shows "fst (parts_loop first (b # r)) = fst (parts_loop False after)"
    and "snd (parts_loop first (b # r)) =
      (if \<not> first \<and> after \<noteq> [] then [takeWhile is_ascii_digit (b # r)] else []) @ snd (parts_loop False after)"
  unfolding after_def parts_loop.simps(2) using assms(1) by (simp_all only: Let_def split_def if_True fst_conv snd_conv) simp

lemma parts_loop_text:
  fixes r :: str
  assumes "\<not> is_ascii_digit b"
  defines "after \<equiv> dropWhile (\<lambda>c. \<not> is_ascii_digit c) (b # r)"
  shows "fst (parts_loop first (b # r)) = takeWhile (\<lambda>c. \<not> is_ascii_digit c) (b # r) # fst (parts_loop False after)"
    and "snd (parts_loop first (b # r)) = snd (parts_loop False after)"
  unfolding after_def parts_loop.simps(2) using assms(1) by (simp_all only: Let_def split_def if_False fst_conv snd_conv)

lemma parts_fragment:
  "f \<in> set (fst (parts_loop first nb)) \<Longrightarrow> f \<noteq> [] \<and> digit_free f \<and> (\<exists>a c. nb = a @ f @ c)"
proof (induction first nb rule: parts_loop.induct)
  case (2 first b r)
  show ?case
  proof (cases "is_ascii_digit b")
    case True
    let ?run = "takeWhile is_ascii_digit (b # r)" and ?after = "dropWhile is_ascii_digit (b # r)"
    have "f \<in> set (fst (parts_loop False ?after))" using "2.prems" unfolding parts_loop_digit(1) [OF True] .
    from 2(1) [OF True refl refl this] obtain a c where f: "f \<noteq> []" "digit_free f" "?after = a @ f @ c" by blast
    have "b # r = ?run @ ?after" by (simp only: takeWhile_dropWhile_id)
    then have "b # r = (?run @ a) @ f @ c" unfolding f(3) by (simp only: append_assoc)
    then show ?thesis using f(1,2) by blast
  next
    case False
    let ?P = "\<lambda>c. \<not> is_ascii_digit c"
    let ?frag = "takeWhile ?P (b # r)" and ?after = "dropWhile ?P (b # r)"
    have split: "b # r = ?frag @ ?after" by (simp only: takeWhile_dropWhile_id)
    consider (here) "f = ?frag" | (later) "f \<in> set (fst (parts_loop False ?after))"
      using "2.prems" unfolding parts_loop_text(1) [OF False] by auto
    then show ?thesis
    proof cases
      case here
      have "?frag \<noteq> []" using False by simp
      moreover have "digit_free ?frag" by (rule takeWhile_dropWhile_split(2))
      moreover have "b # r = [] @ ?frag @ ?after" using split by (simp only: append_Nil)
      ultimately show ?thesis unfolding here by (intro conjI exI)
    next
      case later
      from 2(2) [OF False refl later] obtain a c where f: "f \<noteq> []" "digit_free f" "?after = a @ f @ c" by blast
      have "b # r = (?frag @ a) @ f @ c" using split unfolding f(3) by (simp only: append_assoc)
      then show ?thesis using f(1,2) by blast
    qed
  qed
qed simp

definition run_at :: "bool \<Rightarrow> str \<Rightarrow> str \<Rightarrow> bool" where
  "run_at first nb run \<longleftrightarrow> run \<noteq> [] \<and> list_all is_ascii_digit run \<and>
     (\<exists>a c. nb = a @ run @ c \<and> c \<noteq> [] \<and> \<not> is_ascii_digit (hd c) \<and>
       (a = [] \<longrightarrow> \<not> first) \<and> (a \<noteq> [] \<longrightarrow> \<not> is_ascii_digit (last a)))"

lemma run_at_intro:
  "nb = a @ run @ c \<Longrightarrow> run \<noteq> [] \<Longrightarrow> list_all is_ascii_digit run \<Longrightarrow> c \<noteq> [] \<Longrightarrow> \<not> is_ascii_digit (hd c) \<Longrightarrow>
   (a = [] \<Longrightarrow> \<not> first) \<Longrightarrow> (a \<noteq> [] \<Longrightarrow> \<not> is_ascii_digit (last a)) \<Longrightarrow> run_at first nb run"
  unfolding run_at_def by blast

lemma parts_run:
  "run \<in> set (snd (parts_loop first nb)) \<Longrightarrow> run_at first nb run"
proof (induction first nb rule: parts_loop.induct)
  case (2 first b r)
  show ?case
  proof (cases "is_ascii_digit b")
    case True
    let ?run = "takeWhile is_ascii_digit (b # r)" and ?after = "dropWhile is_ascii_digit (b # r)"
    have split: "b # r = ?run @ ?after" by (simp only: takeWhile_dropWhile_id)
    consider (here) "run = ?run" "\<not> first" "?after \<noteq> []" | (later) "run \<in> set (snd (parts_loop False ?after))"
      using "2.prems" unfolding parts_loop_digit(2) [OF True] by (auto split: if_split_asm)
    then show ?thesis
    proof cases
      case here
      have "b # r = [] @ ?run @ ?after" using split by (simp only: append_Nil)
      moreover have "?run \<noteq> []" using True by simp
      moreover have "list_all is_ascii_digit ?run" by (rule takeWhile_dropWhile_split(2))
      moreover have "\<not> is_ascii_digit (hd ?after)" using here(3) by (rule hd_dropWhile)
      ultimately show ?thesis
        unfolding here(1) using here(2,3) by (intro run_at_intro [of _ "[]" _ ?after]) (assumption | simp only: simp_thms)+
    next
      case later
      from 2(1) [OF True refl refl later] obtain a c where run: "run \<noteq> []" "list_all is_ascii_digit run"
        and a: "?after = a @ run @ c" "c \<noteq> []" "\<not> is_ascii_digit (hd c)" "a \<noteq> [] \<longrightarrow> \<not> is_ascii_digit (last a)"
        unfolding run_at_def by blast
      have "?after \<noteq> []" using a(1,2) by simp
      then have "\<not> is_ascii_digit (hd ?after)" by (rule hd_dropWhile)
      then have "a \<noteq> []" using a(1) run by (cases run) auto
      then have "?run @ a \<noteq> []" "\<not> is_ascii_digit (last (?run @ a))" using a(4) by simp_all
      moreover have "b # r = (?run @ a) @ run @ c" using split unfolding a(1) by (simp only: append_assoc)
      ultimately show ?thesis using run a(2,3) by (intro run_at_intro [of _ "?run @ a" _ c]) (assumption | blast)+
    qed
  next
    case False
    let ?P = "\<lambda>c. \<not> is_ascii_digit c"
    let ?frag = "takeWhile ?P (b # r)" and ?after = "dropWhile ?P (b # r)"
    have "run \<in> set (snd (parts_loop False ?after))" using "2.prems" unfolding parts_loop_text(2) [OF False] .
    from 2(2) [OF False refl this] obtain a c where run: "run \<noteq> []" "list_all is_ascii_digit run"
      and a: "?after = a @ run @ c" "c \<noteq> []" "\<not> is_ascii_digit (hd c)" "a \<noteq> [] \<longrightarrow> \<not> is_ascii_digit (last a)"
      unfolding run_at_def by blast
    define frag where "frag = ?frag"
    have "frag \<noteq> []" using False by (simp add: frag_def)
    moreover have "digit_free frag" unfolding frag_def by (rule takeWhile_dropWhile_split(2))
    ultimately have frag: "frag \<noteq> []" "\<not> is_ascii_digit (last frag)" by (simp_all add: list_all_iff)
    have "b # r = ?frag @ ?after" by (simp only: takeWhile_dropWhile_id)
    then have "b # r = (frag @ a) @ run @ c" unfolding a(1) frag_def by (simp only: append_assoc)
    moreover have "\<not> is_ascii_digit (last (frag @ a))" using frag(2) a(4) by (cases "a = []") simp_all
    ultimately show ?thesis using run a(2,3) frag(1) by (intro run_at_intro [of _ "frag @ a" _ c]) simp_all
  qed
qed simp

subsection \<open>The checks accept what a message explains\<close>

lemma eq_ignore_sym: "eq_ignore_ascii_case a b \<longleftrightarrow> eq_ignore_ascii_case b a"
  by (auto simp: eq_ignore_ascii_case_def)

lemma ends_with_ci_intro: "h = x @ w \<Longrightarrow> eq_ignore_ascii_case w n \<Longrightarrow> ends_with_ci h n"
  by (simp add: ends_with_ci_def eq_ignore_ascii_case_length)

lemma starts_with_ci_intro: "h = w @ y \<Longrightarrow> eq_ignore_ascii_case w n \<Longrightarrow> starts_with_ci h n"
  by (frule eq_ignore_ascii_case_length) (simp add: starts_with_ci_def)

lemma ascii_boundary: "is_ascii f \<Longrightarrow> is_char_boundary (drop i f)"
  by (rule valid_utf8_boundary, rule is_ascii_valid) (use set_drop_subset [of i f] in \<open>auto simp: is_ascii_def list_all_iff subset_iff\<close>)

lemma fragment_feasible_intro:
  assumes "frag_in S seg f'" "eq_ignore_ascii_case f' f" "is_ascii f" "S \<subseteq> set strs"
    and seg: "\<And>x. seg x \<Longrightarrow> x \<noteq> [] \<Longrightarrow> \<exists>s \<in> set segments. \<exists>y z. s = y @ x @ z"
  shows "fragment_feasible f segments strs"
  using assms(1)
proof cases
  case (inside x y)
  then have "list_ex (\<lambda>v. contains_ci v f) strs"
    using assms(2,4) by (auto simp: list_ex_iff intro!: bexI [of _ "x @ f' @ y"] contains_ci_intro)
  then show ?thesis by (simp add: fragment_feasible_def)
next
  case (parts u x mid v y)
  have "eq_ignore_ascii_case f (u @ mid @ v)" using assms(2) parts(1) by (simp add: eq_ignore_sym)
  then obtain fu fm fv where f: "f = fu @ fm @ fv" "eq_ignore_ascii_case u fu" "eq_ignore_ascii_case mid fm" "eq_ignore_ascii_case v fv"
    using eq_ignore_split [of f u mid v] eq_ignore_sym by metis
  let ?is = "0 # filter (\<lambda>i. is_char_boundary (drop i f) \<and> list_ex (\<lambda>v. ends_with_ci v (take i f)) strs) [1..<length f + 1]"
  let ?js = "filter (\<lambda>j. is_char_boundary (drop j f) \<and> list_ex (\<lambda>v. starts_with_ci v (drop j f)) strs) [0..<length f] @ [length f]"
  have i: "length fu \<in> set ?is"
  proof (cases "fu = []")
    case False
    then have "u \<noteq> []" using eq_ignore_ascii_case_length [OF f(2)] by auto
    then have "list_ex (\<lambda>v. ends_with_ci v fu) strs"
      using parts(2) assms(4) f(2) by (auto simp: list_ex_iff intro!: bexI [of _ "x @ u"] ends_with_ci_intro)
    moreover have "take (length fu) f = fu" by (simp add: f(1))
    moreover have "1 \<le> length fu" using False by (cases fu) auto
    then have "length fu \<in> set [1..<length f + 1]" using f(1) by (simp only: set_upt atLeastLessThan_iff length_append simp_thms)
    ultimately show ?thesis using ascii_boundary [OF assms(3)] by (simp only: set_simps set_filter mem_Collect_eq insert_iff simp_thms)
  qed simp
  have j: "length (fu @ fm) \<in> set ?js"
  proof (cases "fv = []")
    case False
    then have "v \<noteq> []" using eq_ignore_ascii_case_length [OF f(4)] by auto
    then have "list_ex (\<lambda>v. starts_with_ci v fv) strs"
      using parts(4) assms(4) f(4) by (auto simp: list_ex_iff intro!: bexI [of _ "v @ y"] starts_with_ci_intro)
    then show ?thesis using False f(1) ascii_boundary [OF assms(3)] by auto
  qed (simp add: f(1))
  have m: "fm = [] \<or> list_ex (\<lambda>s. contains_ci s fm) segments"
  proof (cases "fm = []")
    case False
    then have "mid \<noteq> []" using eq_ignore_ascii_case_length [OF f(3)] by auto
    then obtain s y z where "s \<in> set segments" "s = y @ mid @ z" using seg parts(3) by blast
    then show ?thesis using f(3) by (auto simp: list_ex_iff intro!: bexI [of _ s] contains_ci_intro)
  qed simp
  have middle: "take (length (fu @ fm) - length fu) (drop (length fu) f) = fm" by (simp add: f(1))
  have "length (fu @ fm) \<in> set (filter (\<lambda>j. j \<ge> length fu) ?js)"
    using j by (simp only: set_filter mem_Collect_eq length_append le_add1)
  then have "list_ex (\<lambda>j. let middle = take (j - length fu) (drop (length fu) f)
      in middle = [] \<or> list_ex (\<lambda>s. contains_ci s middle) segments) (filter (\<lambda>j. j \<ge> length fu) ?js)"
    unfolding list_ex_iff [of _ "filter _ ?js"] Let_def using m middle by (intro bexI [of _ "length (fu @ fm)"]) (simp only: middle)
  with i have "list_ex (\<lambda>i. list_ex (\<lambda>j. let middle = take (j - i) (drop i f)
      in middle = [] \<or> list_ex (\<lambda>s. contains_ci s middle) segments) (filter (\<lambda>j. j \<ge> i) ?js)) ?is"
    unfolding list_ex_iff [of _ ?is] by (intro bexI [OF _ i])
  then show ?thesis unfolding fragment_feasible_def Let_def by blast
qed

lemma has_maximal_digit_run_intro:
  assumes "t = x @ r @ y" "x \<noteq> [] \<longrightarrow> \<not> is_ascii_digit (last x)" "y \<noteq> [] \<longrightarrow> \<not> is_ascii_digit (hd y)"
  shows "has_maximal_digit_run t r"
proof -
  have "length x \<in> set [0..<length t - length r + 1]" using assms(1) by auto
  moreover have "take (length r) (drop (length x) t) = r" by (simp add: assms(1))
  moreover have "length x = 0 \<or> \<not> is_ascii_digit (t ! (length x - 1))"
    using assms(1,2) by (cases "x = []") (auto simp: nth_append last_conv_nth)
  moreover have "length x + length r = length t \<or> \<not> is_ascii_digit (t ! (length x + length r))"
    using assms(1,3) by (cases y) (auto simp: nth_append)
  ultimately show ?thesis unfolding has_maximal_digit_run_def list_ex_iff using assms(1) by (intro conjI bexI [of _ "length x"]) auto
qed

lemma run_feasible_intro:
  assumes "PVar VNum r \<in> set ps \<or> (\<exists>t x y. str_var ps t \<and> t = x @ r @ y \<and>
      (x \<noteq> [] \<longrightarrow> \<not> is_ascii_digit (last x)) \<and> (y \<noteq> [] \<longrightarrow> \<not> is_ascii_digit (hd y)))"
    and "length r \<le> 19" "str_texts ps \<subseteq> set strs"
    and "\<And>t. PVar VNum t \<in> set ps \<Longrightarrow> \<exists>v. parse_i64 t = Some v \<and> (of_nat (length t), v) \<in> set nums"
  shows "run_feasible r strs nums"
  using assms(1)
proof
  assume "PVar VNum r \<in> set ps"
  then obtain v where v: "parse_i64 r = Some v" "(of_nat (length r), v) \<in> set nums" using assms(4) by blast
  have "unat (of_nat (length r) :: byte) = length r" using assms(2) by (simp add: unat_of_nat take_bit_nat_eq_self)
  with v assms(2) have "num_ok r nums" by (auto simp: num_ok_def list_ex_iff)
  then show ?thesis by (simp add: run_feasible_def)
next
  assume "\<exists>t x y. str_var ps t \<and> t = x @ r @ y \<and>
      (x \<noteq> [] \<longrightarrow> \<not> is_ascii_digit (last x)) \<and> (y \<noteq> [] \<longrightarrow> \<not> is_ascii_digit (hd y))"
  then obtain t x y where "str_var ps t" "has_maximal_digit_run t r" using has_maximal_digit_run_intro by metis
  then show ?thesis using assms(3) by (auto simp: run_feasible_def list_ex_iff)
qed

text \<open>The segments of a template are the text between its variables.\<close>

primrec segs_from :: "str \<Rightarrow> piece list \<Rightarrow> str list" where
  "segs_from seg [] = push_seg seg"
| "segs_from seg (p # ps) =
     (if is_pvar p then push_seg seg @ segs_from [] ps else segs_from (seg @ piece_text p) ps)"

lemma segments_loop_text:
  assumes "valid_utf8 s" "valid_utf8 t" "list_all (\<lambda>b. b \<noteq> SENTINEL) s"
  shows "segments_loop seg (s @ t) = segments_loop (seg @ s) t"
  using assms(1,3)
proof (induction s arbitrary: seg rule: length_induct)
  case (1 s)
  show ?case
  proof (cases s)
    case s: (Cons b r)
    obtain k where k: "utf8_width s = Some k" "k \<le> length s" "valid_utf8 (drop k s)"
      using "1.prems"(1) s by (auto elim: valid_utf8_widthE)
    have len: "utf8_char_len b = k" using k(1) unfolding s by (rule utf8_char_len_width)
    have pos: "0 < k" using k(1) by (rule utf8_width_pos)
    have "valid_utf8 (s @ t)" "valid_utf8 (drop k s @ t)" using "1.prems"(1) k(3) assms(2) by (simp_all add: valid_utf8_append)
    then have "str_split k (s @ t) = Inr (take k s, drop k s @ t)"
      using k(2) by (simp add: str_split_def valid_utf8_boundary)
    moreover have "segments_loop (seg @ take k s) (drop k s @ t) = segments_loop ((seg @ take k s) @ drop k s) t"
    proof (rule "1.IH" [rule_format])
      show "length (drop k s) < length s" using pos s by simp
      show "list_all (\<lambda>b. b \<noteq> SENTINEL) (drop k s)" using "1.prems"(2) by (meson in_set_dropD list_all_iff)
    qed (rule k(3))
    moreover have "b \<noteq> SENTINEL" using "1.prems"(2) s by simp
    ultimately show ?thesis using len by (simp add: s segments_loop.simps(2))
  qed simp
qed

lemma pieces_template_valid: "list_all piece_ok ps \<Longrightarrow> valid_utf8 (fst (pieces_of ps))"
proof (induction ps)
  case (Cons p ps)
  then show ?case
    by (cases p) (auto simp: pieces_of_def template_bytes kind_tag_def valid_utf8_append split: var_kind.split)
qed (simp add: pieces_of_def)

lemma segments_loop_pieces:
  "list_all piece_ok ps \<Longrightarrow> segments_loop seg (fst (pieces_of ps)) = Inr (segs_from seg ps)"
proof (induction ps arbitrary: seg)
  case (Cons p ps)
  have v: "valid_utf8 (fst (pieces_of ps))" using Cons.prems by (intro pieces_template_valid) simp
  have IH: "segments_loop seg (fst (pieces_of ps)) = Inr (segs_from seg ps)" for seg using Cons by simp
  show ?case
  proof (cases p)
    case (PText s)
    have "list_all (\<lambda>b. b \<noteq> SENTINEL) s" "valid_utf8 s" using Cons.prems PText by (auto simp: list_all_iff)
    then have "segments_loop seg (s @ fst (pieces_of ps)) = Inr (segs_from (seg @ s) ps)"
      using segments_loop_text [OF _ v] IH by simp
    then show ?thesis using PText by (simp add: pieces_of_def)
  next
    case PSent
    then show ?thesis using IH by (simp add: pieces_of_def segments_loop.simps(2))
  next
    case (PVar k t)
    then show ?thesis using IH
      by (cases k) (simp_all add: pieces_of_def segments_loop.simps(2) kind_tag_def template_bytes)
  qed
qed (simp add: pieces_of_def)

lemma segs_from_first: "seg @ lead ps \<noteq> [] \<Longrightarrow> seg @ lead ps \<in> set (segs_from seg ps)"
  by (induction ps arbitrary: seg) (auto simp: push_seg_def simp flip: append_assoc)

lemma segs_from_suffix: "\<exists>seg'. set (segs_from seg' rs) \<subseteq> set (segs_from seg (qs @ rs))"
proof (induction qs arbitrary: seg)
  case (Cons q qs)
  then show ?case by (auto simp: subset_iff) blast+
qed auto

lemma seg_part_segs:
  assumes "seg_part x ps" "x \<noteq> []"
  shows "\<exists>s \<in> set (segs_from seg ps). \<exists>y z. s = y @ x @ z"
proof -
  obtain qs rs y z where ps: "ps = qs @ rs" "lead rs = y @ x @ z" using assms(1) unfolding seg_part_def by blast
  obtain seg' where sub: "set (segs_from seg' rs) \<subseteq> set (segs_from seg ps)" using segs_from_suffix ps(1) by blast
  have "seg' @ lead rs \<in> set (segs_from seg' rs)" using ps(2) assms(2) by (intro segs_from_first) simp
  then have "(seg' @ y) @ x @ z \<in> set (segs_from seg ps)" using sub ps(2) by auto
  then show ?thesis by blast
qed

subsection \<open>A message that contains the needle passes\<close>

definition inner_runs_short :: "str \<Rightarrow> bool" where
  "inner_runs_short needle \<longleftrightarrow> list_all (\<lambda>run. length run \<le> 19) (np_inner_runs (needle_parts_of needle))"

lemma needle_run_in_text:
  assumes "eq_ignore_ascii_case w needle" "run_at True needle run"
  obtains a c where "w = a @ run @ c" "a \<noteq> []" "\<not> is_ascii_digit (last a)" "c \<noteq> []" "\<not> is_ascii_digit (hd c)"
proof -
  obtain a c where n: "needle = a @ run @ c" "c \<noteq> []" "\<not> is_ascii_digit (hd c)" "a \<noteq> []" "\<not> is_ascii_digit (last a)"
    and run: "list_all is_ascii_digit run" using assms(2) unfolding run_at_def by blast
  obtain a' r' c' where w: "w = a' @ r' @ c'" "eq_ignore_ascii_case a' a" "eq_ignore_ascii_case r' run" "eq_ignore_ascii_case c' c"
    using eq_ignore_split [of w a run c] assms(1) n(1) by metis
  have "r' = run" using eq_ignore_digits [OF w(3) run] .
  moreover have ne: "a' \<noteq> []" "c' \<noteq> []" using eq_ignore_ascii_case_length [OF w(2)] eq_ignore_ascii_case_length [OF w(4)] n(2,4) by auto
  moreover have "to_ascii_lowercase (last a') = to_ascii_lowercase (last a)" "to_ascii_lowercase (hd c') = to_ascii_lowercase (hd c)"
    using w(2,4) ne n(2,4) unfolding eq_ignore_ascii_case_def by (metis last_map, metis hd_map)
  then have "\<not> is_ascii_digit (last a')" "\<not> is_ascii_digit (hd c')" using n(3,5) lower_digit by metis+
  ultimately show thesis using that w(1) by blast
qed

lemma template_feasible_pieces:
  assumes ps: "pieces_wf ps" "whole \<Longrightarrow> whole_pieces ps"
    and n: "contains_ci (pieces_text ps) needle" "needle \<noteq> []" "is_ascii needle" "inner_runs_short needle"
    and strs: "str_texts ps \<subseteq> set strs"
    and nums: "\<And>t. PVar VNum t \<in> set ps \<Longrightarrow> \<exists>v. parse_i64 t = Some v \<and> (of_nat (length t), v) \<in> set nums"
    and segs: "set (segs_from [] ps) \<subseteq> set segments"
  shows "template_feasible needle (needle_parts_of needle) whole segments strs nums"
proof -
  obtain x w y where tx: "pieces_text ps = x @ w @ y" "eq_ignore_ascii_case w needle"
    using contains_ci_cases [OF n(1,2)] .
  show ?thesis
  proof (cases "whole \<and> np_token_confined_mixed (needle_parts_of needle)")
    case True
    then have "list_all is_token_byte w" "list_ex is_ascii_digit w" "list_ex (\<lambda>b. \<not> is_ascii_digit b) w"
      using eq_ignore_list [OF tx(2)] by (simp_all add: needle_parts_of_def token_confined_def)
    from token_in_pieces [OF ps(1) ps(2) tx(1) this] True obtain t a b where "t \<in> str_texts ps" "t = a @ w @ b" by blast
    then have "list_ex (\<lambda>v. contains_ci v needle) strs"
      using strs contains_ci_intro [of t a w b needle] tx(2) by (auto simp: list_ex_iff)
    then show ?thesis using True by (simp add: template_feasible_def)
  next
    case False
    have "fragment_feasible f segments strs" if f: "f \<in> set (fst (parts_loop True needle))" for f
    proof -
      obtain a c where p: "f \<noteq> []" "digit_free f" "needle = a @ f @ c" using parts_fragment [OF f] by blast
      obtain a' f' c' where w: "w = a' @ f' @ c'" "eq_ignore_ascii_case f' f"
        using eq_ignore_split [of w a f c] tx(2) p(3) by metis
      have "pieces_text ps = (x @ a') @ f' @ (c' @ y)" using tx(1) w(1) by (simp only: append_assoc)
      moreover have "f' \<noteq> []" "digit_free f'"
        using p(1,2) eq_ignore_ascii_case_length [OF w(2)] eq_ignore_list(1) [OF w(2), of "\<lambda>b. \<not> is_ascii_digit b"] by auto
      ultimately have "frag_in (str_texts ps) (\<lambda>x. seg_part x ps) f'" using fragment_in_pieces [OF ps(1)] by blast
      moreover have "is_ascii f" using n(3) p(3) by (simp add: is_ascii_def)
      ultimately show ?thesis using w(2) strs seg_part_segs [of _ ps "[]"] segs by (intro fragment_feasible_intro) blast+
    qed
    moreover have "run_feasible run strs nums" if run: "run \<in> set (snd (parts_loop True needle))" for run
    proof -
      obtain a c where w: "w = a @ run @ c" "a \<noteq> []" "\<not> is_ascii_digit (last a)" "c \<noteq> []" "\<not> is_ascii_digit (hd c)"
        using needle_run_in_text [OF tx(2) parts_run [OF run]] .
      have "run \<noteq> []" "list_all is_ascii_digit run" using parts_run [OF run] by (simp_all add: run_at_def)
      moreover have "pieces_text ps = (x @ a) @ run @ (c @ y)" using tx(1) w(1) by (simp only: append_assoc)
      ultimately have "PVar VNum run \<in> set ps \<or> (\<exists>t x y. str_var ps t \<and> t = x @ run @ y \<and>
          (x \<noteq> [] \<longrightarrow> \<not> is_ascii_digit (last x)) \<and> (y \<noteq> [] \<longrightarrow> \<not> is_ascii_digit (hd y)))"
        using w(2-5) by (intro run_in_pieces [OF ps(1), of "x @ a" run "c @ y"]) simp_all
      moreover have "length run \<le> 19" using n(4) run by (simp add: inner_runs_short_def needle_parts_of_def list_all_iff)
      ultimately show ?thesis using strs nums by (rule run_feasible_intro)
    qed
    ultimately show ?thesis using False by (auto simp: template_feasible_def needle_parts_of_def list_all_iff)
  qed
qed

lemma str_var_iff: "str_var ps t \<longleftrightarrow> (VStr, t) \<in> set (snd (pieces_of ps))"
proof (induction ps)
  case (Cons p ps)
  then show ?case by (cases p) (auto simp: pieces_of_def)
qed (simp add: pieces_of_def)

lemma num_var_iff: "PVar VNum t \<in> set ps \<longleftrightarrow> (VNum, t) \<in> set (snd (pieces_of ps))"
proof (induction ps)
  case (Cons p ps)
  then show ?case by (cases p) (auto simp: pieces_of_def)
qed (simp add: pieces_of_def)

lemma var_strs_mem: "(VStr, t) \<in> set vars \<Longrightarrow> t \<in> set (var_strs vars)"
  by (force simp: var_strs_def is_num_def)

text \<open>For a tokenized message: the template's segments and any lists that hold its variables.\<close>

lemma template_feasible_message:
  assumes msg: "valid_utf8 msg" "tokenize msg sr = (t, vars)" "whole \<Longrightarrow> \<not> sr"
    and n: "contains_ci msg needle" "needle \<noteq> []" "is_ascii needle" "inner_runs_short needle"
    and strs: "set (var_strs vars) \<subseteq> set strs"
    and nums: "set (zip (var_widths vars) (var_values vars)) \<subseteq> set nums"
    and segs: "template_segments t = Inr segs" "set segs \<subseteq> set segments"
  shows "template_feasible needle (needle_parts_of needle) whole segments strs nums"
proof -
  obtain ps where ps: "pieces_of ps = (t, vars)" "pieces_text ps = msg" "pieces_wf ps" "\<not> sr \<longrightarrow> whole_pieces ps"
    using tokenize_pieces [OF msg(1), of sr] unfolding msg(2) by metis
  have ok: "list_all piece_ok ps" using ps(3) by (simp add: pieces_wf_def)
  show ?thesis
  proof (rule template_feasible_pieces [OF ps(3)])
    show "whole_pieces ps" if whole using that msg(3) ps(4) by blast
    show "contains_ci (pieces_text ps) needle" using n(1) ps(2) by simp
    show "str_texts ps \<subseteq> set strs" using strs str_var_iff [of _ ps] var_strs_mem [of _ vars] ps(1) by auto
    have "segs = segs_from [] ps" using segs(1) segments_loop_pieces [OF ok, of "[]"] ps(1) by (simp add: template_segments_def)
    then show "set (segs_from [] ps) \<subseteq> set segments" using segs(2) by simp
    show "\<exists>v. parse_i64 u = Some v \<and> (of_nat (length u), v) \<in> set nums" if u: "PVar VNum u \<in> set ps" for u
    proof -
      have v: "(VNum, u) \<in> set vars" using u num_var_iff [of u ps] ps(1) by simp
      then obtain v where p: "parse_i64 u = Some v"
        using tokenize_vars_ok(2) [OF msg(1,2) v] by (auto simp: is_num_def)
      have "(of_nat (length u), the (parse_i64 u)) \<in> set (zip (var_widths vars) (var_values vars))"
        using v by (force simp: var_widths_def var_values_def zip_map_map zip_same_conv_map is_num_def)
      then show ?thesis using p nums by auto
    qed
  qed (use n in simp_all)
qed

end
