(* ===== verification/FilterFacts.thy ===== *)
theory FilterFacts
  imports SearchFacts
begin

section \<open>What searching a template column promises\<close>

text \<open>
  The block-level check \<open>column_may_contain\<close> never rules out a block that holds a match, and the
  row-skipping decoder \<open>decode_template_str_filtered\<close> returns exactly the matching rows of the full
  decode and never panics. Both hold for needles whose inner digit runs have at most 19 digits; the last
  theorem shows what happens beyond that.
\<close>

subsection \<open>The block-level check\<close>

lemma may_loop_parts:
  "may_loop segments strs nums first nb \<longleftrightarrow>
     list_all (\<lambda>f. fragment_feasible f segments strs) (fst (parts_loop first nb)) \<and>
     list_all (\<lambda>r. run_feasible r strs nums) (snd (parts_loop first nb))"
proof (induction first nb rule: parts_loop.induct)
  case (2 first b r)
  show ?case
  proof (cases "is_ascii_digit b")
    case True
    note IH = 2(1) [OF True refl refl]
    show ?thesis
      unfolding parts_loop_digit [OF True] may_loop.simps(2) using True
      by (simp only: Let_def if_True IH) (simp add: list_all_iff)
  next
    case False
    note IH = 2(2) [OF False refl]
    show ?thesis
      unfolding parts_loop_text [OF False] may_loop.simps(2) using False
      by (simp only: Let_def if_False IH) (simp add: list_all_iff)
  qed
qed simp

lemma inner_run_seen:
  assumes "run \<in> set (snd (parts_loop True nb))"
  shows "has_inner_run nb"
proof -
  obtain a c where nb: "nb = a @ run @ c" "c \<noteq> []" "\<not> is_ascii_digit (hd c)" "a \<noteq> []" "\<not> is_ascii_digit (last a)"
    and run: "run \<noteq> []" "list_all is_ascii_digit run" using parts_run [OF assms] unfolding run_at_def by blast
  have "dropWhile is_ascii_digit (rev c @ rev run @ rev a) = dropWhile is_ascii_digit (rev c) @ rev run @ rev a"
    using nb(2,3) by (intro dropWhile_append1 [of "hd c"]) simp_all
  moreover have "dropWhile is_ascii_digit (a @ run @ z) = dropWhile is_ascii_digit a @ run @ z" for z
    using nb(4,5) by (intro dropWhile_append1 [of "last a"]) simp_all
  moreover have "list_ex is_ascii_digit run" using run by (cases run) auto
  ultimately show ?thesis unfolding has_inner_run_def by (simp add: nb(1))
qed

lemma feasible_no_runs:
  "\<not> has_inner_run needle \<Longrightarrow>
   template_feasible needle (needle_parts_of needle) whole segments strs nums =
   template_feasible needle (needle_parts_of needle) whole segments strs nums'"
  using inner_run_seen [of _ needle] by (auto simp: template_feasible_def needle_parts_of_def list_all_iff)

lemma read_template_block_parts:
  assumes "read_template_block lib b n = Inr tb"
  obtains dict_n num_n str_n stored r where "read_template_parts b = Inr ((tb_mode tb, dict_n, num_n, str_n, stored), r)"
    "decode_str lib (stored ! 1) dict_n = Inr (tb_dict tb)" "decode_u8 lib (stored ! 2) num_n = Inr (tb_widths tb)"
    "decode_i64 lib (stored ! 3) num_n = Inr (tb_values tb)" "decode_str lib (stored ! 4) str_n = Inr (tb_strs tb)"
  using assms that by (auto simp: read_template_block_def read_template_header_def split: if_split_asm)

text \<open>On a column the decoder reads, the check asks the question of \<open>template_feasible\<close> for all templates at once.\<close>

lemma column_may_contain_block:
  assumes "read_template_block lib b n = Inr tb" "needle \<noteq> []" "is_ascii needle"
  shows "column_may_contain lib b needle =
    and_then (collect_r template_segments (tb_dict tb)) (\<lambda>segs.
    Inr (template_feasible needle (needle_parts_of needle) (tb_mode tb = 1) (concat segs) (remdups (tb_strs tb))
      (remdups (zip (tb_widths tb) (tb_values tb)))))"
proof -
  obtain dict_n num_n str_n stored r where c: "read_template_parts b = Inr ((tb_mode tb, dict_n, num_n, str_n, stored), r)"
    "decode_str lib (stored ! 1) dict_n = Inr (tb_dict tb)" "decode_u8 lib (stored ! 2) num_n = Inr (tb_widths tb)"
    "decode_i64 lib (stored ! 3) num_n = Inr (tb_values tb)" "decode_str lib (stored ! 4) str_n = Inr (tb_strs tb)"
    using read_template_block_parts [OF assms(1)] .
  let ?tf = "\<lambda>segs nums. template_feasible needle (needle_parts_of needle) (tb_mode tb = 1) (concat segs) (remdups (tb_strs tb)) nums"
  have "(if tb_mode tb = 1 \<and> token_confined needle then Inr (list_ex (\<lambda>v. contains_ci v needle) (remdups (tb_strs tb)))
      else and_then (if has_inner_run needle then
              and_then (decode_u8 lib (stored ! 2) num_n) (\<lambda>widths.
              and_then (decode_i64 lib (stored ! 3) num_n) (\<lambda>values. Inr (remdups (zip widths values))))
            else Inr []) (\<lambda>num_pairs. Inr (may_loop (concat segs) (remdups (tb_strs tb)) num_pairs True needle))) =
    (Inr (?tf segs (remdups (zip (tb_widths tb) (tb_values tb)))) :: bool res)" for segs
    using c(3,4) assms(2) feasible_no_runs [of needle "tb_mode tb = 1" "concat segs" "remdups (tb_strs tb)" "[]"
        "remdups (zip (tb_widths tb) (tb_values tb))"]
    by (auto simp: template_feasible_def needle_parts_of_def may_loop_parts list_all_iff list_ex_iff)
  then show ?thesis
    using assms(2,3) by (simp only: column_may_contain_def c and_then.simps prod.case Let_def simp_thms if_False)
qed

lemma template_segments_ok:
  assumes "valid_utf8 t"
  shows "\<exists>segs. segments_loop seg t = Inr segs"
  using assms
proof (induction t arbitrary: seg rule: length_induct)
  case (1 t)
  then have IH: "valid_utf8 t' \<Longrightarrow> length t' < length t \<Longrightarrow> \<exists>segs. segments_loop seg t' = Inr segs" for t' seg by blast
  show ?case
  proof (cases t)
    case t: (Cons b r)
    show ?thesis
    proof (cases "b = SENTINEL")
      case True
      then have r: "valid_utf8 r" using "1.prems" t by (simp add: SENTINEL_def)
      show ?thesis
      proof (cases r)
        case (Cons tag r')
        have "valid_utf8 r'" if "tag = SENTINEL \<or> tag = KIND_NUM \<or> tag = KIND_STR"
          using that r Cons by (auto simp: template_bytes)
        then have ok: "\<exists>segs. segments_loop seg r' = Inr segs" if "tag = SENTINEL \<or> tag = KIND_NUM \<or> tag = KIND_STR" for seg
          using that IH [of r' seg] t Cons by simp
        have "\<exists>segs. segments_loop seg r = Inr segs" for seg using IH [OF r] t by simp
        then obtain segs where "segments_loop (seg @ [SENTINEL]) r = Inr segs" by blast
        moreover obtain s1 s2 where "segments_loop (seg @ [SENTINEL]) r' = Inr s1 \<and> segments_loop [] r' = Inr s2"
          if "tag = SENTINEL \<or> tag = KIND_NUM \<or> tag = KIND_STR"
          using ok [of "seg @ [SENTINEL]"] ok [of "[]"] by blast
        ultimately show ?thesis
          using True t Cons by (auto simp: segments_loop.simps(2) [of seg])
      qed (use True t in \<open>simp add: segments_loop.simps(2)\<close>)
    next
      case False
      obtain k where k: "utf8_width (b # r) = Some k" "valid_utf8 (drop k (b # r))"
        using "1.prems" t by (auto elim: valid_utf8_widthE)
      have len: "utf8_char_len b = k" using k(1) by (rule utf8_char_len_width)
      have "str_split k (b # r) = Inr (take k (b # r), drop k (b # r))"
        using "1.prems" t k(2) by (simp add: str_split_def valid_utf8_boundary)
      moreover have "0 < k" using k(1) by (rule utf8_width_pos)
      ultimately show ?thesis
        using False IH [OF k(2)] t len by (simp add: segments_loop.simps(2))
    qed
  qed simp
qed

lemma collect_segments:
  assumes "\<forall>t \<in> set D. valid_utf8 t"
  obtains segs where "collect_r template_segments D = Inr segs" "length segs = length D"
    "\<And>i. i < length D \<Longrightarrow> template_segments (D ! i) = Inr (segs ! i)"
proof -
  have ok: "template_segments t = Inr (projr (template_segments t))" if "t \<in> set D" for t
    using template_segments_ok [of t "[]"] that assms by (metis sum.sel(2) template_segments_def)
  then have "collect_r template_segments D = Inr (map (\<lambda>t. projr (template_segments t)) D)" by (intro collect_r_map)
  with that ok show thesis by simp
qed

text \<open>A message of a block: its template is in the dictionary and its variables are in the stream.\<close>

lemma var_pairs:
  "zip (var_widths vs) (var_values vs) = map (\<lambda>v. (of_nat (length (snd v)), the (parse_i64 (snd v)))) (filter is_num vs)"
  by (simp add: var_widths_def var_values_def zip_map_map zip_same_conv_map)

lemma var_streams_mono:
  "set vars \<subseteq> set vs \<Longrightarrow> set (var_strs vars) \<subseteq> set (var_strs vs)"
  "set vars \<subseteq> set vs \<Longrightarrow> set (zip (var_widths vars) (var_values vars)) \<subseteq> set (zip (var_widths vs) (var_values vs))"
  by (auto simp: var_strs_def var_pairs)

lemma block_message:
  assumes "msgs_fit msgs" "m \<in> set msgs" "tokenize m sr = (t, vars)"
  shows "t \<in> set (tk_dict (tokenize_block msgs sr))" "set vars \<subseteq> set (block_stream msgs sr)"
proof -
  obtain j where j: "j < length msgs" "msgs ! j = m" using assms(2) by (auto simp: in_set_conv_nth)
  note b = block_tokens(2) [OF assms(1), of sr]
  have "tk_dict (tokenize_block msgs sr) ! as_usize (tk_ids (tokenize_block msgs sr) ! j) = t"
    "as_usize (tk_ids (tokenize_block msgs sr) ! j) < length (tk_dict (tokenize_block msgs sr))"
    using b j assms(3) by (auto simp: list_all2_conv_all_nth)
  then show "t \<in> set (tk_dict (tokenize_block msgs sr))" by (metis nth_mem)
  have "set vars \<subseteq> set (concat (map (\<lambda>msg. snd (tokenize msg sr)) msgs))"
    using assms(2,3) by (auto intro!: bexI [of _ m])
  then show "set vars \<subseteq> set (block_stream msgs sr)"
    using mset_eq_setD [OF mset_block_stream [OF assms(1), of sr]] by simp
qed

lemma dict_valid: "msgs_fit msgs \<Longrightarrow> \<forall>t \<in> set (tk_dict (tokenize_block msgs sr)). valid_utf8 t"
  using block_dict_fit [of msgs sr] by (simp add: strs_fit_def list_all_iff)

lemma column_may_contain_encoded:
  assumes ok: "codec_lib_ok lib" and fit: "msgs_fit msgs" and enc: "encode_mode lib msgs sr level = Inr b"
    and m: "m \<in> set msgs" "contains_ci m needle" and short: "inner_runs_short needle"
  shows "column_may_contain lib b needle = Inr True"
proof (cases "needle = [] \<or> \<not> is_ascii needle")
  case False
  let ?tb = "encoded_tb msgs sr" and ?D = "tk_dict (tokenize_block msgs sr)" and ?vs = "block_stream msgs sr"
  obtain segs where segs: "collect_r template_segments ?D = Inr segs" "length segs = length ?D"
    "\<And>i. i < length ?D \<Longrightarrow> template_segments (?D ! i) = Inr (segs ! i)"
    using collect_segments [OF dict_valid [OF fit, of sr]] by metis
  obtain t vars where tok: "tokenize m sr = (t, vars)" by (cases "tokenize m sr")
  note bm = block_message [OF fit m(1) tok]
  obtain i where i: "i < length ?D" "?D ! i = t" using bm(1) by (auto simp: in_set_conv_nth)
  have tb: "tb_dict ?tb = ?D" "tb_strs ?tb = var_strs ?vs" "tb_widths ?tb = var_widths ?vs" "tb_values ?tb = var_values ?vs"
    "tb_mode ?tb = (if sr then 0 else 1)" by (simp_all add: encoded_tb_def Let_def)
  have "template_feasible needle (needle_parts_of needle) (tb_mode ?tb = 1) (concat segs) (remdups (tb_strs ?tb))
      (remdups (zip (tb_widths ?tb) (tb_values ?tb)))"
  proof (rule template_feasible_message [OF _ tok _ m(2)])
    show "valid_utf8 m" by (rule msgs_fit_dest(1) [OF fit m(1)])
    show "template_segments t = Inr (segs ! i)" using segs(3) [OF i(1)] i(2) by simp
    show "set (segs ! i) \<subseteq> set (concat segs)" using i(1) segs(2) by (auto intro!: bexI [of _ "segs ! i"])
  qed (use False short tb var_streams_mono [OF bm(2)] in \<open>auto split: if_split_asm\<close>)
  then show ?thesis
    using column_may_contain_block [OF encoded_tb_read [OF ok fit enc]] False segs(1) tb(1) by simp
qed (auto simp: column_may_contain_def)

subsection \<open>The variables of one template\<close>

definition group_in :: "template_block \<Rightarrow> group \<Rightarrow> bool" where
  "group_in tb g \<longleftrightarrow> (case g_kind g of
     VStr \<Rightarrow> g_start g + g_len g \<le> length (tb_strs tb)
   | VNum \<Rightarrow> g_start g + g_len g \<le> length (tb_widths tb) \<and> g_start g + g_len g \<le> length (tb_values tb))"

definition group_got :: "template_block \<Rightarrow> group \<Rightarrow> str list \<Rightarrow> (byte \<times> i64) list \<Rightarrow> bool" where
  "group_got tb g ss ns \<longleftrightarrow> (\<forall>c. g_start g \<le> c \<longrightarrow> c < g_start g + g_len g \<longrightarrow>
     (case g_kind g of VStr \<Rightarrow> tb_strs tb ! c \<in> set ss | VNum \<Rightarrow> (tb_widths tb ! c, tb_values tb ! c) \<in> set ns))"

lemma slice_r_ok: "a + n \<le> length xs \<Longrightarrow> slice_r w xs a (a + n) = Inr (take n (drop a xs))"
  by (simp add: slice_r_def)

lemma in_slice: "a \<le> c \<Longrightarrow> c < a + n \<Longrightarrow> a + n \<le> length xs \<Longrightarrow> take n (drop a xs) ! (c - a) = xs ! c \<and> c - a < length (take n (drop a xs))"
  by auto

lemma slice_mem: "a \<le> c \<Longrightarrow> c < a + n \<Longrightarrow> a + n \<le> length xs \<Longrightarrow> xs ! c \<in> set (take n (drop a xs))"
  using in_slice [of a c n xs] by (metis nth_mem)

lemma slice_zip_mem:
  assumes "a \<le> c" "c < a + n" "a + n \<le> length xs" "a + n \<le> length ys"
  shows "(xs ! c, ys ! c) \<in> set (zip (take n (drop a xs)) (take n (drop a ys)))"
proof -
  have "zip (take n (drop a xs)) (take n (drop a ys)) ! (c - a) = (xs ! c, ys ! c)" using assms by simp
  moreover have "c - a < length (zip (take n (drop a xs)) (take n (drop a ys)))" using assms by simp
  ultimately show ?thesis by (metis nth_mem)
qed

lemma gather_slots_ok:
  assumes "\<forall>s < k. p + s < length (tb_groups tb) \<and> group_in tb (tb_groups tb ! (p + s))"
  shows "\<exists>ss ns. gather_slots tb p k = Inr (ss, ns) \<and> (\<forall>s < k. group_got tb (tb_groups tb ! (p + s)) ss ns)"
  using assms
proof (induction k arbitrary: p)
  case (Suc k)
  let ?g = "tb_groups tb ! p"
  have p: "p < length (tb_groups tb)" "group_in tb ?g" using Suc.prems by force+
  have rec: "\<forall>s < k. Suc p + s < length (tb_groups tb) \<and> group_in tb (tb_groups tb ! (Suc p + s))"
  proof (intro allI impI)
    fix s assume "s < k"
    then show "Suc p + s < length (tb_groups tb) \<and> group_in tb (tb_groups tb ! (Suc p + s))" using Suc.prems [rule_format, of "Suc s"] by simp
  qed
  have grow: "group_got tb g (a @ ss) (b @ ns)" if "group_got tb g ss ns" for g a ss b ns
    using that by (auto simp: group_got_def split: var_kind.split)
  show ?case
  proof (cases "g_kind ?g")
    case VStr
    obtain ss ns where IH: "gather_slots tb (Suc p) k = Inr (ss, ns)" "\<forall>s < k. group_got tb (tb_groups tb ! (Suc p + s)) ss ns"
      using Suc.IH [OF rec] by blast
    let ?ss = "take (g_len ?g) (drop (g_start ?g) (tb_strs tb))"
    have "group_got tb ?g (?ss @ ss) ns" using p(2) VStr by (auto simp: group_got_def group_in_def intro: slice_mem)
    moreover have "\<forall>s < k. group_got tb (tb_groups tb ! (Suc p + s)) (?ss @ ss) ns" using IH(2) grow [of _ ss ns ?ss "[]"] by simp
    ultimately have "\<forall>s < Suc k. group_got tb (tb_groups tb ! (p + s)) (?ss @ ss) ns" by (auto simp: less_Suc_eq_0_disj)
    moreover have "gather_slots tb p (Suc k) = Inr (?ss @ ss, ns)"
      using p VStr IH(1) by (simp add: group_in_def slice_r_ok)
    ultimately show ?thesis by blast
  next
    case VNum
    obtain ss ns where IH: "gather_slots tb (Suc p) k = Inr (ss, ns)" "\<forall>s < k. group_got tb (tb_groups tb ! (Suc p + s)) ss ns"
      using Suc.IH [OF rec] by blast
    let ?ns = "zip (take (g_len ?g) (drop (g_start ?g) (tb_widths tb))) (take (g_len ?g) (drop (g_start ?g) (tb_values tb)))"
    have "group_got tb ?g ss (?ns @ ns)"
      using p(2) VNum slice_zip_mem [of "g_start ?g" _ "g_len ?g" "tb_widths tb" "tb_values tb"]
      by (simp add: group_got_def group_in_def)
    moreover have "\<forall>s < k. group_got tb (tb_groups tb ! (Suc p + s)) ss (?ns @ ns)" using IH(2) grow [of _ ss ns "[]" ?ns] by simp
    ultimately have "\<forall>s < Suc k. group_got tb (tb_groups tb ! (p + s)) ss (?ns @ ns)" by (auto simp: less_Suc_eq_0_disj)
    moreover have "gather_slots tb p (Suc k) = Inr (ss, ?ns @ ns)"
      using p VNum IH(1) by (simp add: group_in_def slice_r_ok)
    ultimately show ?thesis by blast
  qed
qed simp

lemma lay_nth: "j < length G \<Longrightarrow> lay K G ! j =
    \<lparr>g_kind = kind_of K (fst (G ! j)), g_start = offs K (kind_of K (fst (G ! j))) (take j G), g_len = length (snd (G ! j))\<rparr>"
  by (simp add: lay_def)

lemma group_in_lay:
  assumes "block_ok tb ms" "j < length (group_vars ms [])"
  shows "j < length (tb_groups tb)" "group_in tb (tb_groups tb ! j)"
proof -
  let ?K = "map slot_kinds (tb_dict tb)" and ?G = "group_vars ms []"
  have g: "tb_groups tb = lay ?K ?G" and l: "length (tb_widths tb) = offs ?K VNum ?G" "length (tb_values tb) = offs ?K VNum ?G"
      "length (tb_strs tb) = offs ?K VStr ?G"
    using assms(1) by (simp_all add: block_ok_def Let_def)
  show "j < length (tb_groups tb)" using g assms(2) by simp
  show "group_in tb (tb_groups tb ! j)"
    using offs_at [OF assms(2), of ?K VNum] offs_at [OF assms(2), of ?K VStr] assms(2)
    by (cases "kind_of ?K (fst (?G ! j))") (simp_all add: group_in_def g l lay_nth)
qed

text \<open>The groups of a template that occurs: where its base points, one per slot.\<close>

lemma block_base:
  assumes "block_ok tb ms" "(i, vars) \<in> set ms" "vars \<noteq> []"
  defines "G \<equiv> group_vars ms []"
  shows "tb_base tb ! as_usize i = first_at (as_usize i) G" "first_at (as_usize i) G < length G" "length G < USIZE_MAX"
    and "\<forall>s < length vars. first_at (as_usize i) G + s < length G"
proof -
  have fk: "fits_kinds (map slot_kinds (tb_dict tb)) ms" and b: "tb_base tb = base_of (length (tb_dict tb)) G"
    and "length G < USIZE_MAX" using assms(1) by (simp_all add: block_ok_def Let_def G_def)
  then show "length G < USIZE_MAX" by simp
  show all: "\<forall>s < length vars. first_at (as_usize i) G + s < length G"
    using group_position(1) [OF fk assms(2)] by (simp add: G_def)
  then show lt: "first_at (as_usize i) G < length G" using assms(3) by force
  have "as_usize i < length (tb_dict tb)" using fk assms(2) by (auto simp: fits_kinds_def)
  then show "tb_base tb ! as_usize i = first_at (as_usize i) G" using lt by (simp add: b base_of_def)
qed

lemma gather_block:
  assumes "block_ok tb ms" "(i, vars) \<in> set ms" "vars \<noteq> []"
  shows "\<exists>ss ns. gather_slots tb (tb_base tb ! as_usize i) (length vars) = Inr (ss, ns) \<and>
    (\<forall>s < length vars. group_got tb (tb_groups tb ! (first_at (as_usize i) (group_vars ms []) + s)) ss ns)"
  unfolding block_base(1) [OF assms] using group_in_lay [OF assms(1)] block_base(4) [OF assms]
  by (intro gather_slots_ok) blast

text \<open>A slotted template with a base occurs.\<close>

lemma base_message:
  assumes "block_ok tb ms" "t < length (tb_dict tb)" "tb_base tb ! t \<noteq> USIZE_MAX"
  shows "\<exists>i vars. (i, vars) \<in> set ms \<and> as_usize i = t \<and> slot_kinds (tb_dict tb ! t) = map fst vars"
proof -
  let ?G = "group_vars ms []" and ?K = "map slot_kinds (tb_dict tb)"
  have fk: "fits_kinds ?K ms" and b: "tb_base tb = base_of (length (tb_dict tb)) ?G"
    using assms(1) by (simp_all add: block_ok_def Let_def)
  have lt: "first_at t ?G < length ?G" using assms(2,3) by (auto simp: b base_of_def split: if_split_asm)
  then have at: "as_usize (fst (fst (?G ! first_at t ?G))) = t"
    using nth_length_takeWhile [of "\<lambda>(k, _). as_usize (fst k) \<noteq> t" ?G] by (simp add: first_at_def split_def)
  obtain k vs where k: "?G ! first_at t ?G = (k, vs)" by (cases "?G ! first_at t ?G")
  then have "(k, vs) \<in> set ?G" using lt by (metis nth_mem)
  moreover have "\<forall>m \<in> set ms. length (snd m) \<le> 2 ^ 32" using fk by (auto simp: fits_kinds_def)
  ultimately have "occ k ms \<noteq> []" using group_vars_spec(2) by blast
  then obtain v where "v \<in> set (occ k ms)" by (meson last_in_set)
  then obtain vars where v: "(fst k, vars) \<in> set ms" using occ_in by blast
  have "as_usize (fst k) = t" using at k by simp
  moreover have "?K ! as_usize (fst k) = map fst vars" using fk v by (auto simp: fits_kinds_def)
  ultimately show ?thesis using v assms(2) by (intro exI [of _ "fst k"] exI [of _ vars]) simp
qed

lemma length_tb_base: "block_ok tb ms \<Longrightarrow> length (tb_base tb) = length (tb_dict tb)"
  by (simp add: block_ok_def Let_def base_of_def)

lemma template_entry_ok:
  assumes "block_ok tb ms" "t < length (tb_dict tb)"
  shows "\<exists>f. template_entry tb needle t = Inr f"
proof -
  have "valid_utf8 (tb_dict tb ! t)" using assms by (simp add: block_ok_def Let_def)
  then obtain segs where segs: "template_segments (tb_dict tb ! t) = Inr segs"
    using template_segments_ok [of _ "[]"] by (auto simp: template_segments_def)
  show ?thesis
  proof (cases "slot_kinds (tb_dict tb ! t) = [] \<or> tb_base tb ! t = USIZE_MAX")
    case True
    then show ?thesis using assms segs length_tb_base [OF assms(1)] by (auto simp: template_entry_def Let_def)
  next
    case False
    obtain i vars where m: "(i, vars) \<in> set ms" "as_usize i = t" "slot_kinds (tb_dict tb ! t) = map fst vars"
      using base_message [OF assms] False by blast
    have "vars \<noteq> []" using m(3) False by auto
    from gather_block [OF assms(1) m(1) this] m(2) obtain ss ns where
      "gather_slots tb (tb_base tb ! t) (length vars) = Inr (ss, ns)" by blast
    then show ?thesis using assms segs m(3) False length_tb_base [OF assms(1)] by (simp add: template_entry_def Let_def)
  qed
qed

subsection \<open>The row-skipping decoder\<close>

lemma encoded_block_ok:
  assumes ok: "codec_lib_ok lib" and fit: "msgs_fit msgs" and enc: "encode_mode lib msgs sr level = Inr b"
  shows "block_ok (encoded_tb msgs sr) (block_vars msgs sr)"
proof -
  let ?tb = "encoded_tb msgs sr" and ?G = "group_vars (block_vars msgs sr) []" and ?D = "tk_dict (tokenize_block msgs sr)"
  have "block_ok ?tb (block_ms ?tb)" by (rule read_template_block_no_panic(2) [OF ok encoded_tb_read [OF assms]])
  then have "length (tb_groups ?tb) < USIZE_MAX" by (simp add: block_ok_def Let_def)
  then have small: "length ?G < USIZE_MAX" by (simp add: encoded_tb_def Let_def)
  note v = block_vars_fit [OF fit, of sr]
  have "offs (map slot_kinds ?D) VNum ?G = length (var_values (block_stream msgs sr))"
      "offs (map slot_kinds ?D) VStr ?G = length (var_strs (block_stream msgs sr))"
    using kinded_length [OF group_vars_homog(1) [OF v(1)]]
    by (simp_all add: block_stream_def var_values_def var_strs_def filter_is_num)
  moreover have "length (var_widths (block_stream msgs sr)) = length (var_values (block_stream msgs sr))"
    by (simp add: var_widths_def var_values_def)
  ultimately show ?thesis
    using small v(1,3) dict_valid [OF fit, of sr] by (simp add: block_ok_def encoded_tb_def Let_def)
qed

text \<open>A gathered group holds the message's own variable.\<close>

lemma stream_nth:
  assumes "c < length (filter (\<lambda>v. fst v = kd) vs)" "filter (\<lambda>v. fst v = kd) vs ! c = v"
  shows "kd = VStr \<Longrightarrow> var_strs vs ! c = snd v"
    and "kd = VNum \<Longrightarrow> var_widths vs ! c = of_nat (length (snd v)) \<and> var_values vs ! c = the (parse_i64 (snd v))"
  using assms by (simp_all add: var_strs_def var_widths_def var_values_def filter_is_num)

lemma gathered_vars:
  fixes sr :: bool and msgs :: "str list"
  assumes ok: "block_ok (encoded_tb msgs sr) (block_vars msgs sr)" and m: "(i, vars) \<in> set (block_vars msgs sr)"
  defines "p \<equiv> first_at (as_usize i) (group_vars (block_vars msgs sr) [])"
  assumes got: "\<forall>s < length vars. group_got (encoded_tb msgs sr) (tb_groups (encoded_tb msgs sr) ! (p + s)) ss ns"
  shows "set (var_strs vars) \<subseteq> set ss" "set (zip (var_widths vars) (var_values vars)) \<subseteq> set ns"
proof -
  let ?tb = "encoded_tb msgs sr" and ?ms = "block_vars msgs sr" and ?G = "group_vars (block_vars msgs sr) []"
  let ?K = "map slot_kinds (tb_dict (encoded_tb msgs sr))" and ?vs = "block_stream msgs sr"
  obtain fin after where ms: "?ms = fin @ (i, vars) # after" using split_list [OF m] by blast
  have fk: "fits_kinds ?K (fin @ (i, vars) # after)" using ok ms by (simp add: block_ok_def Let_def)
  have tb: "tb_groups ?tb = lay ?K ?G" "tb_strs ?tb = var_strs ?vs" "tb_widths ?tb = var_widths ?vs"
      "tb_values ?tb = var_values ?vs" by (simp_all add: encoded_tb_def Let_def)
  have at: "case fst (vars ! s) of VStr \<Rightarrow> snd (vars ! s) \<in> set ss
      | VNum \<Rightarrow> (of_nat (length (snd (vars ! s))), the (parse_i64 (snd (vars ! s)))) \<in> set ns" if s: "s < length vars" for s
  proof -
    note c = slot_cursor [OF fk s, folded ms, folded p_def]
    let ?c = "cursors_at ?K ?G fin ! (p + s)" and ?kd = "fst (vars ! s)"
    let ?g = "tb_groups ?tb ! (p + s)"
    have g: "g_kind ?g = ?kd" "g_start ?g \<le> ?c" "?c < g_start ?g + g_len ?g"
      using c by (simp_all add: tb(1) lay_nth)
    have "length (filter (\<lambda>v. fst v = ?kd) ?vs) = offs ?K ?kd ?G"
      unfolding block_stream_def by (rule kinded_length [OF group_vars_homog(1)]) (simp only: ms fk)
    then have "?c < length (filter (\<lambda>v. fst v = ?kd) ?vs)" using c(6) by simp
    note nth = stream_nth [OF this cursor_var [OF fk s, folded ms, folded block_stream_def p_def]]
    show ?thesis using got [rule_format, OF s] g nth by (cases ?kd) (auto simp: group_got_def tb(2-4))
  qed
  show "set (var_strs vars) \<subseteq> set ss"
  proof
    fix x assume "x \<in> set (var_strs vars)"
    then obtain v where "v \<in> set vars" "fst v = VStr" "snd v = x" by (auto simp: var_strs_def not_is_num)
    then obtain s where "s < length vars" "fst (vars ! s) = VStr" "snd (vars ! s) = x" by (metis in_set_conv_nth)
    then show "x \<in> set ss" using at by force
  qed
  show "set (zip (var_widths vars) (var_values vars)) \<subseteq> set ns"
  proof
    fix x assume "x \<in> set (zip (var_widths vars) (var_values vars))"
    then obtain v where "v \<in> set vars" "fst v = VNum" "x = (of_nat (length (snd v)), the (parse_i64 (snd v)))"
      by (auto simp: var_pairs is_num_def)
    then obtain s where "s < length vars" "fst (vars ! s) = VNum" "x = (of_nat (length (snd (vars ! s))), the (parse_i64 (snd (vars ! s))))"
      by (metis in_set_conv_nth)
    then show "x \<in> set ns" using at by force
  qed
qed

text \<open>The template of a row that matches is feasible.\<close>

lemma template_entry_true:
  assumes ok: "block_ok (encoded_tb msgs sr) (block_vars msgs sr)" and fit: "msgs_fit msgs"
    and m: "(i, vars) \<in> set (block_vars msgs sr)" "m \<in> set msgs" "tokenize m sr = (tb_dict (encoded_tb msgs sr) ! as_usize i, vars)"
    and n: "contains_ci m needle" "needle \<noteq> []" "is_ascii needle" "inner_runs_short needle"
  shows "template_entry (encoded_tb msgs sr) needle (as_usize i) = Inr True"
proof -
  let ?tb = "encoded_tb msgs sr"
  have i: "as_usize i < length (tb_dict ?tb)" "slot_kinds (tb_dict ?tb ! as_usize i) = map fst vars"
    using ok m(1) by (auto simp: block_ok_def Let_def fits_kinds_def)
  then have "valid_utf8 (tb_dict ?tb ! as_usize i)" using ok by (simp add: block_ok_def Let_def)
  then obtain segs where segs: "template_segments (tb_dict ?tb ! as_usize i) = Inr segs"
    using template_segments_ok [of _ "[]"] by (auto simp: template_segments_def)
  have tf: "template_feasible needle (needle_parts_of needle) (tb_mode ?tb = 1) segs strs nums"
    if "set (var_strs vars) \<subseteq> set strs" "set (zip (var_widths vars) (var_values vars)) \<subseteq> set nums" for strs nums
  proof (rule template_feasible_message [OF msgs_fit_dest(1) [OF fit m(2)] m(3) _ n that segs order_refl])
    show "\<not> sr" if "tb_mode ?tb = 1" using that by (simp add: encoded_tb_def Let_def split: if_split_asm)
  qed
  show ?thesis
  proof (cases "vars = []")
    case True
    then show ?thesis using i segs tf [of "[]" "[]"] by (simp add: template_entry_def Let_def var_streams)
  next
    case False
    obtain ss ns where g: "gather_slots ?tb (tb_base ?tb ! as_usize i) (length vars) = Inr (ss, ns)"
      "\<forall>s < length vars. group_got ?tb (tb_groups ?tb ! (first_at (as_usize i) (group_vars (block_vars msgs sr) []) + s)) ss ns"
      using gather_block [OF ok m(1) False] by blast
    have "tb_base ?tb ! as_usize i \<noteq> USIZE_MAX" using block_base(1-3) [OF ok m(1) False] by simp
    moreover have "template_feasible needle (needle_parts_of needle) (tb_mode ?tb = 1) segs (btree_set ss) ns"
      using tf gathered_vars [OF ok m(1) g(2)] by simp
    ultimately show ?thesis using False i segs g(1) length_tb_base [OF ok] by (simp add: template_entry_def Let_def)
  qed
qed

lemma skip_slots_read: "read_slots W V S ks p cs = Inr (x, cs') \<Longrightarrow> skip_slots p (length ks) cs = Inr cs'"
proof (induction ks arbitrary: p cs x)
  case (Cons k ks)
  then show ?case by (cases k) (auto simp: Let_def split: if_split_asm)
qed simp

abbreviation matching :: "str \<Rightarrow> nat \<Rightarrow> str list \<Rightarrow> (nat \<times> str) list" where
  "matching needle row msgs \<equiv> filter (\<lambda>(_, m). contains_ci m needle) (enumerate row msgs)"

lemma filter_loop_ok:
  assumes "K = map slot_kinds (tb_dict tb)" "fits_kinds K (fin @ ms)" "length feas = length (tb_dict tb)"
    and "tb_base tb = base_of (length K) (group_vars (fin @ ms) [])"
    and "tb_widths tb = var_widths (concat (map snd (group_vars (fin @ ms) [])))"
    and "tb_values tb = var_values (concat (map snd (group_vars (fin @ ms) [])))"
    and "tb_strs tb = var_strs (concat (map snd (group_vars (fin @ ms) [])))"
    and "list_all2 (\<lambda>(i, vars) msg. (contains_ci msg needle \<longrightarrow> feas ! as_usize i) \<and>
      detokenize (tb_dict tb ! as_usize i) (var_widths vars) (var_values vars) (var_strs vars) = Inr msg) ms msgs"
  shows "filter_loop tb needle feas row (map fst ms) (cursors_at K (group_vars (fin @ ms) []) fin) =
    Inr \<lparr>fm_rows = matching needle row msgs, fm_candidate_rows = length (filter (\<lambda>(i, _). feas ! as_usize i) ms)\<rparr>"
  using assms(2,4-)
proof (induction ms arbitrary: fin msgs row)
  case (Cons m ms)
  obtain i vars where m: "m = (i, vars)" by (cases m)
  let ?D = "tb_dict tb" and ?G = "group_vars (fin @ (i, vars) # ms) []"
  obtain msg rst where msgs: "msgs = msg # rst" and feas: "contains_ci msg needle \<longrightarrow> feas ! as_usize i"
    and d: "detokenize (?D ! as_usize i) (var_widths vars) (var_values vars) (var_strs vars) = Inr msg"
    using Cons.prems(6) m by (auto simp: list_all2_Cons1)
  have fk: "fits_kinds K (fin @ (i, vars) # ms)" using Cons.prems(1) m by simp
  then have i: "as_usize i < length ?D" "slot_kinds (?D ! as_usize i) = map fst vars" using assms(1) by (auto simp: fits_kinds_def)
  have "filter_loop tb needle feas (Suc row) (map fst ms) (cursors_at K (group_vars ((fin @ [(i, vars)]) @ ms) []) (fin @ [(i, vars)])) =
      Inr \<lparr>fm_rows = matching needle (Suc row) rst, fm_candidate_rows = length (filter (\<lambda>(i, _). feas ! as_usize i) ms)\<rparr>"
    using Cons.prems m msgs by (intro Cons.IH) simp_all
  then have rec: "filter_loop tb needle feas (Suc row) (map fst ms) (cursors_at K ?G (fin @ [(i, vars)])) =
      Inr \<lparr>fm_rows = matching needle (Suc row) rst, fm_candidate_rows = length (filter (\<lambda>(i, _). feas ! as_usize i) ms)\<rparr>" by simp
  have read: "read_slots (tb_widths tb) (tb_values tb) (tb_strs tb) (map fst vars) (tb_base tb ! as_usize i) (cursors_at K ?G fin) =
      Inr ((var_widths vars, var_values vars, var_strs vars), cursors_at K ?G (fin @ [(i, vars)]))"
    using read_slots_base [OF fk read_slots_vars [OF fk]] Cons.prems(2-5) m by simp
  have b: "as_usize i < length (tb_base tb)" using i(1) Cons.prems(2) assms(1) m by (simp add: base_of_def)
  show ?case
  proof (cases "feas ! as_usize i")
    case True
    then show ?thesis using rec read b i d m msgs assms(3) by simp
  next
    case False
    then have "\<not> contains_ci msg needle" using feas by blast
    then show ?thesis using False rec skip_slots_read [OF read] b i m msgs assms(3) by simp
  qed
qed simp

lemma block_message_tokens:
  assumes "msgs_fit msgs" "j < length msgs" "block_vars msgs sr ! j = (i, vars)"
  shows "tokenize (msgs ! j) sr = (tb_dict (encoded_tb msgs sr) ! as_usize i, vars)"
proof -
  note t = block_tokens [OF assms(1), of sr]
  have len: "length (tk_ids (tokenize_block msgs sr)) = length msgs" using t(2) by (rule list_all2_lengthD)
  have "i = tk_ids (tokenize_block msgs sr) ! j" "vars = snd (tokenize (msgs ! j) sr)"
    using assms(2,3) t(1) len by (simp_all add: block_vars_def)
  moreover have "tk_dict (tokenize_block msgs sr) ! as_usize (tk_ids (tokenize_block msgs sr) ! j) = fst (tokenize (msgs ! j) sr)"
    using t(2) assms(2) by (auto simp: list_all2_conv_all_nth)
  ultimately show ?thesis by (simp add: encoded_tb_def Let_def)
qed

lemma collect_entries:
  assumes "block_ok tb ms"
  obtains feas where "collect_r (template_entry tb needle) [0..<length (tb_dict tb)] = Inr feas" "length feas = length (tb_dict tb)"
    "\<And>t. t < length (tb_dict tb) \<Longrightarrow> template_entry tb needle t = Inr (feas ! t)"
proof -
  have ok: "template_entry tb needle t = Inr (projr (template_entry tb needle t))" if "t < length (tb_dict tb)" for t
    using template_entry_ok [OF assms that, of needle] by auto
  then have "collect_r (template_entry tb needle) [0..<length (tb_dict tb)] = Inr (map (\<lambda>t. projr (template_entry tb needle t)) [0..<length (tb_dict tb)])"
    by (intro collect_r_map) simp
  with that ok show thesis by simp
qed

lemma filtered_encoded:
  assumes ok: "codec_lib_ok lib" and fit: "msgs_fit msgs" and enc: "encode_mode lib msgs sr level = Inr b"
    and n: "needle \<noteq> []" "is_ascii needle" "inner_runs_short needle"
  shows "\<exists>fm. decode_template_str_filtered lib b (length msgs) needle = Inr fm \<and> fm_rows fm = matching needle 0 msgs \<and>
    fm_candidate_rows fm \<le> length msgs"
proof -
  let ?tb = "encoded_tb msgs sr" and ?ms = "block_vars msgs sr"
  note bok = encoded_block_ok [OF ok fit enc] and v = block_vars_fit [OF fit, of sr]
  obtain feas where feas: "collect_r (template_entry ?tb needle) [0..<length (tb_dict ?tb)] = Inr feas" "length feas = length (tb_dict ?tb)"
    "\<And>t. t < length (tb_dict ?tb) \<Longrightarrow> template_entry ?tb needle t = Inr (feas ! t)"
    using collect_entries [OF bok, of needle] by metis
  have len: "length ?ms = length msgs" using v(2) by (rule list_all2_lengthD)
  have f: "list_all2 (\<lambda>(i, vars) msg. contains_ci msg needle \<longrightarrow> feas ! as_usize i) ?ms msgs"
    unfolding list_all2_conv_all_nth
  proof (intro conjI allI impI len)
    fix j assume "j < length ?ms"
    then have j: "j < length msgs" using len by simp
    obtain i vars where m: "?ms ! j = (i, vars)" by (cases "?ms ! j")
    then have mem: "(i, vars) \<in> set ?ms" using j len by (metis nth_mem)
    then have "as_usize i < length (tb_dict ?tb)" using bok by (auto simp: block_ok_def Let_def fits_kinds_def)
    then have "contains_ci (msgs ! j) needle \<longrightarrow> feas ! as_usize i"
      using template_entry_true [OF bok fit mem nth_mem [OF j] block_message_tokens [OF fit j m] _ n] feas(3) by fastforce
    then show "(case ?ms ! j of (i, vars) \<Rightarrow> \<lambda>msg. contains_ci msg needle \<longrightarrow> feas ! as_usize i) (msgs ! j)" using m by simp
  qed
  have "filter_loop ?tb needle feas 0 (map fst ?ms) (cursors_at (map slot_kinds (tb_dict ?tb)) (group_vars ([] @ ?ms) []) []) =
      Inr \<lparr>fm_rows = matching needle 0 msgs, fm_candidate_rows = length (filter (\<lambda>(i, _). feas ! as_usize i) ?ms)\<rparr>"
  proof (rule filter_loop_ok [OF refl])
    show "list_all2 (\<lambda>(i, vars) msg. (contains_ci msg needle \<longrightarrow> feas ! as_usize i) \<and>
      detokenize (tb_dict ?tb ! as_usize i) (var_widths vars) (var_values vars) (var_strs vars) = Inr msg) ?ms msgs"
      using f v(2) by (auto simp: list_all2_conv_all_nth encoded_tb_def Let_def split_def)
  qed (use bok feas(2) in \<open>simp_all add: block_ok_def encoded_tb_def Let_def block_stream_def\<close>)
  moreover have "length (filter (\<lambda>(i, _). feas ! as_usize i) ?ms) \<le> length msgs" unfolding len [symmetric] by (rule length_filter_le)
  ultimately show ?thesis
    using encoded_tb_read [OF ok fit enc] feas(1) n(1,2) v(3) bok
    by (simp add: decode_template_str_filtered_def block_ok_def Let_def cursors_start)
qed

subsection \<open>No panic\<close>

lemma filter_loop_no_panic:
  assumes K: "K = map slot_kinds (tb_dict tb)" and D: "\<forall>t \<in> set (tb_dict tb). valid_utf8 t" and ms: "fits_kinds K (fin @ ms)"
    and feas: "length feas = length (tb_dict tb)"
    and "tb_base tb = base_of (length K) (group_vars (fin @ ms) [])"
    and "length (tb_widths tb) = offs K VNum (group_vars (fin @ ms) [])"
    and "length (tb_values tb) = offs K VNum (group_vars (fin @ ms) [])"
    and "length (tb_strs tb) = offs K VStr (group_vars (fin @ ms) [])"
  shows "\<not> is_panic (filter_loop tb needle feas row (map fst ms) (cursors_at K (group_vars (fin @ ms) []) fin))"
  using ms assms(5-)
proof (induction ms arbitrary: fin row)
  case (Cons m ms)
  obtain i vars where m: "m = (i, vars)" by (cases m)
  have fk: "fits_kinds K (fin @ (i, vars) # ms)" using Cons.prems(1) m by simp
  let ?G = "group_vars (fin @ (i, vars) # ms) []"
  have i: "as_usize i < length (tb_dict tb)" "as_usize i < length (tb_base tb)" "slot_kinds (tb_dict tb ! as_usize i) = map fst vars"
    using fk K Cons.prems(2) m by (auto simp: fits_kinds_def base_of_def)
  have rec: "\<not> is_panic (filter_loop tb needle feas (Suc row) (map fst ms) (cursors_at K ?G (fin @ [(i, vars)])))"
    using Cons.IH [of "fin @ [(i, vars)]" "Suc row"] Cons.prems m by simp
  obtain x where read: "read_slots (tb_widths tb) (tb_values tb) (tb_strs tb) (map fst vars) (tb_base tb ! as_usize i) (cursors_at K ?G fin) =
      Inr (x, cursors_at K ?G (fin @ [(i, vars)]))"
    using read_slots_base [OF fk read_slots_at [OF fk]] Cons.prems(2-) m by simp
  have "valid_utf8 (tb_dict tb ! as_usize i)" using D i(1) by simp
  then show ?case
    using i rec read skip_slots_read [OF read] feas m by (cases x) (auto simp: Let_def detokenize_no_panic)
qed simp

lemma decode_template_str_filtered_no_panic:
  assumes "codec_lib_ok lib" "8 * n \<le> ISIZE_MAX"
  shows "\<not> is_panic (decode_template_str_filtered lib b n needle)"
proof -
  have "\<not> is_panic (and_then (collect_r (template_entry tb needle) [0..<length (tb_dict tb)]) (\<lambda>feas.
      filter_loop tb needle feas 0 (tb_ids tb) (map g_start (tb_groups tb))))" if "read_template_block lib b n = Inr tb" for tb
  proof -
    have ok: "block_ok tb (block_ms tb)" by (rule read_template_block_no_panic(2) [OF assms(1) that])
    obtain feas where feas: "collect_r (template_entry tb needle) [0..<length (tb_dict tb)] = Inr feas" "length feas = length (tb_dict tb)"
      using collect_entries [OF ok, of needle] by metis
    from filter_loop_no_panic [OF refl _ _ feas(2), of "[]" "block_ms tb"] ok show ?thesis
      by (simp add: feas(1) block_ok_def Let_def cursors_start)
  qed
  then show ?thesis
    using assms(2) read_template_block_no_panic(1) [OF assms(1), of n b] by (simp add: decode_template_str_filtered_def)
qed

subsection \<open>A digit run of more than 19 digits\<close>

abbreviation long_run :: str where
  "long_run \<equiv> str_lit '' 00000000000000000001 ''"

lemma contains_ci_refl: "contains_ci m m"
  by (rule contains_ci_intro [of _ "[]" m "[]"]) (simp_all add: eq_ignore_ascii_case_def)

lemma long_run_fit: "msgs_fit [long_run]"
proof -
  have "is_ascii long_run" "length long_run = 22" by code_simp+
  then show ?thesis by (simp add: msgs_fit_def is_ascii_valid DECOMPRESS_MAX_BYTES_def)
qed

lemma long_run_vars: "map fst (snd (tokenize long_run sr)) = [VNum]"
proof -
  have "map fst (snd (tokenize long_run True)) = [VNum]" "map fst (snd (tokenize long_run False)) = [VNum]" by code_simp+
  then show ?thesis by (cases sr) simp_all
qed

lemma long_run_stream: "map fst (block_stream [long_run] sr) = [VNum]"
proof -
  have "mset (block_stream [long_run] sr) = mset (snd (tokenize long_run sr))"
    using mset_block_stream [OF long_run_fit, of sr] by simp
  then have "mset (map fst (block_stream [long_run] sr)) = mset (map fst (snd (tokenize long_run sr)))" by (simp only: mset_map)
  then have "mset (map fst (block_stream [long_run] sr)) = {#VNum#}" unfolding long_run_vars by simp
  then show ?thesis by (simp only: mset_single_iff)
qed

lemma long_run_stream_small: "length (block_stream [long_run] sr) < 8"
  using arg_cong [OF long_run_stream [of sr], of length] by simp

lemma long_run_infeasible: "\<not> template_feasible long_run (needle_parts_of long_run) whole segments [] nums"
proof -
  have "\<not> token_confined long_run" "map length (snd (parts_loop True long_run)) = [20]" by code_simp+
  then show ?thesis by (auto simp: template_feasible_def needle_parts_of_def run_feasible_def num_ok_def)
qed

lemma long_run_encoded:
  assumes "codec_lib_ok lib" "encode_mode lib [long_run] sr level = Inr b"
  shows "column_may_contain lib b long_run = Inr False"
proof -
  have needle: "long_run \<noteq> []" "is_ascii long_run" by code_simp+
  obtain segs where segs: "collect_r template_segments (tk_dict (tokenize_block [long_run] sr)) = Inr segs"
    using collect_segments [OF dict_valid [OF long_run_fit, of sr]] by metis
  obtain v where "block_stream [long_run] sr = [v]" "fst v = VNum" using long_run_stream [of sr] by auto
  then have "var_strs (block_stream [long_run] sr) = []" by (simp add: var_strs_def is_num_def)
  then show ?thesis
    using column_may_contain_block [OF encoded_tb_read [OF assms(1) long_run_fit assms(2)] needle] segs long_run_infeasible
    by (simp add: encoded_tb_def Let_def)
qed

subsection \<open>Theorems\<close>

text \<open>
  C10. For a non-empty ASCII needle whose inner digit runs have at most 19 digits, the row-skipping decoder
  returns exactly the rows of the column whose message contains the needle, with their row numbers, and
  never looks at more rows than the column has. The messages are UTF-8 and take at most 8 MiB with a
  length of four bytes each.
\<close>

theorem filtered_decode_exact:
  assumes "codec_lib_ok lib" "list_all valid_utf8 msgs" "8 * strs_size msgs \<le> DECOMPRESS_MAX_BYTES"
    and "encode_template_str lib msgs level = Inr b" "needle \<noteq> []" "is_ascii needle"
    and "list_all (\<lambda>run. length run \<le> 19) (np_inner_runs (needle_parts_of needle))"
  shows "\<exists>fm. decode_template_str_filtered lib b (length msgs) needle = Inr fm \<and>
    fm_rows fm = filter (\<lambda>(_, m). contains_ci m needle) (enumerate 0 msgs) \<and> fm_candidate_rows fm \<le> length msgs"
  using assms filtered_encoded [of lib msgs _ level b needle]
  by (auto simp: encode_template_str_def msgs_fit_def inner_runs_short_def split: if_split_asm)

theorem filtered_decode_exact_witness:
  "\<exists>b fm. encode_template_str stored_lib [str_lit ''x42''] 7 = Inr b \<and>
     decode_template_str_filtered stored_lib b 1 (str_lit ''X4'') = Inr fm \<and> fm_rows fm = [(0, str_lit ''x42'')]"
proof -
  obtain b where b: "encode_template_str stored_lib [str_lit ''x42''] 7 = Inr b" using stored_template_example(3) by blast
  have "fst (parts_loop True (str_lit ''X4'')) = [str_lit ''X''] \<and> snd (parts_loop True (str_lit ''X4'')) = []" by code_simp
  moreover have "matching (str_lit ''X4'') 0 [str_lit ''x42''] = [(0, str_lit ''x42'')]" by code_simp
  moreover have "is_ascii (str_lit ''X4'')" "str_lit ''X4'' \<noteq> []" by code_simp+
  ultimately show ?thesis
    using filtered_decode_exact [OF stored_lib_ok stored_template_example(1,2) b, of "str_lit ''X4''"] b
    by (auto simp: needle_parts_of_def)
qed

text \<open>
  C11. The block-level check does not rule out a block with a match: if a message of the column contains the
  needle, and the inner digit runs of the needle have at most 19 digits, \<open>column_may_contain\<close> answers
  true. The messages are UTF-8 and take at most 8 MiB with a length of four bytes each.
\<close>

theorem column_check_sound:
  assumes "codec_lib_ok lib" "list_all valid_utf8 msgs" "8 * strs_size msgs \<le> DECOMPRESS_MAX_BYTES"
    and "encode_template_str lib msgs level = Inr b" "m \<in> set msgs" "contains_ci m needle"
    and "list_all (\<lambda>run. length run \<le> 19) (np_inner_runs (needle_parts_of needle))"
  shows "column_may_contain lib b needle = Inr True"
  using assms column_may_contain_encoded [of lib msgs _ level b m needle]
  by (auto simp: encode_template_str_def msgs_fit_def inner_runs_short_def split: if_split_asm)

theorem column_check_sound_witness:
  "\<exists>b. encode_template_str stored_lib [str_lit ''x42''] 7 = Inr b \<and> column_may_contain stored_lib b (str_lit ''X4'') = Inr True"
proof -
  obtain b where b: "encode_template_str stored_lib [str_lit ''x42''] 7 = Inr b" using stored_template_example(3) by blast
  have "snd (parts_loop True (str_lit ''X4'')) = []" "contains_ci (str_lit ''x42'') (str_lit ''X4'')" by code_simp+
  then show ?thesis
    using column_check_sound [OF stored_lib_ok stored_template_example(1,2) b, of "str_lit ''x42''" "str_lit ''X4''"] b
    by (auto simp: needle_parts_of_def)
qed

text \<open>
  C12. The 19-digit bound of the checks is smaller than what a number variable can hold: a column whose only
  message is \<open> 00000000000000000001 \<close> is ruled out for the needle that is the message itself, so the match
  is lost.
\<close>

theorem long_run_match_lost:
  assumes "codec_lib_ok lib" "encode_template_str lib [str_lit '' 00000000000000000001 ''] level = Inr b"
  shows "contains_ci (str_lit '' 00000000000000000001 '') (str_lit '' 00000000000000000001 '') \<and>
    column_may_contain lib b (str_lit '' 00000000000000000001 '') = Inr False"
  using long_run_encoded [OF assms(1)] assms(2) contains_ci_refl
  by (auto simp: encode_template_str_def split: if_split_asm)

theorem long_run_match_lost_witness:
  "\<exists>b. encode_template_str stored_lib [str_lit '' 00000000000000000001 ''] 7 = Inr b \<and>
     column_may_contain stored_lib b (str_lit '' 00000000000000000001 '') = Inr False"
proof -
  obtain b where "encode_template_str stored_lib [str_lit '' 00000000000000000001 ''] 7 = Inr b"
    using stored_encode_template [OF long_run_fit _ long_run_stream_small] by auto
  with long_run_match_lost [OF stored_lib_ok this] show ?thesis by blast
qed

text \<open>
  C13. Searching never panics, whatever the bytes of the column and the needle. The expected count \<open>n\<close> is
  one whose \<open>n\<close> template numbers (8 bytes each) fit the largest allocation of \<open>isize::MAX\<close> bytes; blocks
  expect at most 1,048,576.
\<close>

theorem filtered_decode_never_panics:
  assumes "codec_lib_ok lib" "8 * n \<le> ISIZE_MAX"
  shows "\<not> is_panic (decode_template_str_filtered lib b n needle)"
  by (rule decode_template_str_filtered_no_panic [OF assms])

theorem filtered_decode_never_panics_witness: "\<not> is_panic (decode_template_str_filtered stored_lib [1, 2, 3] 7 (str_lit ''a''))"
  by (rule filtered_decode_never_panics [OF stored_lib_ok]) (simp add: machine_limits)

end
