(* ===== verification/BlockFacts.thy ===== *)
theory BlockFacts
  imports BlockCodec FilterFacts
begin

section \<open>What the block codec promises\<close>

text \<open>
  Safety of the decoders on arbitrary bytes, projections as projections of the full decode, the header's
  range claims, and the soundness of the pre-decode check.
\<close>

subsection \<open>Zipping columns\<close>

definition plain_entry :: "i64 \<times> byte \<times> str \<times> (str \<times> str) list \<Rightarrow> log_entry" where
  "plain_entry = (\<lambda>(t, l, m, md). \<lparr>le_ts = t, le_level = l, le_severity = None, le_message = m, le_metadata = md, le_metadata_json = None\<rparr>)"

definition rich_entry :: "i64 \<times> byte \<times> str \<times> rich_metadata \<Rightarrow> log_entry" where
  "rich_entry = (\<lambda>(t, l, m, r). \<lparr>le_ts = t, le_level = l, le_severity = Some (rm_severity r), le_message = m,
     le_metadata = rm_metadata r, le_metadata_json = Some (rm_metadata_json r)\<rparr>)"

lemma zip_entries_plain:
  "length ts = n \<Longrightarrow> length ls = n \<Longrightarrow> length ms = n \<Longrightarrow> length mds = n \<Longrightarrow>
   zip_entries False n ts ls ms mds rs = Inr (map plain_entry (zip ts (zip ls (zip ms mds))))"
proof (induction n arbitrary: ts ls ms mds)
  case (Suc n)
  then show ?case by (cases ts; cases ls; cases ms; cases mds) (simp_all add: plain_entry_def)
qed simp

lemma zip_entries_rich:
  "length ts = n \<Longrightarrow> length ls = n \<Longrightarrow> length ms = n \<Longrightarrow> length rs = n \<Longrightarrow>
   zip_entries True n ts ls ms mds rs = Inr (map rich_entry (zip ts (zip ls (zip ms rs))))"
proof (induction n arbitrary: ts ls ms rs)
  case (Suc n)
  then show ?case by (cases ts; cases ls; cases ms; cases rs) (simp_all add: rich_entry_def)
qed simp

lemma parse_rich_rows_length: "parse_rich_rows js p i n r = Inr (out, r') \<Longrightarrow> length out = n"
  by (induction js p i n r arbitrary: out rule: parse_rich_rows.induct) auto

lemma parse_rich_length: "parse_rich_metadata_projected js b n p = Inr out \<Longrightarrow> length out = n"
  by (auto simp: parse_rich_metadata_projected_def dest: parse_rich_rows_length split: if_split_asm)

subsection \<open>No panic\<close>

lemma canonical_json_no_panic [simp]: "\<not> is_panic (canonical_metadata_json js j)"
  by (auto simp: canonical_metadata_json_def split: json.split)

lemma pairs_from_json_no_panic [simp]: "\<not> is_panic (metadata_pairs_from_json js j)"
  by (auto simp: metadata_pairs_from_json_def split: json.split)

lemma canonical_severity_no_panic [simp]: "\<not> is_panic (canonical_severity s)"
  by (auto simp: canonical_severity_def)

lemma from_utf8_no_panic: "(\<And>w. e \<noteq> Panic w) \<Longrightarrow> \<not> is_panic (from_utf8 b e)"
  by (auto simp: from_utf8_def)

lemma rich_readers_no_panic [simp]:
  "\<not> is_panic (read_severity i k r)" "\<not> is_panic (read_json_text i r)"
  by (auto simp: read_severity_def read_json_text_def from_utf8_no_panic)

lemma parse_rich_rows_no_panic [simp]: "\<not> is_panic (parse_rich_rows js p i n r)"
  by (induction js p i n r rule: parse_rich_rows.induct) auto

lemma parse_rich_no_panic [simp]: "\<not> is_panic (parse_rich_metadata_projected js b n p)"
  by (auto simp: parse_rich_metadata_projected_def)

lemma block_header_no_panic [simp]:
  "\<not> is_panic (read_block_codec b)" "\<not> is_panic (read_block_lens r)" "\<not> is_panic (read_block_columns r)"
  by (auto simp: read_block_codec_def read_block_lens_def read_block_columns_def)

lemma check_levels_no_panic [simp]: "\<not> is_panic (check_levels ls)"
  by (simp add: check_levels_def)

lemma read_messages_length: "read_messages D K base W V S ids cs = Inr ms \<Longrightarrow> length ms = length ids"
proof (induction ids arbitrary: cs ms)
  case (Cons i ids)
  then obtain ms' cs' where "read_messages D K base W V S ids cs' = Inr ms'" "length ms = Suc (length ms')" by auto
  then show ?case using Cons.IH by simp
qed simp

lemma read_template_block_ids: "read_template_block lib b n = Inr tb \<Longrightarrow> length (tb_ids tb) = n"
proof -
  assume "read_template_block lib b n = Inr tb"
  then obtain c where "decode_i64 lib c n = Inr (tb_ids tb)"
    unfolding read_template_block_def by (auto split: if_split_asm)
  then show ?thesis by (rule decode_i64_length)
qed

lemma decode_template_str_length: "decode_template_str lib b n = Inr ms \<Longrightarrow> length ms = n"
  by (auto simp: decode_template_str_def read_template_block_ids dest: read_messages_length)

lemma zip_entries_ok:
  assumes "length ts = n" "length ls = n" "length ms = n" "rich \<Longrightarrow> length rs = n" "\<not> rich \<Longrightarrow> length mds = n"
  shows "zip_entries rich n ts ls ms mds rs = Inr (if rich then map rich_entry (zip ts (zip ls (zip ms rs)))
    else map plain_entry (zip ts (zip ls (zip ms mds))))"
  using assms zip_entries_plain [of ts n ls ms mds rs] zip_entries_rich [of ts n ls ms rs mds] by simp

lemma zip_entries_no_panic:
  assumes "length ts = n" "length ls = n" "length ms = n" "rich \<Longrightarrow> length rs = n" "\<not> rich \<Longrightarrow> length mds = n"
  shows "\<not> is_panic (zip_entries rich n ts ls ms mds rs)"
  by (simp add: zip_entries_ok [OF assms])

lemma read_block_columns_count: "read_block_columns r = Inr bc \<Longrightarrow> bc_n bc \<le> MAX_BLOCK_ENTRIES"
  by (auto simp: read_block_columns_def read_block_lens_def check_entry_count_def ensure_def split: if_split_asm)

lemma block_count_allocates: "n \<le> MAX_BLOCK_ENTRIES \<Longrightarrow> n * 8 \<le> ISIZE_MAX \<and> 24 * n \<le> ISIZE_MAX"
  by (simp add: MAX_BLOCK_ENTRIES_def machine_limits)

lemma decode_columnar_no_panic:
  assumes "codec_lib_ok lib" "bc_n bc \<le> MAX_BLOCK_ENTRIES"
  shows "\<not> is_panic (decode_columnar lib js codec bc p)"
proof -
  note n = block_count_allocates [OF assms(2)]
  let ?n = "bc_n bc" and ?rich = "codec \<in> {CODEC_RICH_COLUMNAR, CODEC_RICH_TEMPLATE}"
  let ?msgs = "if \<not> lp_message p then Inr (replicate ?n []) else if codec = CODEC_RICH_TEMPLATE
    then decode_template_str lib (bc_messages bc) ?n else decode_str lib (bc_messages bc) ?n"
  let ?rs = "if ?rich \<and> rich_envelope p then and_then (zstd_decompress lib (bc_metadata bc) ''rich metadata column'')
    (\<lambda>raw. parse_rich_metadata_projected js raw ?n p) else Inr []"
  let ?mds = "if \<not> lp_metadata p \<and> \<not> lp_metadata_pairs p then Inr (replicate ?n [])
    else if codec = CODEC_COLUMNAR_V2 then decode_pairs_column lib (bc_metadata bc) ?n parse_metadata
    else if ?rich then Inr [] else and_then (zstd_decompress lib (bc_metadata bc) ''metadata column'') (\<lambda>raw. parse_metadata raw ?n)"
  have msgs: "\<not> is_panic ?msgs" "?msgs = Inr ms \<Longrightarrow> length ms = ?n" for ms
    using decode_template_str_no_panic [OF assms(1)] n decode_str_no_panic
    by (auto dest: decode_template_str_length decode_str_length split: if_split_asm)
  have rs: "\<not> is_panic ?rs" "?rs = Inr rs \<Longrightarrow> ?rich \<and> rich_envelope p \<Longrightarrow> length rs = ?n" for rs
    by (auto dest: parse_rich_length)
  have mds: "\<not> is_panic ?mds" "?mds = Inr mds \<Longrightarrow> \<not> (?rich \<and> rich_envelope p) \<Longrightarrow> length mds = ?n" for mds
    using decode_pairs_column_no_panic by (auto simp: rich_envelope_def dest: decode_pairs_column_length parse_metadata_length split: if_split_asm)
  have zip: "\<not> is_panic (zip_entries (?rich \<and> rich_envelope p) ?n ts ls ms mds rs)"
    if "decode_i64 lib (bc_ts bc) ?n = Inr ts" "decode_u8 lib (bc_levels bc) ?n = Inr ls" "?msgs = Inr ms" "?rs = Inr rs" "?mds = Inr mds"
    for ts ls ms rs mds
    using decode_i64_length [OF that(1)] decode_u8_length [OF that(2)] msgs(2) [OF that(3)] rs(2) [OF that(4)] mds(2) [OF that(5)]
    by (intro zip_entries_no_panic)
  show ?thesis
    unfolding decode_columnar_def Let_def is_panic_and_then
    using decode_i64_no_panic [of "bc_n bc"] n decode_u8_no_panic msgs(1) rs(1) mds(1) zip
    by (auto simp del: is_panic_and_then if_split)
qed

lemma legacy_columns_no_panic [simp]: "\<not> is_panic (legacy_columns lib codec bc p)"
  by (auto simp: legacy_columns_def)

lemma legacy_timestamps_props:
  "\<not> is_panic (legacy_timestamps codec n c0)" "legacy_timestamps codec n c0 = Inr ts \<Longrightarrow> length ts = n"
  by (auto simp: legacy_timestamps_def Let_def length_as_chunks split: if_split_asm)

lemma legacy_messages_props:
  "\<not> is_panic (legacy_messages p n c2)" "legacy_messages p n c2 = Inr ms \<Longrightarrow> length ms = n"
  by (auto simp: legacy_messages_def dest: read_strs_length split: if_split_asm)

lemma decode_block_legacy_no_panic: "\<not> is_panic (decode_block_legacy lib js codec bc p)"
proof -
  let ?n = "bc_n bc" and ?rich = "codec = CODEC_RICH_RAW"
  let ?rs = "\<lambda>c3. if ?rich \<and> rich_envelope p then parse_rich_metadata_projected js c3 ?n p else Inr []"
  let ?mds = "\<lambda>c3. if \<not> lp_metadata p \<and> \<not> lp_metadata_pairs p then Inr (replicate ?n []) else if ?rich then Inr [] else parse_metadata c3 ?n"
  have rs: "\<not> is_panic (?rs c3)" "?rs c3 = Inr rs \<Longrightarrow> ?rich \<and> rich_envelope p \<Longrightarrow> length rs = ?n" for c3 rs
    by (auto dest: parse_rich_length)
  have mds: "\<not> is_panic (?mds c3)" "?mds c3 = Inr mds \<Longrightarrow> \<not> (?rich \<and> rich_envelope p) \<Longrightarrow> length mds = ?n" for c3 mds
    by (auto simp: rich_envelope_def dest: parse_metadata_length split: if_split_asm)
  have zip: "\<not> is_panic (zip_entries (?rich \<and> rich_envelope p) ?n ts c1 ms mds rs)"
    if "legacy_timestamps codec ?n c0 = Inr ts" "length c1 = ?n" "legacy_messages p ?n c2 = Inr ms" "?rs c3 = Inr rs" "?mds c3 = Inr mds"
    for c0 c1 c2 c3 ts ms mds rs
    using that(2) legacy_timestamps_props(2) [OF that(1)] legacy_messages_props(2) [OF that(3)] rs(2) [OF that(4)] mds(2) [OF that(5)]
    by (intro zip_entries_no_panic)
  show ?thesis
    unfolding decode_block_legacy_def Let_def split_def is_panic_and_then
    using legacy_timestamps_props(1) legacy_messages_props(1) rs(1) mds(1) zip
    by (auto simp del: is_panic_and_then if_split)
qed

lemma decode_block_projected_no_panic:
  "codec_lib_ok lib \<Longrightarrow> \<not> is_panic (decode_block_projected lib js b p)"
  by (auto simp: decode_block_projected_def decode_columnar_no_panic decode_block_legacy_no_panic
      dest: read_block_columns_count)

lemma rich_walk_no_panic:
  "index + n \<le> length ts \<Longrightarrow> index + n \<le> length ls \<Longrightarrow> \<not> is_panic (rich_walk js ts ls keep index n r)"
  by (induction n arbitrary: keep index r) auto

lemma decode_block_filtered_no_panic:
  assumes "codec_lib_ok lib"
  shows "\<not> is_panic (decode_block_filtered lib js lower b needle)"
proof -
  have "\<not> is_panic (full_fallback lib js lower b needle)"
    by (simp add: full_fallback_def decode_block_def decode_block_projected_no_panic [OF assms])
  moreover have "\<not> is_panic (rich_walk js ts ls keep 0 n r)"
    if "decode_i64 lib c n = Inr ts" "decode_u8 lib d n = Inr ls" for c d n ts ls keep r
    using that by (intro rich_walk_no_panic) (auto dest: decode_i64_length decode_u8_length)
  moreover have "bc_n bc * 8 \<le> ISIZE_MAX" "8 * bc_n bc \<le> ISIZE_MAX" if "read_block_columns r = Inr bc" for r bc
    using block_count_allocates [OF read_block_columns_count [OF that]] by simp_all
  ultimately show ?thesis
    using decode_template_str_filtered_no_panic [OF assms]
    by (auto simp: decode_block_filtered_def Let_def decode_i64_no_panic decode_u8_no_panic)
qed

lemma scan_strs_no_panic [simp]: "\<not> is_panic (scan_strs contains cnt found r)"
  by (induction contains cnt found r rule: scan_strs.induct) (subst scan_strs.simps, auto simp: from_utf8_no_panic)

lemma codes_found_no_panic [simp]: "\<not> is_panic (codes_found n hits e f ps)"
  by (induction n hits e f ps rule: codes_found.induct) auto

lemma columnar_message_feasible_no_panic [simp]: "\<not> is_panic (columnar_message_feasible lib msg n contains)"
  by (auto simp: columnar_message_feasible_def)

lemma collect_segments_no_panic: "\<forall>t \<in> set D. valid_utf8 t \<Longrightarrow> \<not> is_panic (collect_r template_segments D)"
  using collect_segments [of D] by (metis is_panic_Inr)

lemma column_may_contain_no_panic:
  assumes "codec_lib_ok lib"
  shows "\<not> is_panic (column_may_contain lib b needle)"
proof -
  have "\<not> is_panic (collect_r template_segments D)" if "decode_str lib c n = Inr D" for c n D
    using decode_str_values [OF assms that] by (intro collect_segments_no_panic) blast
  moreover have "num_n * 8 \<le> ISIZE_MAX" if "read_template_parts b = Inr ((mode, dict_n, num_n, str_n, stored), r)"
    for mode dict_n num_n str_n stored r using read_template_parts_counts [OF that] by (simp add: machine_limits)
  ultimately show ?thesis
    by (auto simp: column_may_contain_def Let_def decode_str_no_panic decode_u8_no_panic decode_i64_no_panic)
qed

lemma block_message_feasible_no_panic:
  "codec_lib_ok lib \<Longrightarrow> \<not> is_panic (block_message_feasible lib b needle)"
  by (auto simp: block_message_feasible_def column_may_contain_no_panic)

subsection \<open>Projections\<close>

definition project_rich :: "log_projection \<Rightarrow> rich_metadata \<Rightarrow> rich_metadata" where
  "project_rich p r = \<lparr>rm_severity = rm_severity r, rm_metadata = (if lp_metadata_pairs p then rm_metadata r else []),
     rm_metadata_json = (if lp_metadata p \<or> lp_metadata_pairs p then rm_metadata_json r else [])\<rparr>"

text \<open>What a projected decode shows of an entry of the full decode.\<close>

definition project_entry :: "log_projection \<Rightarrow> log_entry \<Rightarrow> log_entry" where
  "project_entry p e =
     \<lparr>le_ts = le_ts e, le_level = le_level e,
      le_severity = (if rich_envelope p then le_severity e else None),
      le_message = (if lp_message p then le_message e else []),
      le_metadata = (if lp_metadata_pairs p \<or> (le_severity e = None \<and> lp_metadata p) then le_metadata e else []),
      le_metadata_json = (if rich_envelope p then map_option (\<lambda>j. if lp_metadata p \<or> lp_metadata_pairs p then j else []) (le_metadata_json e)
        else None)\<rparr>"

lemma PROJECTION_ALL_simps [simp]:
  "lp_message PROJECTION_ALL" "lp_metadata PROJECTION_ALL" "lp_metadata_pairs PROJECTION_ALL" "lp_severity PROJECTION_ALL"
  "rich_envelope PROJECTION_ALL"
  by (simp_all add: PROJECTION_ALL_def rich_envelope_def)

lemma parse_rich_rows_project:
  "parse_rich_rows js PROJECTION_ALL i n r = Inr (rs, r') \<Longrightarrow> parse_rich_rows js p i n r = Inr (map (project_rich p) rs, r')"
proof (induction n arbitrary: i r rs)
  case (Suc n)
  then show ?case by (fastforce simp: project_rich_def)
qed simp

lemma parse_rich_project:
  "parse_rich_metadata_projected js b n PROJECTION_ALL = Inr rs \<Longrightarrow>
   parse_rich_metadata_projected js b n p = Inr (map (project_rich p) rs)"
proof -
  assume "parse_rich_metadata_projected js b n PROJECTION_ALL = Inr rs"
  then obtain r where r: "parse_rich_rows js PROJECTION_ALL 0 n (reader_new b) = Inr (rs, r)" "reader_remaining r = 0"
    by (auto simp: parse_rich_metadata_projected_def split: if_split_asm)
  then show ?thesis using parse_rich_rows_project [OF r(1), of p] by (simp add: parse_rich_metadata_projected_def)
qed

lemma map_rich_project:
  assumes "rich_envelope p" "length ts = n" "length ls = n" "length ms = n" "length rs = n"
  shows "map rich_entry (zip ts (zip ls (zip (if lp_message p then ms else replicate n []) (map (project_rich p) rs)))) =
    map (project_entry p) (map rich_entry (zip ts (zip ls (zip ms rs))))"
  using assms by (auto simp: rich_entry_def project_entry_def project_rich_def intro!: nth_equalityI)

lemma map_plain_project:
  assumes "length ts = n" "length ls = n" "length ms = n" "length mds = n"
  shows "map plain_entry (zip ts (zip ls (zip (if lp_message p then ms else replicate n [])
      (if \<not> lp_metadata p \<and> \<not> lp_metadata_pairs p then replicate n [] else mds)))) =
    map (project_entry p) (map plain_entry (zip ts (zip ls (zip ms mds))))"
  using assms by (auto simp: plain_entry_def project_entry_def intro!: nth_equalityI)

lemma map_rich_plain_project:
  assumes "\<not> rich_envelope p" "length ts = n" "length ls = n" "length ms = n" "length rs = n"
  shows "map plain_entry (zip ts (zip ls (zip (if lp_message p then ms else replicate n []) (replicate n [])))) =
    map (project_entry p) (map rich_entry (zip ts (zip ls (zip ms rs))))"
  using assms by (auto simp: plain_entry_def rich_entry_def project_entry_def rich_envelope_def intro!: nth_equalityI)

text \<open>The projected columns zip to the projected entries.\<close>

lemma zip_project:
  fixes p
  assumes "length ts = n" "length ls = n" "length ms = n"
  defines "ms' \<equiv> if lp_message p then ms else replicate n []"
  shows "rich_envelope p \<Longrightarrow> length rs = n \<Longrightarrow> zip_entries True n ts ls ms' mds (map (project_rich p) rs) =
      Inr (map (project_entry p) (map rich_entry (zip ts (zip ls (zip ms rs)))))"
    and "\<not> rich_envelope p \<Longrightarrow> length rs = n \<Longrightarrow> zip_entries False n ts ls ms' (replicate n []) rs' =
      Inr (map (project_entry p) (map rich_entry (zip ts (zip ls (zip ms rs)))))"
    and "length mds = n \<Longrightarrow> zip_entries False n ts ls ms' (if \<not> lp_metadata p \<and> \<not> lp_metadata_pairs p then replicate n [] else mds) rs' =
      Inr (map (project_entry p) (map plain_entry (zip ts (zip ls (zip ms mds)))))"
proof -
  have len: "length ms' = n" using assms(3) by (simp add: ms'_def)
  show "zip_entries True n ts ls ms' mds (map (project_rich p) rs) =
      Inr (map (project_entry p) (map rich_entry (zip ts (zip ls (zip ms rs)))))" if "rich_envelope p" "length rs = n"
    unfolding map_rich_project [OF that(1) assms(1-3) that(2), symmetric] ms'_def [symmetric]
    by (rule zip_entries_rich) (use assms(1,2) len that in simp_all)
  show "zip_entries False n ts ls ms' (replicate n []) rs' =
      Inr (map (project_entry p) (map rich_entry (zip ts (zip ls (zip ms rs)))))" if "\<not> rich_envelope p" "length rs = n"
    unfolding map_rich_plain_project [OF that(1) assms(1-3) that(2), symmetric] ms'_def [symmetric]
    by (rule zip_entries_plain) (use assms(1,2) len in simp_all)
  show "zip_entries False n ts ls ms' (if \<not> lp_metadata p \<and> \<not> lp_metadata_pairs p then replicate n [] else mds) rs' =
      Inr (map (project_entry p) (map plain_entry (zip ts (zip ls (zip ms mds)))))" if "length mds = n"
    unfolding map_plain_project [OF assms(1-3) that, of p, symmetric] ms'_def [symmetric]
    by (rule zip_entries_plain) (use assms(1,2) len that in simp_all)
qed

lemma decode_columnar_all:
  assumes "decode_columnar lib js codec bc PROJECTION_ALL = Inr es"
  obtains (rich) ts ls ms raw rs where "codec \<in> {CODEC_RICH_COLUMNAR, CODEC_RICH_TEMPLATE}"
      "decode_i64 lib (bc_ts bc) (bc_n bc) = Inr ts" "decode_u8 lib (bc_levels bc) (bc_n bc) = Inr ls" "check_levels ls = Inr ()"
      "(if codec = CODEC_RICH_TEMPLATE then decode_template_str lib (bc_messages bc) (bc_n bc) else decode_str lib (bc_messages bc) (bc_n bc)) = Inr ms"
      "zstd_decompress lib (bc_metadata bc) ''rich metadata column'' = Inr raw"
      "parse_rich_metadata_projected js raw (bc_n bc) PROJECTION_ALL = Inr rs"
      "check_block_range ''block'' (bc_n bc) (bc_ts_min bc) (bc_ts_max bc) ts = Inr ()"
      "es = map rich_entry (zip ts (zip ls (zip ms rs)))"
    | (plain) ts ls ms mds where "codec \<notin> {CODEC_RICH_COLUMNAR, CODEC_RICH_TEMPLATE}"
      "decode_i64 lib (bc_ts bc) (bc_n bc) = Inr ts" "decode_u8 lib (bc_levels bc) (bc_n bc) = Inr ls" "check_levels ls = Inr ()"
      "decode_str lib (bc_messages bc) (bc_n bc) = Inr ms"
      "(if codec = CODEC_COLUMNAR_V2 then decode_pairs_column lib (bc_metadata bc) (bc_n bc) parse_metadata
        else and_then (zstd_decompress lib (bc_metadata bc) ''metadata column'') (\<lambda>raw. parse_metadata raw (bc_n bc))) = Inr mds"
      "length mds = bc_n bc"
      "check_block_range ''block'' (bc_n bc) (bc_ts_min bc) (bc_ts_max bc) ts = Inr ()"
      "es = map plain_entry (zip ts (zip ls (zip ms mds)))"
proof -
  let ?n = "bc_n bc" and ?rich = "codec \<in> {CODEC_RICH_COLUMNAR, CODEC_RICH_TEMPLATE}"
  obtain ts ls u ms rs mds w where c: "decode_i64 lib (bc_ts bc) ?n = Inr ts" "decode_u8 lib (bc_levels bc) ?n = Inr ls" "check_levels ls = Inr u"
      "(if codec = CODEC_RICH_TEMPLATE then decode_template_str lib (bc_messages bc) ?n else decode_str lib (bc_messages bc) ?n) = Inr ms"
      "check_block_range ''block'' ?n (bc_ts_min bc) (bc_ts_max bc) ts = Inr w"
    and r: "(if ?rich then and_then (zstd_decompress lib (bc_metadata bc) ''rich metadata column'')
        (\<lambda>raw. parse_rich_metadata_projected js raw ?n PROJECTION_ALL) else Inr []) = Inr rs"
    and m: "(if codec = CODEC_COLUMNAR_V2 then decode_pairs_column lib (bc_metadata bc) ?n parse_metadata else if ?rich then Inr []
        else and_then (zstd_decompress lib (bc_metadata bc) ''metadata column'') (\<lambda>raw. parse_metadata raw ?n)) = Inr mds"
    and z: "zip_entries ?rich ?n ts ls ms mds rs = Inr es"
    using assms unfolding decode_columnar_def Let_def and_then_eq_Inr sum.inject
    by (simp only: PROJECTION_ALL_simps simp_thms if_True if_False) (elim exE conjE, blast)
  have u: "check_levels ls = Inr ()" "check_block_range ''block'' ?n (bc_ts_min bc) (bc_ts_max bc) ts = Inr ()" using c(3,5) by simp_all
  have len: "length ts = ?n" "length ls = ?n" "length ms = ?n"
    using c(1,2,4) by (auto dest: decode_i64_length decode_u8_length decode_template_str_length decode_str_length split: if_split_asm)
  show thesis
  proof (cases ?rich)
    case True
    with r obtain raw where raw: "zstd_decompress lib (bc_metadata bc) ''rich metadata column'' = Inr raw"
        "parse_rich_metadata_projected js raw ?n PROJECTION_ALL = Inr rs" by auto
    then show thesis using rich [OF True c(1,2) u(1) c(4) raw u(2)] zip_entries_rich [OF len parse_rich_length [OF raw(2)], of mds] z True by simp
  next
    case False
    then have mds: "(if codec = CODEC_COLUMNAR_V2 then decode_pairs_column lib (bc_metadata bc) ?n parse_metadata
        else and_then (zstd_decompress lib (bc_metadata bc) ''metadata column'') (\<lambda>raw. parse_metadata raw ?n)) = Inr mds"
      using m by (simp only: if_False)
    have l: "length mds = ?n"
      using mds by (auto dest: decode_pairs_column_length parse_metadata_length split: if_split_asm)
    have "decode_str lib (bc_messages bc) ?n = Inr ms" using c(4) False by (simp split: if_split_asm)
    then show thesis using plain [OF False c(1,2) u(1) _ mds l u(2)] z False zip_entries_plain [OF len l, of rs] by simp
  qed
qed

lemma decode_columnar_project:
  assumes "decode_columnar lib js codec bc PROJECTION_ALL = Inr es"
  shows "decode_columnar lib js codec bc p = Inr (map (project_entry p) es)"
  using assms
proof (cases rule: decode_columnar_all)
  case (rich ts ls ms raw rs)
  let ?n = "bc_n bc" and ?ms = "if lp_message p then ms else replicate (bc_n bc) []"
  have len: "length ts = ?n" "length ls = ?n" "length ms = ?n" "length rs = ?n"
    using rich(2,3,5,7) by (auto dest: decode_i64_length decode_u8_length decode_template_str_length decode_str_length parse_rich_length split: if_split_asm)
  have msgs: "(if \<not> lp_message p then Inr (replicate ?n []) else if codec = CODEC_RICH_TEMPLATE
      then decode_template_str lib (bc_messages bc) ?n else decode_str lib (bc_messages bc) ?n) = Inr ?ms" using rich(5) by simp
  have v2: "codec \<noteq> CODEC_COLUMNAR_V2" using rich(1) by (auto simp: codec_ids)
  show ?thesis
  proof (cases "rich_envelope p")
    case True
    have "zip_entries True ?n ts ls ?ms mds (map (project_rich p) rs) = Inr (map (project_entry p) es)" for mds
      unfolding rich(9) by (rule zip_project(1) [OF len(1-3) True len(4)])
    then show ?thesis
      unfolding decode_columnar_def Let_def msgs
      using rich(1-4,6,8) True parse_rich_project [OF rich(7), of p] v2 by simp
  next
    case False
    then have np: "\<not> lp_metadata p \<and> \<not> lp_metadata_pairs p" by (simp add: rich_envelope_def)
    have "zip_entries False ?n ts ls ?ms (replicate ?n []) [] = Inr (map (project_entry p) es)"
      unfolding rich(9) by (rule zip_project(2) [OF len(1-3) False len(4)])
    then show ?thesis unfolding decode_columnar_def Let_def msgs using rich(1-4,8) False np by simp
  qed
next
  case (plain ts ls ms mds)
  let ?n = "bc_n bc" and ?ms = "if lp_message p then ms else replicate (bc_n bc) []"
  let ?mds = "if \<not> lp_metadata p \<and> \<not> lp_metadata_pairs p then replicate (bc_n bc) [] else mds"
  have len: "length ts = ?n" "length ls = ?n" "length ms = ?n"
    using plain(2,3,5) by (auto dest: decode_i64_length decode_u8_length decode_str_length)
  have rich: "(codec \<in> {CODEC_RICH_COLUMNAR, CODEC_RICH_TEMPLATE}) = False" using plain(1) by simp
  have tpl: "codec \<noteq> CODEC_RICH_TEMPLATE" using plain(1) by simp
  have msgs: "(if \<not> lp_message p then Inr (replicate ?n []) else if codec = CODEC_RICH_TEMPLATE
      then decode_template_str lib (bc_messages bc) ?n else decode_str lib (bc_messages bc) ?n) = Inr ?ms" using plain(5) tpl by simp
  have "(if \<not> lp_metadata p \<and> \<not> lp_metadata_pairs p then Inr (replicate ?n [])
      else if codec = CODEC_COLUMNAR_V2 then decode_pairs_column lib (bc_metadata bc) ?n parse_metadata
      else if False then Inr [] else and_then (zstd_decompress lib (bc_metadata bc) ''metadata column'') (\<lambda>raw. parse_metadata raw ?n)) = Inr ?mds"
    unfolding if_False plain(6) by simp
  moreover have "zip_entries False ?n ts ls ?ms ?mds [] = Inr (map (project_entry p) es)"
    unfolding plain(9) by (rule zip_project(3) [OF len plain(7)])
  ultimately show ?thesis unfolding decode_columnar_def Let_def msgs rich using plain(2-4,8) by (simp only: and_then.simps simp_thms if_False)
qed
lemma decode_block_legacy_all:
  assumes "decode_block_legacy lib js codec bc PROJECTION_ALL = Inr es"
  obtains c0 c1 c2 c3 ts ms where "legacy_columns lib codec bc PROJECTION_ALL = Inr (c0, c1, c2, c3)"
      "legacy_timestamps codec (bc_n bc) c0 = Inr ts" "length c1 = bc_n bc" "check_levels c1 = Inr ()"
      "legacy_messages PROJECTION_ALL (bc_n bc) c2 = Inr ms"
      "check_block_range ''block'' (bc_n bc) (bc_ts_min bc) (bc_ts_max bc) ts = Inr ()"
      "codec = CODEC_RICH_RAW \<and> (\<exists>rs. parse_rich_metadata_projected js c3 (bc_n bc) PROJECTION_ALL = Inr rs \<and>
         es = map rich_entry (zip ts (zip c1 (zip ms rs)))) \<or>
       codec \<noteq> CODEC_RICH_RAW \<and> (\<exists>mds. parse_metadata c3 (bc_n bc) = Inr mds \<and>
         es = map plain_entry (zip ts (zip c1 (zip ms mds))))"
proof -
  let ?n = "bc_n bc"
  obtain q ts u v ms rs mds w where q: "legacy_columns lib codec bc PROJECTION_ALL = Inr q"
      "legacy_timestamps codec ?n (fst q) = Inr ts" "ensure (length (fst (snd q)) = ?n) (WrongCount ''block: level column'' (length (fst (snd q))) ?n) = Inr u"
      "check_levels (fst (snd q)) = Inr v" "legacy_messages PROJECTION_ALL ?n (fst (snd (snd q))) = Inr ms"
    and r: "(if codec = CODEC_RICH_RAW then parse_rich_metadata_projected js (snd (snd (snd q))) ?n PROJECTION_ALL else Inr []) = Inr rs"
    and m: "(if codec = CODEC_RICH_RAW then Inr [] else parse_metadata (snd (snd (snd q))) ?n) = Inr mds"
    and z: "zip_entries (codec = CODEC_RICH_RAW) ?n ts (fst (snd q)) ms mds rs = Inr es"
    and k: "check_block_range ''block'' ?n (bc_ts_min bc) (bc_ts_max bc) ts = Inr w"
    using assms unfolding decode_block_legacy_def Let_def split_def and_then_eq_Inr sum.inject
    by (simp only: PROJECTION_ALL_simps simp_thms if_True if_False) (elim exE conjE, blast)
  have len: "length ts = ?n" "length (fst (snd q)) = ?n" "length ms = ?n"
    using q(2,3,5) by (auto dest: legacy_timestamps_props(2) legacy_messages_props(2) simp: ensure_def split: if_split_asm)
  have "codec = CODEC_RICH_RAW \<and> (\<exists>rs. parse_rich_metadata_projected js (snd (snd (snd q))) ?n PROJECTION_ALL = Inr rs \<and>
         es = map rich_entry (zip ts (zip (fst (snd q)) (zip ms rs)))) \<or>
       codec \<noteq> CODEC_RICH_RAW \<and> (\<exists>mds. parse_metadata (snd (snd (snd q))) ?n = Inr mds \<and>
         es = map plain_entry (zip ts (zip (fst (snd q)) (zip ms mds))))"
  proof (cases "codec = CODEC_RICH_RAW")
    case True
    then have rs: "parse_rich_metadata_projected js (snd (snd (snd q))) ?n PROJECTION_ALL = Inr rs" using r by simp
    then show ?thesis using zip_entries_rich [OF len parse_rich_length [OF rs], of mds] z True by simp
  next
    case False
    then have mds: "parse_metadata (snd (snd (snd q))) ?n = Inr mds" using m by simp
    then show ?thesis using zip_entries_plain [OF len parse_metadata_length [OF mds], of rs] z False by simp
  qed
  then show thesis using that [of "fst q" "fst (snd q)" "fst (snd (snd q))" "snd (snd (snd q))" ts ms] q(1,2,4,5) len(2) k by simp
qed
lemma legacy_columns_project:
  assumes "legacy_columns lib codec bc PROJECTION_ALL = Inr (c0, c1, c2, c3)"
  shows "legacy_columns lib codec bc p = Inr (c0, c1, if lp_message p then c2 else [],
    if lp_metadata p \<or> lp_metadata_pairs p \<or> (codec = CODEC_RICH_RAW \<and> lp_severity p) then c3 else [])"
  using assms by (auto simp: legacy_columns_def codec_ids split: if_split_asm)

lemma legacy_messages_project:
  assumes "legacy_messages PROJECTION_ALL n c2 = Inr ms"
  shows "legacy_messages p n (if lp_message p then c2 else []) = Inr (if lp_message p then ms else replicate n [])"
  using assms by (auto simp: legacy_messages_def reader_remaining_def reader_new_def)

lemma decode_block_legacy_project:
  assumes "decode_block_legacy lib js codec bc PROJECTION_ALL = Inr es"
  shows "decode_block_legacy lib js codec bc p = Inr (map (project_entry p) es)"
proof -
  let ?n = "bc_n bc"
  obtain c0 c1 c2 c3 ts ms where d: "legacy_columns lib codec bc PROJECTION_ALL = Inr (c0, c1, c2, c3)"
      "legacy_timestamps codec ?n c0 = Inr ts" "length c1 = ?n" "check_levels c1 = Inr ()"
      "legacy_messages PROJECTION_ALL ?n c2 = Inr ms"
      "check_block_range ''block'' ?n (bc_ts_min bc) (bc_ts_max bc) ts = Inr ()"
      "codec = CODEC_RICH_RAW \<and> (\<exists>rs. parse_rich_metadata_projected js c3 ?n PROJECTION_ALL = Inr rs \<and>
         es = map rich_entry (zip ts (zip c1 (zip ms rs)))) \<or>
       codec \<noteq> CODEC_RICH_RAW \<and> (\<exists>mds. parse_metadata c3 ?n = Inr mds \<and>
         es = map plain_entry (zip ts (zip c1 (zip ms mds))))"
    using assms by (rule decode_block_legacy_all)
  note base = legacy_columns_project [OF d(1), of p] d(2,3,4,6) legacy_messages_project [OF d(5), of p]
  have len: "length ts = ?n" "length c1 = ?n" "length ms = ?n"
    using legacy_timestamps_props(2) [OF d(2)] d(3) legacy_messages_props(2) [OF d(5)] by auto
  from d(7) consider (rich) rs where "codec = CODEC_RICH_RAW" "parse_rich_metadata_projected js c3 ?n PROJECTION_ALL = Inr rs"
        "es = map rich_entry (zip ts (zip c1 (zip ms rs)))"
    | (plain) mds where "codec \<noteq> CODEC_RICH_RAW" "parse_metadata c3 ?n = Inr mds" "es = map plain_entry (zip ts (zip c1 (zip ms mds)))"
    by blast
  then show ?thesis
  proof cases
    case rich
    note l = parse_rich_length [OF rich(2)]
    show ?thesis
    proof (cases "rich_envelope p")
      case True
      then have "lp_metadata p \<or> lp_metadata_pairs p \<or> lp_severity p" by (simp add: rich_envelope_def)
      then show ?thesis
        unfolding decode_block_legacy_def Let_def
        using base rich(1,3) True parse_rich_project [OF rich(2), of p] zip_project(1) [OF len True l] by (simp add: ensure_def)
    next
      case False
      then show ?thesis
        unfolding decode_block_legacy_def Let_def
        using base rich(1,3) zip_project(2) [OF len False l] by (simp add: ensure_def rich_envelope_def)
    qed
  next
    case plain
    show ?thesis
      unfolding decode_block_legacy_def Let_def
      by (insert base plain zip_project(3) [OF len parse_metadata_length [OF plain(2)], of p],
          cases "lp_message p"; cases "lp_metadata p"; cases "lp_metadata_pairs p"; simp add: ensure_def)
  qed
qed
text \<open>
  C3. No decoder of blocks panics on any bytes: the full and the projected decode, the row-skipping decode
  and the pre-decode check answer with a value or an error, also when lengths, counts, codes or JSON
  texts are damaged.
\<close>

theorem block_decoders_never_panic:
  assumes "codec_lib_ok lib"
  shows "\<not> is_panic (decode_block_projected lib js b p) \<and> \<not> is_panic (decode_block_filtered lib js lower b needle) \<and>
    \<not> is_panic (block_message_feasible lib b needle)"
  using assms decode_block_projected_no_panic decode_block_filtered_no_panic block_message_feasible_no_panic by blast

theorem block_decoders_never_panic_witness:
  "\<not> is_panic (decode_block_projected stored_lib \<lparr>serde_from_str = \<lambda>_. None, serde_to_string = \<lambda>_. None\<rparr> [1, 8, 255] PROJECTION_ALL)"
  using block_decoders_never_panic [OF stored_lib_ok] by blast

lemma decode_blockE:
  assumes "decode_block lib js b = Inr es"
  obtains codec r bc where "read_block_codec b = Inr (codec, r)" "known_codec codec" "read_block_columns r = Inr bc"
    "typed_codec codec \<Longrightarrow> decode_columnar lib js codec bc PROJECTION_ALL = Inr es"
    "\<not> typed_codec codec \<Longrightarrow> decode_block_legacy lib js codec bc PROJECTION_ALL = Inr es"
proof -
  obtain codec r where r: "read_block_codec b = Inr (codec, r)" "known_codec codec"
      "and_then (read_block_columns r) (\<lambda>bc. if typed_codec codec then decode_columnar lib js codec bc PROJECTION_ALL
        else decode_block_legacy lib js codec bc PROJECTION_ALL) = Inr es"
    using assms by (auto simp: decode_block_def decode_block_projected_def split: if_split_asm)
  then obtain bc where "read_block_columns r = Inr bc" "(if typed_codec codec then decode_columnar lib js codec bc PROJECTION_ALL
        else decode_block_legacy lib js codec bc PROJECTION_ALL) = Inr es"
    unfolding and_then_eq_Inr by blast
  with that [OF r(1,2), of bc] show thesis by (cases "typed_codec codec") simp_all
qed

lemma decode_block_project:
  assumes "decode_block lib js b = Inr es"
  shows "decode_block_projected lib js b p = Inr (map (project_entry p) es)"
  using assms
proof (rule decode_blockE)
  fix codec r bc
  assume r: "read_block_codec b = Inr (codec, r)" "known_codec codec" "read_block_columns r = Inr bc"
    and d: "typed_codec codec \<Longrightarrow> decode_columnar lib js codec bc PROJECTION_ALL = Inr es"
      "\<not> typed_codec codec \<Longrightarrow> decode_block_legacy lib js codec bc PROJECTION_ALL = Inr es"
  have "typed_codec codec \<Longrightarrow> decode_columnar lib js codec bc p = Inr (map (project_entry p) es)"
    "\<not> typed_codec codec \<Longrightarrow> decode_block_legacy lib js codec bc p = Inr (map (project_entry p) es)"
    using d decode_columnar_project decode_block_legacy_project by blast+
  with r show ?thesis unfolding decode_block_projected_def by simp
qed

subsection \<open>Decoded entries are well formed\<close>

lemma push_padded_utf8: "valid_utf8 (push_padded v w)"
proof -
  have "b < 0x80" if "is_ascii_digit b" for b
    using that by (auto simp: is_ascii_digit_def word_le_nat_alt word_less_nat_alt)
  then have "is_ascii (decimal_digits n)" for n
    using decimal_digits_all [of n] by (auto simp: is_ascii_def list_all_iff)
  then have "is_ascii (push_padded v w)" by (auto simp: push_padded_def Let_def is_ascii_def list_all_iff)
  then show ?thesis by (rule is_ascii_valid)
qed

lemma detokenize_utf8:
  "valid_utf8 t \<Longrightarrow> list_all valid_utf8 S \<Longrightarrow> detokenize t W V S = Inr out \<Longrightarrow> valid_utf8 out"
proof (induction t arbitrary: W V S out rule: length_induct)
  case (1 t)
  then have IH: "valid_utf8 t' \<Longrightarrow> length t' < length t \<Longrightarrow> list_all valid_utf8 S \<Longrightarrow> detokenize t' W V S = Inr out \<Longrightarrow> valid_utf8 out"
    for t' W V S out by blast
  show ?case
  proof (cases t)
    case t: (Cons b r)
    show ?thesis
    proof (cases "b = SENTINEL")
      case True
      then have r: "valid_utf8 r" using "1.prems"(1) t by (simp add: SENTINEL_def)
      obtain tag r' where c: "r = tag # r'" using True "1.prems"(3) t by (cases r) (auto simp: detokenize.simps(2))
      have tags: "tag = SENTINEL \<or> tag = KIND_NUM \<or> tag = KIND_STR"
        using True "1.prems"(3) t c by (simp add: detokenize.simps(2) split: if_split_asm)
      then have "valid_utf8 r'" using r c by (auto simp: template_bytes)
      then have IH': "list_all valid_utf8 S \<Longrightarrow> detokenize r' W V S = Inr out \<Longrightarrow> valid_utf8 out" for W V S out
        using IH [of r' S W V out] t c by simp
      show ?thesis
        using True "1.prems"(2,3) t c tags
        by (auto simp: detokenize.simps(2) template_bytes push_padded_utf8 dest: IH' split: if_split_asm list.split_asm)
    next
      case False
      obtain k where k: "utf8_width (b # r) = Some k" "valid_utf8 (drop k (b # r))"
        using "1.prems"(1) t by (auto elim: valid_utf8_widthE)
      have len: "utf8_char_len b = k" using k(1) by (rule utf8_char_len_width)
      have pos: "0 < k" using k(1) by (rule utf8_width_pos)
      have "str_split k (b # r) = Inr (take k (b # r), drop k (b # r))"
        using "1.prems"(1) t k(2) by (simp add: str_split_def valid_utf8_boundary)
      then obtain o' where o': "detokenize (drop k (b # r)) W V S = Inr o'" "out = take k (b # r) @ o'"
        using False "1.prems"(3) t len by (auto simp: detokenize.simps(2))
      have "valid_utf8 o'" using IH [OF k(2) _ "1.prems"(2) o'(1)] t pos by simp
      moreover have "valid_utf8 (take k (b # r))"
        using valid_utf8_width [OF utf8_width_take [OF k(1)]] by simp
      ultimately show ?thesis using o'(2) by simp
    qed
  qed (use "1.prems"(3) in \<open>simp split: if_split_asm\<close>)
qed

lemma read_slots_strs:
  "read_slots W V S ks p cs = Inr (x, cs') \<Longrightarrow> list_all valid_utf8 S \<Longrightarrow> list_all valid_utf8 (snd (snd x))"
proof (induction ks arbitrary: p cs x)
  case (Cons kind kinds)
  let ?cs = "cs[p := Suc (cs ! p)]"
  have p: "p < length cs" using Cons.prems(1) by (simp split: if_split_asm)
  have IH: "list_all valid_utf8 (snd (snd y))" if "read_slots W V S kinds (Suc p) ?cs = Inr (y, cs')" for y
    using Cons.IH [OF that Cons.prems(2)] .
  show ?case
  proof (cases kind)
    case VNum
    then obtain y where "read_slots W V S kinds (Suc p) ?cs = Inr (y, cs')" "snd (snd x) = snd (snd y)"
      using Cons.prems(1) p by (auto simp: Let_def)
    then show ?thesis using IH by simp
  next
    case VStr
    then obtain y where "read_slots W V S kinds (Suc p) ?cs = Inr (y, cs')" "snd (snd x) = S ! (cs ! p) # snd (snd y)"
        "cs ! p < length S"
      using Cons.prems(1) p by (auto simp: Let_def index_r_def split: if_split_asm)
    then show ?thesis using IH Cons.prems(2) by (simp add: list_all_iff)
  qed
qed simp

lemma read_messages_utf8:
  assumes "list_all valid_utf8 D" "list_all valid_utf8 S"
  shows "read_messages D K base W V S ids cs = Inr ms \<Longrightarrow> list_all valid_utf8 ms"
proof (induction ids arbitrary: cs ms)
  case (Cons i ids)
  then obtain ws vs ss cs' m ms' where "as_usize i < length D" "read_slots W V S (K ! as_usize i) (base ! as_usize i) cs = Inr ((ws, vs, ss), cs')"
      "detokenize (D ! as_usize i) ws vs ss = Inr m" "read_messages D K base W V S ids cs' = Inr ms'" "ms = m # ms'"
    by (auto simp: index_r_def split: if_split_asm)
  then show ?case
    using Cons.IH [of cs' ms'] detokenize_utf8 [of "D ! as_usize i" ss ws vs m] read_slots_strs [of W V S _ _ cs "(ws, vs, ss)" cs'] assms
    by (simp add: list_all_iff)
qed simp
lemma decode_template_str_utf8:
  assumes "codec_lib_ok lib" "decode_template_str lib b n = Inr ms"
  shows "list_all valid_utf8 ms"
proof -
  obtain tb where tb: "read_template_block lib b n = Inr tb"
      "read_messages (tb_dict tb) (map slot_kinds (tb_dict tb)) (tb_base tb) (tb_widths tb) (tb_values tb)
        (tb_strs tb) (tb_ids tb) (map g_start (tb_groups tb)) = Inr ms"
    using assms(2) by (auto simp: decode_template_str_def)
  from tb(1) obtain c d k l where "decode_str lib c k = Inr (tb_dict tb)" "decode_str lib d l = Inr (tb_strs tb)"
    unfolding read_template_block_def by (auto split: if_split_asm)
  then have "list_all valid_utf8 (tb_dict tb)" "list_all valid_utf8 (tb_strs tb)"
    using decode_str_values(1) [OF assms(1)] by (simp_all add: list_all_iff)
  from read_messages_utf8 [OF this tb(2)] show ?thesis .
qed

lemma legacy_messages_utf8: "legacy_messages PROJECTION_ALL n c = Inr ms \<Longrightarrow> list_all valid_utf8 ms"
  by (auto simp: legacy_messages_def list_all_iff dest!: read_strs_values split: if_split_asm)

lemma parse_rich_rows_severity:
  "parse_rich_rows js p i n r = Inr (out, r') \<Longrightarrow> \<forall>x \<in> set out. \<exists>c. canonical_severity (rm_severity x) = Inr c"
  by (induction js p i n r arbitrary: out rule: parse_rich_rows.induct) (fastforce simp: read_severity_def)+

lemma parse_rich_severity:
  "parse_rich_metadata_projected js b n p = Inr out \<Longrightarrow> x \<in> set out \<Longrightarrow> \<exists>c. canonical_severity (rm_severity x) = Inr c"
  by (auto simp: parse_rich_metadata_projected_def dest!: parse_rich_rows_severity split: if_split_asm)

text \<open>What every entry of a block satisfies.\<close>

definition entry_ok :: "log_entry \<Rightarrow> bool" where
  "entry_ok e \<longleftrightarrow> le_level e \<le> 3 \<and> valid_utf8 (le_message e) \<and>
     (le_severity e = None) = (le_metadata_json e = None) \<and>
     (case le_severity e of None \<Rightarrow> True | Some s \<Rightarrow> \<not> isl (canonical_severity s))"


lemma check_levels_le: "check_levels ls = Inr () \<Longrightarrow> \<forall>l \<in> set ls. l \<le> 3"
  by (auto simp: check_levels_def ensure_def list_ex_iff not_less split: if_split_asm)

lemma zipped_entries_ok:
  assumes "length ts = n" "length ls = n" "length ms = n" "check_levels ls = Inr ()" "list_all valid_utf8 ms"
  shows "length mds = n \<Longrightarrow> es = map plain_entry (zip ts (zip ls (zip ms mds))) \<Longrightarrow>
      list_all entry_ok es \<and> list_all (\<lambda>e. \<not> is_rich e) es \<and> map le_ts es = ts"
    and "length rs = n \<Longrightarrow> \<forall>x \<in> set rs. \<exists>c. canonical_severity (rm_severity x) = Inr c \<Longrightarrow>
      es = map rich_entry (zip ts (zip ls (zip ms rs))) \<Longrightarrow> list_all entry_ok es \<and> list_all is_rich es \<and> map le_ts es = ts"
proof -
  note lv = check_levels_le [OF assms(4)]
  show "list_all entry_ok es \<and> list_all (\<lambda>e. \<not> is_rich e) es \<and> map le_ts es = ts"
    if "length mds = n" "es = map plain_entry (zip ts (zip ls (zip ms mds)))"
    using assms that lv by (auto simp: list_all_length entry_ok_def plain_entry_def is_rich_def intro!: nth_equalityI)
  show "list_all entry_ok es \<and> list_all is_rich es \<and> map le_ts es = ts"
    if "length rs = n" "\<forall>x \<in> set rs. \<exists>c. canonical_severity (rm_severity x) = Inr c" "es = map rich_entry (zip ts (zip ls (zip ms rs)))"
  proof -
    have "\<not> isl (canonical_severity (rm_severity (rs ! i)))" if "i < n" for i
      using that \<open>length rs = n\<close> \<open>\<forall>x \<in> set rs. \<exists>c. _\<close> by (metis nth_mem sum.disc(2))
    then show ?thesis
      using assms that lv by (auto simp: list_all_length entry_ok_def rich_entry_def is_rich_def intro!: nth_equalityI)
  qed
qed

lemma decode_columnar_ok:
  assumes "codec_lib_ok lib" "decode_columnar lib js codec bc PROJECTION_ALL = Inr es"
  shows "list_all entry_ok es \<and> list_all (\<lambda>e. is_rich e \<longleftrightarrow> codec \<in> {CODEC_RICH_COLUMNAR, CODEC_RICH_TEMPLATE}) es \<and> length es = bc_n bc \<and>
    check_block_range ''block'' (bc_n bc) (bc_ts_min bc) (bc_ts_max bc) (map le_ts es) = Inr ()"
  using assms(2)
proof (cases rule: decode_columnar_all)
  case (rich ts ls ms raw rs)
  have "list_all valid_utf8 ms"
    using rich(5) decode_template_str_utf8 [OF assms(1)] decode_str_values(1) [OF assms(1)] by (auto simp: list_all_iff split: if_split_asm)
  moreover have len: "length ts = bc_n bc" "length ls = bc_n bc" "length ms = bc_n bc"
    using rich(2,3,5) by (auto dest: decode_i64_length decode_u8_length decode_template_str_length decode_str_length split: if_split_asm)
  moreover have "\<forall>x \<in> set rs. \<exists>c. canonical_severity (rm_severity x) = Inr c" using parse_rich_severity [OF rich(7)] by blast
  ultimately have "list_all entry_ok es \<and> list_all is_rich es \<and> map le_ts es = ts"
    using zipped_entries_ok(2) [OF _ _ _ rich(4) _ parse_rich_length [OF rich(7)] _ rich(9)] by simp
  then show ?thesis using rich(1,8) len(1) by (auto simp: list_all_iff)
next
  case (plain ts ls ms mds)
  have "list_all valid_utf8 ms" using plain(5) decode_str_values(1) [OF assms(1)] by (auto simp: list_all_iff)
  moreover have len: "length ts = bc_n bc" "length ls = bc_n bc" "length ms = bc_n bc"
    using plain(2,3,5) by (auto dest: decode_i64_length decode_u8_length decode_str_length)
  ultimately have "list_all entry_ok es \<and> list_all (\<lambda>e. \<not> is_rich e) es \<and> map le_ts es = ts"
    using zipped_entries_ok(1) [OF _ _ _ plain(4) _ plain(7,9)] by simp
  then show ?thesis using plain(1,8) len(1) by (auto simp: list_all_iff)
qed
lemma decode_block_legacy_ok:
  assumes "decode_block_legacy lib js codec bc PROJECTION_ALL = Inr es"
  shows "list_all entry_ok es \<and> list_all (\<lambda>e. is_rich e \<longleftrightarrow> codec = CODEC_RICH_RAW) es \<and> length es = bc_n bc \<and>
    check_block_range ''block'' (bc_n bc) (bc_ts_min bc) (bc_ts_max bc) (map le_ts es) = Inr ()"
  using assms
proof (rule decode_block_legacy_all)
  fix c0 c1 c2 c3 ts ms
  assume d: "legacy_timestamps codec (bc_n bc) c0 = Inr ts" "length c1 = bc_n bc" "check_levels c1 = Inr ()"
      "legacy_messages PROJECTION_ALL (bc_n bc) c2 = Inr ms"
      "check_block_range ''block'' (bc_n bc) (bc_ts_min bc) (bc_ts_max bc) ts = Inr ()"
    and es: "codec = CODEC_RICH_RAW \<and> (\<exists>rs. parse_rich_metadata_projected js c3 (bc_n bc) PROJECTION_ALL = Inr rs \<and>
         es = map rich_entry (zip ts (zip c1 (zip ms rs)))) \<or>
       codec \<noteq> CODEC_RICH_RAW \<and> (\<exists>mds. parse_metadata c3 (bc_n bc) = Inr mds \<and>
         es = map plain_entry (zip ts (zip c1 (zip ms mds))))"
  note pre = legacy_timestamps_props(2) [OF d(1)] d(2) legacy_messages_props(2) [OF d(4)] d(3) legacy_messages_utf8 [OF d(4)]
  from es have "list_all entry_ok es \<and> list_all (\<lambda>e. is_rich e \<longleftrightarrow> codec = CODEC_RICH_RAW) es \<and> map le_ts es = ts"
  proof (elim disjE conjE exE)
    fix rs assume r: "codec = CODEC_RICH_RAW" "parse_rich_metadata_projected js c3 (bc_n bc) PROJECTION_ALL = Inr rs"
      "es = map rich_entry (zip ts (zip c1 (zip ms rs)))"
    then show ?thesis using zipped_entries_ok(2) [OF pre parse_rich_length [OF r(2)] _ r(3)] parse_rich_severity [OF r(2)] by simp
  next
    fix mds assume m: "codec \<noteq> CODEC_RICH_RAW" "parse_metadata c3 (bc_n bc) = Inr mds"
      "es = map plain_entry (zip ts (zip c1 (zip ms mds)))"
    then show ?thesis using zipped_entries_ok(1) [OF pre parse_metadata_length [OF m(2)] m(3)] by (simp add: list_all_iff)
  qed
  then show ?thesis using d(5) pre(1) by auto
qed

lemma decode_block_ok:
  assumes "codec_lib_ok lib" "decode_block lib js b = Inr es"
  shows "\<exists>codec r bc. read_block_codec b = Inr (codec, r) \<and> read_block_columns r = Inr bc \<and>
    length es = bc_n bc \<and> bc_n bc \<le> MAX_BLOCK_ENTRIES \<and> list_all entry_ok es \<and>
    list_all (\<lambda>e. is_rich e \<longleftrightarrow> rich_codec codec) es \<and>
    (es = [] \<or> bc_ts_min bc = Min (le_ts ` set es) \<and> bc_ts_max bc = Max (le_ts ` set es))"
  using assms(2)
proof (rule decode_blockE)
  fix codec r bc
  assume r: "read_block_codec b = Inr (codec, r)" "known_codec codec" "read_block_columns r = Inr bc"
    and d: "typed_codec codec \<Longrightarrow> decode_columnar lib js codec bc PROJECTION_ALL = Inr es"
      "\<not> typed_codec codec \<Longrightarrow> decode_block_legacy lib js codec bc PROJECTION_ALL = Inr es"
  have "list_all entry_ok es \<and> list_all (\<lambda>e. is_rich e \<longleftrightarrow> rich_codec codec) es \<and> length es = bc_n bc \<and>
      check_block_range ''block'' (bc_n bc) (bc_ts_min bc) (bc_ts_max bc) (map le_ts es) = Inr ()"
  proof (cases "typed_codec codec")
    case True
    then have "rich_codec codec \<longleftrightarrow> codec \<in> {CODEC_RICH_COLUMNAR, CODEC_RICH_TEMPLATE}"
      by (auto simp: typed_codec_def rich_codec_def codec_ids)
    then show ?thesis using decode_columnar_ok [OF assms(1) d(1) [OF True]] by simp
  next
    case False
    then have "rich_codec codec \<longleftrightarrow> codec = CODEC_RICH_RAW" by (auto simp: typed_codec_def rich_codec_def)
    then show ?thesis using decode_block_legacy_ok [OF d(2) [OF False]] by simp
  qed
  then show ?thesis using r read_block_columns_count [OF r(3)] check_block_range_iff [of "map le_ts es"] by auto
qed

end
