(* ===== verification/BlockTrip.thy ===== *)
theory BlockTrip
  imports BlockFacts
begin

section \<open>Blocks read back what was written\<close>

text \<open>
  The container \<open>encode_block\<close> writes is the one \<open>decode_block\<close> reads; from there the round trips of the
  plain and the rich codecs, what projections and searches return of a written block, and the blocks that
  are written and never read.
\<close>

subsection \<open>The container\<close>

definition block_bytes :: "byte \<Rightarrow> nat \<Rightarrow> i64 \<Rightarrow> i64 \<Rightarrow> bytes \<Rightarrow> bytes \<Rightarrow> bytes \<Rightarrow> bytes \<Rightarrow> bytes" where
  "block_bytes codec n lo hi c0 c1 c2 c3 = FORMAT_VERSION # codec # u32_le (of_nat n) @ i64_le lo @ i64_le hi @
     u32_le (of_nat (length c0)) @ u32_le (of_nat (length c1)) @ u32_le (of_nat (length c2)) @ u32_le (of_nat (length c3)) @
     c0 @ c1 @ c2 @ c3"

definition columns_fit :: "bytes \<Rightarrow> bytes \<Rightarrow> bytes \<Rightarrow> bytes \<Rightarrow> bool" where
  "columns_fit c0 c1 c2 c3 \<longleftrightarrow> length c0 \<le> U32_MAX \<and> length c1 \<le> U32_MAX \<and> length c2 \<le> U32_MAX \<and> length c3 \<le> U32_MAX"

lemma block_bytes_length:
  "length (block_bytes codec n lo hi c0 c1 c2 c3) = HEADER_LEN + length c0 + length c1 + length c2 + length c3"
  by (simp add: block_bytes_def HEADER_LEN_def)

lemma block_bytes_wf:
  assumes "columns_fit c0 c1 c2 c3"
  shows "reader_wf (reader_new (block_bytes codec n lo hi c0 c1 c2 c3))"
  using assms by (simp add: block_bytes_length columns_fit_def HEADER_LEN_def machine_limits)

lemma block_reader_rest: "rest (adv 2 (reader_new (block_bytes codec n lo hi c0 c1 c2 c3))) =
    u32_le (of_nat n) @ i64_le lo @ i64_le hi @
     u32_le (of_nat (length c0)) @ u32_le (of_nat (length c1)) @ u32_le (of_nat (length c2)) @ u32_le (of_nat (length c3)) @
     c0 @ c1 @ c2 @ c3"
  by (simp add: block_bytes_def numeral_2_eq_2)

lemma read_block_codec_container:
  assumes "columns_fit c0 c1 c2 c3"
  shows "read_block_codec (block_bytes codec n lo hi c0 c1 c2 c3) = Inr (codec, adv 2 (reader_new (block_bytes codec n lo hi c0 c1 c2 c3)))"
  using block_bytes_wf [OF assms, of codec n lo hi]
  by (simp add: read_block_codec_def reader_u8_ok) (simp add: block_bytes_def reader_u8_ok numeral_2_eq_2)

lemma unat_u32_fit: "n \<le> U32_MAX \<Longrightarrow> unat (of_nat n :: u32) = n"
  by (simp add: unat_of_nat machine_limits)

lemma read_block_lens_ok:
  assumes "reader_wf r" "n \<le> MAX_BLOCK_ENTRIES" "l0 \<le> U32_MAX" "l1 \<le> U32_MAX" "l2 \<le> U32_MAX" "l3 \<le> U32_MAX"
    and "rest r = u32_le (of_nat n) @ i64_le lo @ i64_le hi @ u32_le (of_nat l0) @ u32_le (of_nat l1) @
      u32_le (of_nat l2) @ u32_le (of_nat l3) @ t"
  shows "read_block_lens r = Inr ((n, lo, hi, l0, l1, l2, l3), adv 36 r)"
proof -
  have "unat (of_nat n :: u32) = n" using assms(2) by (intro unat_u32_fit) (simp add: MAX_BLOCK_ENTRIES_def machine_limits)
  then show ?thesis
    using assms by (simp add: read_block_lens_def reader_u32_ok reader_i64_ok check_entry_count_def ensure_def unat_u32_fit)
qed

lemma read_block_lens_container:
  assumes "columns_fit c0 c1 c2 c3" "n \<le> MAX_BLOCK_ENTRIES"
  shows "read_block_lens (adv 2 (reader_new (block_bytes codec n lo hi c0 c1 c2 c3))) =
    Inr ((n, lo, hi, length c0, length c1, length c2, length c3), adv HEADER_LEN (reader_new (block_bytes codec n lo hi c0 c1 c2 c3)))"
proof -
  let ?r = "adv 2 (reader_new (block_bytes codec n lo hi c0 c1 c2 c3))"
  have "reader_wf ?r"
    using block_bytes_wf [OF assms(1), of codec n lo hi] by (auto simp: block_bytes_length HEADER_LEN_def intro!: reader_wf_adv)
  then have "read_block_lens ?r = Inr ((n, lo, hi, length c0, length c1, length c2, length c3), adv 36 ?r)"
    using assms unfolding columns_fit_def by (intro read_block_lens_ok [OF _ _ _ _ _ _ block_reader_rest]) auto
  then show ?thesis by (simp add: HEADER_LEN_def)
qed

lemma block_columns_reader:
  assumes "columns_fit c0 c1 c2 c3"
  defines "r \<equiv> \<lambda>codec n lo hi. adv HEADER_LEN (reader_new (block_bytes codec n lo hi c0 c1 c2 c3))"
  shows "reader_wf (r codec n lo hi)" "rest (r codec n lo hi) = c0 @ c1 @ c2 @ c3"
  using block_bytes_wf [OF assms(1), of codec n lo hi] unfolding r_def
  by (auto simp: block_bytes_length intro!: reader_wf_adv) (simp add: block_bytes_def HEADER_LEN_def)

lemma read_block_columns_container:
  assumes "columns_fit c0 c1 c2 c3" "n \<le> MAX_BLOCK_ENTRIES"
  shows "read_block_columns (adv 2 (reader_new (block_bytes codec n lo hi c0 c1 c2 c3))) =
    Inr \<lparr>bc_n = n, bc_ts_min = lo, bc_ts_max = hi, bc_ts = c0, bc_levels = c1, bc_messages = c2, bc_metadata = c3\<rparr>"
proof -
  define r where "r = adv HEADER_LEN (reader_new (block_bytes codec n lo hi c0 c1 c2 c3))"
  have "reader_wf r" "rest r = c0 @ c1 @ c2 @ c3"
    unfolding r_def by (rule block_columns_reader [OF assms(1)])+
  moreover have "read_block_lens (adv 2 (reader_new (block_bytes codec n lo hi c0 c1 c2 c3))) =
      Inr ((n, lo, hi, length c0, length c1, length c2, length c3), r)"
    unfolding r_def by (rule read_block_lens_container [OF assms])
  ultimately show ?thesis by (simp add: read_block_columns_def reader_take_ok reader_remaining_rest)
qed
lemma decode_block_container:
  assumes "columns_fit c0 c1 c2 c3" "n \<le> MAX_BLOCK_ENTRIES" "known_codec codec"
  shows "decode_block_projected lib js (block_bytes codec n lo hi c0 c1 c2 c3) p =
    (let bc = \<lparr>bc_n = n, bc_ts_min = lo, bc_ts_max = hi, bc_ts = c0, bc_levels = c1, bc_messages = c2, bc_metadata = c3\<rparr> in
     if typed_codec codec then decode_columnar lib js codec bc p else decode_block_legacy lib js codec bc p)"
  using assms by (simp add: decode_block_projected_def read_block_codec_container read_block_columns_container Let_def)

text \<open>What a successful \<open>encode_block\<close> wrote.\<close>

lemma encode_blockE:
  assumes "encode_block lib js es codec level = Inr (b, meta)"
  obtains codec' raw c0 c1 c2 c3 where
    "es \<noteq> []" "known_codec codec" "length es \<le> U32_MAX" "rich_codec codec \<or> list_all (\<lambda>e. \<not> is_rich e) es"
    "list_all (\<lambda>e. le_level e \<le> 3) es"
    "(if rich_codec codec then serialize_rich_metadata js es else serialize_metadata es) = Inr raw"
    "encode_columns lib es codec level raw = Inr (codec', [c0, c1, c2, c3])" "columns_fit c0 c1 c2 c3"
    "b = block_bytes codec' (length es) (Min (le_ts ` set es)) (Max (le_ts ` set es)) c0 c1 c2 c3"
    "meta = \<lparr>bm_ts_min = Min (le_ts ` set es), bm_ts_max = Max (le_ts ` set es), bm_entry_count = of_nat (length es), bm_codec = codec'\<rparr>"
proof -
  have ne: "es \<noteq> []" using assms by (auto simp: encode_block_def)
  have "fold (\<lambda>e m. min m (le_ts e)) es a = fold min (map le_ts es) a" "fold (\<lambda>e m. max m (le_ts e)) es a = fold max (map le_ts es) a" for a
    by (induction es arbitrary: a) (simp_all add: min.commute max.commute)
  then have range: "fold (\<lambda>e m. min m (le_ts e)) es I64_MAX = Min (le_ts ` set es)" "fold (\<lambda>e m. max m (le_ts e)) es I64_MIN = Max (le_ts ` set es)"
    using ne by (simp_all add: fold_min_Min fold_max_Max)
  obtain raw codec' columns lens where e: "known_codec codec" "length es \<le> U32_MAX" "rich_codec codec \<or> \<not> list_ex is_rich es"
      "\<not> list_ex (\<lambda>e. le_level e > 3) es"
      "(if rich_codec codec then serialize_rich_metadata js es else serialize_metadata es) = Inr raw"
      "encode_columns lib es codec level raw = Inr (codec', columns)" "collect_r column_len columns = Inr lens"
      "b = FORMAT_VERSION # codec' # u32_le (of_nat (length es)) @ i64_le (Min (le_ts ` set es)) @ i64_le (Max (le_ts ` set es)) @ concat lens @ concat columns"
      "meta = \<lparr>bm_ts_min = Min (le_ts ` set es), bm_ts_max = Max (le_ts ` set es), bm_entry_count = of_nat (length es), bm_codec = codec'\<rparr>"
    using assms ne unfolding encode_block_def Let_def range and_then_eq_Inr by (auto split: if_split_asm)
  have "\<exists>c0 c1 c2 c3. columns = [c0, c1, c2, c3]" using e(6) unfolding encode_columns_def Let_def by (auto split: if_split_asm)
  then obtain c0 c1 c2 c3 where c: "columns = [c0, c1, c2, c3]" by blast
  have "columns_fit c0 c1 c2 c3 \<and> lens = map (\<lambda>c. u32_le (of_nat (length c))) [c0, c1, c2, c3]"
    using e(7) c by (auto simp: column_len_def columns_fit_def not_less split: if_split_asm)
  then show thesis
    using that [OF ne e(1,2) _ _ e(5), of codec' c0 c1 c2 c3] e c by (simp add: block_bytes_def list_ex_iff list_all_iff not_less)
qed
subsection \<open>From columns to entries\<close>

lemma range_check: "es \<noteq> [] \<Longrightarrow> check_block_range w (length es) (Min (le_ts ` set es)) (Max (le_ts ` set es)) (map le_ts es) = Inr ()"
  using check_block_range_iff [of "map le_ts es"] by simp

lemma levels_check: "list_all (\<lambda>e. le_level e \<le> 3) es \<Longrightarrow> check_levels (map le_level es) = Inr ()"
  by (auto simp: check_levels_def ensure_def list_ex_iff list_all_iff not_less)

text \<open>What the decoder makes of entries: plain ones come back as they are.\<close>

definition rich_view :: "log_entry \<Rightarrow> rich_metadata \<Rightarrow> log_entry" where
  "rich_view e r = e\<lparr>le_severity := Some (rm_severity r), le_metadata := rm_metadata r, le_metadata_json := Some (rm_metadata_json r)\<rparr>"

lemma zip_plain: "list_all (\<lambda>e. \<not> is_rich e) es \<Longrightarrow>
    zip_entries False (length es) (map le_ts es) (map le_level es) (map le_message es) (map le_metadata es) rs = Inr es"
  by (subst zip_entries_plain) (auto simp: plain_entry_def is_rich_def list_all_length intro!: nth_equalityI log_entry.equality)

lemma zip_rich: "length rs = length es \<Longrightarrow>
    zip_entries True (length es) (map le_ts es) (map le_level es) (map le_message es) mds rs = Inr (map2 rich_view es rs)"
  by (subst zip_entries_rich) (auto simp: rich_entry_def rich_view_def intro!: nth_equalityI log_entry.equality)

abbreviation block_of :: "log_entry list \<Rightarrow> bytes \<Rightarrow> bytes \<Rightarrow> bytes \<Rightarrow> bytes \<Rightarrow> block_columns" where
  "block_of es c0 c1 c2 c3 \<equiv> \<lparr>bc_n = length es, bc_ts_min = Min (le_ts ` set es), bc_ts_max = Max (le_ts ` set es),
     bc_ts = c0, bc_levels = c1, bc_messages = c2, bc_metadata = c3\<rparr>"

lemma decode_columnar_intro:
  assumes "es \<noteq> []" "list_all (\<lambda>e. le_level e \<le> 3) es"
    and "decode_i64 lib c0 (length es) = Inr (map le_ts es)" "decode_u8 lib c1 (length es) = Inr (map le_level es)"
    and "(if codec = CODEC_RICH_TEMPLATE then decode_template_str lib c2 (length es) else decode_str lib c2 (length es)) = Inr (map le_message es)"
  shows "codec \<notin> {CODEC_RICH_COLUMNAR, CODEC_RICH_TEMPLATE} \<Longrightarrow> list_all (\<lambda>e. \<not> is_rich e) es \<Longrightarrow>
      (if codec = CODEC_COLUMNAR_V2 then decode_pairs_column lib c3 (length es) parse_metadata
       else and_then (zstd_decompress lib c3 ''metadata column'') (\<lambda>raw. parse_metadata raw (length es))) = Inr (map le_metadata es) \<Longrightarrow>
      decode_columnar lib js codec (block_of es c0 c1 c2 c3) PROJECTION_ALL = Inr es"
    and "codec \<in> {CODEC_RICH_COLUMNAR, CODEC_RICH_TEMPLATE} \<Longrightarrow> zstd_decompress lib c3 ''rich metadata column'' = Inr raw \<Longrightarrow>
      parse_rich_metadata_projected js raw (length es) PROJECTION_ALL = Inr rs \<Longrightarrow>
      decode_columnar lib js codec (block_of es c0 c1 c2 c3) PROJECTION_ALL = Inr (map2 rich_view es rs)"
proof -
  note chk = range_check [OF assms(1)] levels_check [OF assms(2)]
  show "decode_columnar lib js codec (block_of es c0 c1 c2 c3) PROJECTION_ALL = Inr es"
    if p: "codec \<notin> {CODEC_RICH_COLUMNAR, CODEC_RICH_TEMPLATE}" "list_all (\<lambda>e. \<not> is_rich e) es"
      and m: "(if codec = CODEC_COLUMNAR_V2 then decode_pairs_column lib c3 (length es) parse_metadata
       else and_then (zstd_decompress lib c3 ''metadata column'') (\<lambda>raw. parse_metadata raw (length es))) = Inr (map le_metadata es)"
  proof -
    have r: "(codec \<in> {CODEC_RICH_COLUMNAR, CODEC_RICH_TEMPLATE}) = False" using p(1) by simp
    show ?thesis
      unfolding decode_columnar_def Let_def block_columns.simps r if_False simp_thms
        assms(3,4,5) m chk and_then.simps by (simp add: PROJECTION_ALL_simps zip_plain [OF p(2)])
  qed
  show "decode_columnar lib js codec (block_of es c0 c1 c2 c3) PROJECTION_ALL = Inr (map2 rich_view es rs)"
    if p: "codec \<in> {CODEC_RICH_COLUMNAR, CODEC_RICH_TEMPLATE}" "zstd_decompress lib c3 ''rich metadata column'' = Inr raw"
      "parse_rich_metadata_projected js raw (length es) PROJECTION_ALL = Inr rs"
  proof -
    have r: "(codec \<in> {CODEC_RICH_COLUMNAR, CODEC_RICH_TEMPLATE}) = True" "(codec = CODEC_COLUMNAR_V2) = False"
      using p(1) by (auto simp: codec_ids)
    show ?thesis
      unfolding decode_columnar_def Let_def block_columns.simps r if_False if_True simp_thms
        assms(3,4,5) p(2,3) chk and_then.simps by (simp add: PROJECTION_ALL_simps zip_rich [OF parse_rich_length [OF p(3)]])
  qed
qed
lemma decode_legacy_intro:
  assumes "es \<noteq> []" "list_all (\<lambda>e. le_level e \<le> 3) es"
    and "legacy_columns lib codec (block_of es c0 c1 c2 c3) PROJECTION_ALL = Inr (d0, map le_level es, d2, d3)"
    and "legacy_timestamps codec (length es) d0 = Inr (map le_ts es)" "legacy_messages PROJECTION_ALL (length es) d2 = Inr (map le_message es)"
  shows "codec \<noteq> CODEC_RICH_RAW \<Longrightarrow> list_all (\<lambda>e. \<not> is_rich e) es \<Longrightarrow> parse_metadata d3 (length es) = Inr (map le_metadata es) \<Longrightarrow>
      decode_block_legacy lib js codec (block_of es c0 c1 c2 c3) PROJECTION_ALL = Inr es"
    and "codec = CODEC_RICH_RAW \<Longrightarrow> parse_rich_metadata_projected js d3 (length es) PROJECTION_ALL = Inr rs \<Longrightarrow>
      decode_block_legacy lib js codec (block_of es c0 c1 c2 c3) PROJECTION_ALL = Inr (map2 rich_view es rs)"
  using assms range_check [OF assms(1)] levels_check [OF assms(2)]
  by (simp_all add: decode_block_legacy_def Let_def ensure_def PROJECTION_ALL_simps zip_plain zip_rich parse_rich_length)

subsection \<open>Plain codecs\<close>

lemma legacy_messages_ok:
  assumes "list_all valid_utf8 ms" "len_prefixed_all ms = Inr c" "length c \<le> USIZE_MAX"
  shows "legacy_messages PROJECTION_ALL (length ms) c = Inr ms"
proof -
  have c: "\<forall>s \<in> set ms. length s \<le> U32_MAX" "c = concat (map str_rec ms)" using assms(2) by (auto simp: len_prefixed_all_Inr)
  have "read_strs lw bw uw i (length ms) (reader_new c) = Inr (ms, adv (strs_size ms) (reader_new c))" for lw bw uw i
    using assms(1,3) c by (intro read_strs_ok [where ys = "[]"]) (auto simp: list_all_iff)
  then show ?thesis by (simp add: legacy_messages_def PROJECTION_ALL_simps reader_remaining_rest) (simp add: c(2))
qed

lemma legacy_timestamps_ok:
  "legacy_timestamps codec (length ts) (concat (map i64_le (if codec = CODEC_ZSTD then deltas (I64 0) ts else ts))) = Inr ts"
proof -
  have ch: "map i64_from_le (as_chunks 8 (concat (map i64_le vs))) = vs" for vs
    using i64_chunks_roundtrip [of vs] by (simp add: i64s_to_le_bytes_def)
  show ?thesis by (auto simp: legacy_timestamps_def Let_def length_concat comp_def ch sum_list_triv)
qed

lemma parse_metadata_ok:
  assumes "serialize_metadata es = Inr raw" "length raw \<le> USIZE_MAX" "\<forall>e \<in> set es. pairs_utf8 (le_metadata e)"
  shows "parse_metadata raw (length es) = Inr (map le_metadata es)"
proof -
  obtain bs where "collect_r serialize_pairs (map le_metadata es) = Inr bs" "raw = concat bs"
    using assms(1) by (auto simp: serialize_metadata_def collect_r_comp)
  then show ?thesis using parse_serialized [of "map le_metadata es" bs] assms by simp
qed
text \<open>
  The sizes the decoder's limits allow; text is UTF-8 as every \<open>String\<close> is. The messages with their
  length prefixes stay within the 64 MiB a decoder decompresses. The template codec splits them into
  variable streams of up to eight bytes per byte of text, so an eighth of the limit is enough for it.
\<close>

definition block_fits :: "json_lib \<Rightarrow> byte \<Rightarrow> log_entry list \<Rightarrow> bool" where
  "block_fits js codec es \<longleftrightarrow> length es \<le> MAX_BLOCK_ENTRIES \<and>
     list_all (\<lambda>e. valid_utf8 (le_message e) \<and> pairs_utf8 (le_metadata e)) es \<and>
     (if codec = CODEC_RICH_TEMPLATE then 8 else 1) * strs_size (map le_message es) \<le> DECOMPRESS_MAX_BYTES \<and>
     (case (if rich_codec codec then serialize_rich_metadata js es else serialize_metadata es) of
        Inl _ \<Rightarrow> True | Inr raw \<Rightarrow> length raw \<le> DECOMPRESS_MAX_BYTES)"

lemma block_fits_strs:
  assumes "block_fits js codec es"
  shows "strs_fit (map le_message es)" "codec = CODEC_RICH_TEMPLATE \<Longrightarrow> msgs_fit (map le_message es)"
    "list_all valid_utf8 (map le_message es)" "strs_size (map le_message es) \<le> DECOMPRESS_MAX_BYTES"
proof -
  have n: "8 * length es \<le> DECOMPRESS_MAX_BYTES"
    using assms by (simp add: block_fits_def MAX_BLOCK_ENTRIES_def DECOMPRESS_MAX_BYTES_def)
  show sz: "strs_size (map le_message es) \<le> DECOMPRESS_MAX_BYTES"
    using assms by (auto simp: block_fits_def split: if_split_asm)
  show v: "list_all valid_utf8 (map le_message es)" using assms by (simp add: block_fits_def list_all_iff)
  show "strs_fit (map le_message es)" using n sz v by (simp add: strs_fit_def)
  show "msgs_fit (map le_message es)" if "codec = CODEC_RICH_TEMPLATE"
    using that assms v by (simp add: block_fits_def msgs_fit_def)
qed

lemma encode_template_cases:
  "encode_template_str lib msgs level = Inr b \<Longrightarrow> \<exists>sr. encode_mode lib msgs sr level = Inr b"
  by (auto simp: encode_template_str_def split: if_split_asm)

lemma encode_columns_typed:
  assumes "encode_columns lib es codec level raw = Inr (codec', [c0, c1, c2, c3])" "typed_codec codec"
  shows "(if codec = CODEC_COLUMNAR_V2 then encode_pairs_column lib (map le_metadata es) raw level else zstd_compress lib raw level) = Inr c3 \<and>
    encode_messages lib (map le_message es) codec level = Inr (codec', c2) \<and>
    and_then (encode_i64 lib (map le_ts es) level) to_bytes = Inr c0 \<and>
    and_then (encode_u8 lib (map le_level es) level) to_bytes = Inr c1"
proof -
  have chain: "and_then A (\<lambda>m. and_then B (\<lambda>(cd, q). and_then C (\<lambda>t. and_then D (\<lambda>l. Inr (cd, [t, l, q, m]))))) = Inr (cd', [c0, c1, c2, c3]) \<Longrightarrow>
      A = Inr c3 \<and> B = Inr (cd', c2) \<and> C = Inr c0 \<and> D = Inr c1" for A B C D and cd' :: byte by auto
  show ?thesis using assms(1) unfolding encode_columns_def Let_def if_P [OF assms(2)] by (rule chain)
qed

lemma typed_columns:
  assumes ok: "codec_lib_ok lib" and fit: "block_fits js codec es" and typed: "typed_codec codec"
    and enc: "encode_columns lib es codec level raw = Inr (codec', [c0, c1, c2, c3])"
  shows "decode_i64 lib c0 (length es) = Inr (map le_ts es)" "decode_u8 lib c1 (length es) = Inr (map le_level es)"
    "(if codec' = CODEC_RICH_TEMPLATE then decode_template_str lib c2 (length es) else decode_str lib c2 (length es)) = Inr (map le_message es)"
    "codec' = codec \<or> codec = CODEC_RICH_TEMPLATE \<and> codec' = CODEC_RICH_COLUMNAR"
    "(if codec = CODEC_COLUMNAR_V2 then encode_pairs_column lib (map le_metadata es) raw level else zstd_compress lib raw level) = Inr c3"
proof -
  note strs = block_fits_strs [OF fit]
  note e = encode_columns_typed [OF enc typed]
  note m = e [THEN conjunct1] and e' = e [THEN conjunct2]
  note c = e' [THEN conjunct2, THEN conjunct1] e' [THEN conjunct2, THEN conjunct2] e' [THEN conjunct1]
  show "decode_i64 lib c0 (length es) = Inr (map le_ts es)"
  proof (rule i64c.framed_roundtrip [OF ok _ c(1)])
    have "length es \<le> MAX_BLOCK_ENTRIES" using fit unfolding block_fits_def by (rule conjunct1)
    then show "words_fit (map le_ts es)" by (simp add: words_fit_def MAX_BLOCK_ENTRIES_def machine_limits)
  qed simp
  show "decode_u8 lib c1 (length es) = Inr (map le_level es)" by (rule u8c.framed_roundtrip [OF ok _ c(2)]) simp_all
  have "decode_str lib col (length es) = Inr (map le_message es)"
    if "and_then (encode_str lib (map le_message es) (length (map le_message es)) level) to_bytes = Inr col" for col
    by (rule strc.framed_roundtrip [OF ok strs(1) that]) simp
  moreover have "decode_template_str lib tpl (length es) = Inr (map le_message es)"
    if "codec = CODEC_RICH_TEMPLATE" "encode_template_str lib (map le_message es) level = Inr tpl" for tpl
    using encode_template_cases [OF that(2)] decode_encode_mode [OF ok strs(2) [OF that(1)], of _ level tpl] by auto
  ultimately show "(if codec' = CODEC_RICH_TEMPLATE then decode_template_str lib c2 (length es) else decode_str lib c2 (length es)) = Inr (map le_message es)"
      "codec' = codec \<or> codec = CODEC_RICH_TEMPLATE \<and> codec' = CODEC_RICH_COLUMNAR"
    using c(3) by (auto simp: encode_messages_def codec_ids simp del: to_bytes_Inr split: if_split_asm)
  show "(if codec = CODEC_COLUMNAR_V2 then encode_pairs_column lib (map le_metadata es) raw level else zstd_compress lib raw level) = Inr c3"
    by (rule m)
qed
lemma legacy_columns_written:
  assumes ok: "codec_lib_ok lib" and fit: "block_fits js codec es" and codec: "known_codec codec" "\<not> typed_codec codec"
    and raw: "length raw \<le> DECOMPRESS_MAX_BYTES"
    and enc: "encode_columns lib es codec level raw = Inr (codec', [c0, c1, c2, c3])" and n: "length es \<le> MAX_BLOCK_ENTRIES"
  obtains d0 d2 where "codec' = codec" "legacy_columns lib codec (block_of es c0 c1 c2 c3) PROJECTION_ALL = Inr (d0, map le_level es, d2, raw)"
    "legacy_timestamps codec (length es) d0 = Inr (map le_ts es)" "legacy_messages PROJECTION_ALL (length es) d2 = Inr (map le_message es)"
proof -
  define d0 where "d0 = concat (map i64_le (if codec = CODEC_ZSTD then deltas (I64 0) (map le_ts es) else map le_ts es))"
  have "is_raw_codec codec = (codec \<noteq> CODEC_ZSTD)" using codec by (auto simp: known_codec_def typed_codec_def is_raw_codec_def codec_ids)
  then have d0': "(if is_raw_codec codec then concat (map i64_le (map le_ts es)) else concat (map i64_le (deltas (I64 0) (map le_ts es)))) = d0"
    by (simp add: d0_def)
  have chain: "and_then M (\<lambda>m. if Z then and_then (C0 :: bytes res) (\<lambda>x0. and_then C1 (\<lambda>x1. and_then (C2 m) (\<lambda>x2. and_then C3 (\<lambda>x3. Inr (cd, [x0, x1, x2, x3])))))
      else Inr (cd, [b0, b1, m, b3])) = Inr (cd', [c0, c1, c2, c3]) \<Longrightarrow>
      cd' = cd \<and> (\<exists>m. M = Inr m \<and> (if Z then C0 = Inr c0 \<and> C1 = Inr c1 \<and> C2 m = Inr c2 \<and> C3 = Inr c3 else c0 = b0 \<and> c1 = b1 \<and> c2 = m \<and> c3 = b3))"
    for M Z C0 C1 C2 C3 and cd cd' :: byte and b0 b1 b3 by (auto split: if_split_asm)
  from chain [OF enc [unfolded encode_columns_def Let_def if_not_P [OF codec(2)] d0']]
  obtain m where m: "codec' = codec" "len_prefixed_all (map le_message es) = Inr m"
      "if codec = CODEC_ZSTD then zstd_compress lib d0 level = Inr c0 \<and> zstd_compress lib (map le_level es) level = Inr c1 \<and>
         zstd_compress lib m level = Inr c2 \<and> zstd_compress lib raw level = Inr c3
       else c0 = d0 \<and> c1 = map le_level es \<and> c2 = m \<and> c3 = raw" by blast
  have "length m = strs_size (map le_message es)" using m(2) unfolding len_prefixed_all_Inr by (simp only: length_concat_str_rec)
  then have lm: "length m \<le> DECOMPRESS_MAX_BYTES" using block_fits_strs(4) [OF fit] by simp
  have l0: "length d0 \<le> DECOMPRESS_MAX_BYTES" "length (map le_level es) \<le> DECOMPRESS_MAX_BYTES"
    using n by (auto simp: d0_def length_concat comp_def sum_list_triv MAX_BLOCK_ENTRIES_def DECOMPRESS_MAX_BYTES_def)
  have "legacy_columns lib codec (block_of es c0 c1 c2 c3) PROJECTION_ALL = Inr (d0, map le_level es, m, raw)"
    using m(3) l0 lm raw ok
    by (auto simp: legacy_columns_def PROJECTION_ALL_simps zstd_compress_def zstd_roundtrip_default split: if_split_asm)
  moreover have "legacy_timestamps codec (length es) d0 = Inr (map le_ts es)"
    using legacy_timestamps_ok [of codec "map le_ts es"] by (simp add: d0_def)
  moreover have "legacy_messages PROJECTION_ALL (length es) m = Inr (map le_message es)"
    using legacy_messages_ok [OF block_fits_strs(3) [OF fit] m(2)] lm by (simp add: DECOMPRESS_MAX_BYTES_def machine_limits)
  ultimately show thesis using that m(1) by blast
qed

lemma plain_metadata_written:
  assumes "codec_lib_ok lib" "block_fits js codec es" "\<not> rich_codec codec" "serialize_metadata es = Inr raw"
  shows "zstd_compress lib raw level = Inr c \<Longrightarrow> and_then (zstd_decompress lib c w) (\<lambda>raw. parse_metadata raw (length es)) = Inr (map le_metadata es)"
    and "encode_pairs_column lib (map le_metadata es) raw level = Inr c \<Longrightarrow> length c \<le> U32_MAX \<Longrightarrow>
      decode_pairs_column lib c (length es) parse_metadata = Inr (map le_metadata es)"
    and "parse_metadata raw (length es) = Inr (map le_metadata es)" "length raw \<le> DECOMPRESS_MAX_BYTES"
proof -
  show raw: "length raw \<le> DECOMPRESS_MAX_BYTES" using assms(2-4) by (simp add: block_fits_def)
  have utf8: "\<forall>e \<in> set es. pairs_utf8 (le_metadata e)" using assms(2) by (simp add: block_fits_def list_all_iff)
  show p: "parse_metadata raw (length es) = Inr (map le_metadata es)"
    using parse_metadata_ok [OF assms(4) _ utf8] raw by (simp add: DECOMPRESS_MAX_BYTES_def machine_limits)
  show "and_then (zstd_decompress lib c w) (\<lambda>raw. parse_metadata raw (length es)) = Inr (map le_metadata es)"
    if "zstd_compress lib raw level = Inr c" using that p raw assms(1) by (simp add: zstd_compress_def zstd_roundtrip_default)
  obtain bs where bs: "collect_r serialize_pairs (map le_metadata es) = Inr bs" "raw = concat bs"
    using assms(4) by (auto simp: serialize_metadata_def collect_r_comp)
  show "decode_pairs_column lib c (length es) parse_metadata = Inr (map le_metadata es)"
    if "encode_pairs_column lib (map le_metadata es) raw level = Inr c" "length c \<le> U32_MAX"
    using decode_encode_pairs_column [OF assms(1) bs(1), of level c parse_metadata] that p raw bs(2) utf8 assms(2)
    by (simp add: block_fits_def machine_limits)
qed
lemma decode_encode_plain:
  assumes ok: "codec_lib_ok lib" and fit: "block_fits js codec es" and plain: "\<not> rich_codec codec"
    and enc: "encode_block lib js es codec level = Inr (b, meta)"
  shows "decode_block lib js b = Inr es"
  using enc
proof (rule encode_blockE)
  fix codec' raw c0 c1 c2 c3
  assume e: "es \<noteq> []" "known_codec codec" "rich_codec codec \<or> list_all (\<lambda>e. \<not> is_rich e) es" "list_all (\<lambda>e. le_level e \<le> 3) es"
    "(if rich_codec codec then serialize_rich_metadata js es else serialize_metadata es) = Inr raw"
    "encode_columns lib es codec level raw = Inr (codec', [c0, c1, c2, c3])" "columns_fit c0 c1 c2 c3"
    "b = block_bytes codec' (length es) (Min (le_ts ` set es)) (Max (le_ts ` set es)) c0 c1 c2 c3"
  have n: "length es \<le> MAX_BLOCK_ENTRIES" using fit by (simp add: block_fits_def)
  have raw: "serialize_metadata es = Inr raw" and pl: "list_all (\<lambda>e. \<not> is_rich e) es" using e(3,5) plain by simp_all
  note meta = plain_metadata_written [OF ok fit plain raw]
  show ?thesis
  proof (cases "typed_codec codec")
    case True
    note c = typed_columns [OF ok fit True e(6)]
    have same: "codec' = codec" using c(4) plain by (auto simp: rich_codec_def)
    have "(if codec = CODEC_COLUMNAR_V2 then decode_pairs_column lib c3 (length es) parse_metadata
       else and_then (zstd_decompress lib c3 ''metadata column'') (\<lambda>raw. parse_metadata raw (length es))) = Inr (map le_metadata es)"
    proof (cases "codec = CODEC_COLUMNAR_V2")
      case True
      then show ?thesis using meta(2) [of level c3] c(5) e(7) by (simp add: columns_fit_def)
    next
      case False
      then have "zstd_compress lib raw level = Inr c3" using c(5) by simp
      from meta(1) [OF this] False show ?thesis by (simp only: if_False)
    qed
    then have "decode_columnar lib js codec (block_of es c0 c1 c2 c3) PROJECTION_ALL = Inr es"
      using decode_columnar_intro(1) [OF e(1,4) c(1,2) c(3) [unfolded same]] plain pl by (simp add: rich_codec_def)
    then show ?thesis using True same decode_block_container [OF e(7) n e(2)] by (simp add: decode_block_def e(8) Let_def)
  next
    case False
    obtain d0 d2 where d: "codec' = codec" "legacy_columns lib codec (block_of es c0 c1 c2 c3) PROJECTION_ALL = Inr (d0, map le_level es, d2, raw)"
      "legacy_timestamps codec (length es) d0 = Inr (map le_ts es)" "legacy_messages PROJECTION_ALL (length es) d2 = Inr (map le_message es)"
      by (rule legacy_columns_written [OF ok fit e(2) False meta(4) e(6) n])
    have "decode_block_legacy lib js codec (block_of es c0 c1 c2 c3) PROJECTION_ALL = Inr es"
      using decode_legacy_intro(1) [OF e(1,4) d(2-4) _ pl meta(3)] plain by (simp add: rich_codec_def)
    then show ?thesis using False d(1) decode_block_container [OF e(7) n e(2)] by (simp add: decode_block_def e(8) Let_def)
  qed
qed

end
