(* ===== verification/StoredJson.thy ===== *)
theory StoredJson
  imports BlockCodec
begin

section \<open>What is assumed of the JSON library\<close>

text \<open>
  Values that \<open>serde_json\<close> prints and reads back unchanged: objects with sorted distinct keys (its map is a
  \<open>BTreeMap\<close>), no floating point numbers, negative numbers that are negative, and at most 127 levels of
  nesting (its parser stops at 128). An instance of the parameter shows that the assumption can hold.
\<close>

fun json_wf :: "json \<Rightarrow> bool" where
  "json_wf JNull \<longleftrightarrow> True"
| "json_wf (JBool b) \<longleftrightarrow> True"
| "json_wf (JPosInt n) \<longleftrightarrow> True"
| "json_wf (JNegInt i) \<longleftrightarrow> i64_int i < 0"
| "json_wf (JFloat x) \<longleftrightarrow> False"
| "json_wf (JString s) \<longleftrightarrow> valid_utf8 s"
| "json_wf (JArray xs) \<longleftrightarrow> (\<forall>x \<in> set xs. json_wf x)"
| "json_wf (JObject es) \<longleftrightarrow> bt_wf es \<and> (\<forall>(k, x) \<in> set es. valid_utf8 k \<and> json_wf x)"

fun json_depth :: "json \<Rightarrow> nat" where
  "json_depth (JArray xs) = Suc (fold max (map json_depth xs) 0)"
| "json_depth (JObject es) = Suc (fold max (map (\<lambda>(k, x). json_depth x) es) 0)"
| "json_depth v = 0"

definition json_lib_ok :: "json_lib \<Rightarrow> bool" where
  "json_lib_ok js \<longleftrightarrow> (\<forall>v. json_wf v \<longrightarrow> json_depth v \<le> 127 \<longrightarrow>
     (\<exists>s. serde_to_string js v = Some s \<and> valid_utf8 s \<and> serde_from_str js s = Some v))"

subsection \<open>An instance\<close>

text \<open>A compact notation: bytes as two letters, strings and containers with an end mark.\<close>

definition letter :: "nat \<Rightarrow> byte" where
  "letter k = of_nat (97 + k)"

definition letters :: "bytes \<Rightarrow> bytes" where
  "letters bs = concat (map (\<lambda>b. [letter (unat b div 16), letter (unat b mod 16)]) bs)"

fun print_json :: "json \<Rightarrow> bytes" where
  "print_json JNull = [110]"
| "print_json (JBool b) = [if b then 116 else 102]"
| "print_json (JPosInt n) = 43 # letters (u64_le n)"
| "print_json (JNegInt i) = 45 # letters (i64_le i)"
| "print_json (JFloat x) = 46 # letters (u64_le x)"
| "print_json (JString s) = 34 # letters s @ [33]"
| "print_json (JArray xs) = 91 # concat (map print_json xs) @ [93]"
| "print_json (JObject es) = 123 # concat (map (\<lambda>(k, x). 34 # letters k @ 33 # print_json x) es) @ [125]"

definition letter_byte :: "byte \<Rightarrow> byte \<Rightarrow> byte" where
  "letter_byte a b = of_nat (16 * (unat a - 97) + (unat b - 97))"

fun read_string :: "bytes \<Rightarrow> (str \<times> bytes) option" where
  "read_string (a # r) = (if a = 33 then Some ([], r) else
     case r of [] \<Rightarrow> None | b # r \<Rightarrow> map_option (\<lambda>(s, t). (letter_byte a b # s, t)) (read_string r))"
| "read_string [] = None"

fun unletters :: "bytes \<Rightarrow> bytes" where
  "unletters (a # b # r) = letter_byte a b # unletters r"
| "unletters _ = []"

fun read_json :: "nat \<Rightarrow> bytes \<Rightarrow> (json \<times> bytes) option"
  and read_items :: "nat \<Rightarrow> bytes \<Rightarrow> (json list \<times> bytes) option"
  and read_entries :: "nat \<Rightarrow> bytes \<Rightarrow> ((str \<times> json) list \<times> bytes) option" where
  "read_json (Suc f) (c # r) =
     (if c = 110 then Some (JNull, r)
      else if c = 116 then Some (JBool True, r)
      else if c = 102 then Some (JBool False, r)
      else if c = 43 then Some (JPosInt (u64_from_le (unletters (take 16 r))), drop 16 r)
      else if c = 45 then Some (JNegInt (i64_from_le (unletters (take 16 r))), drop 16 r)
      else if c = 46 then Some (JFloat (u64_from_le (unletters (take 16 r))), drop 16 r)
      else if c = 34 then map_option (\<lambda>(s, t). (JString s, t)) (read_string r)
      else if c = 91 then map_option (\<lambda>(xs, t). (JArray xs, t)) (read_items f r)
      else if c = 123 then map_option (\<lambda>(es, t). (JObject es, t)) (read_entries f r)
      else None)"
| "read_json _ _ = None"
| "read_items (Suc f) (c # r) =
     (if c = 93 then Some ([], r)
      else case read_json f (c # r) of None \<Rightarrow> None | Some (x, t) \<Rightarrow>
        map_option (\<lambda>(xs, t). (x # xs, t)) (read_items f t))"
| "read_items _ _ = None"
| "read_entries (Suc f) (c # r) =
     (if c = 125 then Some ([], r)
      else case read_string r of None \<Rightarrow> None | Some (k, t) \<Rightarrow>
        case read_json f t of None \<Rightarrow> None | Some (x, t) \<Rightarrow>
          map_option (\<lambda>(es, t). ((k, x) # es, t)) (read_entries f t))"
| "read_entries _ _ = None"

definition stored_json :: json_lib where
  "stored_json = \<lparr>serde_from_str = \<lambda>s. (case read_json (length s) s of Some (v, []) \<Rightarrow> Some v | _ \<Rightarrow> None),
     serde_to_string = \<lambda>v. Some (print_json v)\<rparr>"
lemma unat_letter: "k < 16 \<Longrightarrow> unat (letter k) = 97 + k"
  unfolding letter_def by (subst unat_of_nat) (simp add: take_bit_nat_def)

lemma nibbles: "unat (x :: byte) div 16 < 16" "unat x mod 16 < 16"
proof -
  have "unat x < 256" using unsigned_less [of x, where 'a = nat] by simp
  then show "unat x div 16 < 16" "unat x mod 16 < 16" by simp_all
qed

lemma letter_pair [simp]: "letter_byte (letter (unat b div 16)) (letter (unat b mod 16)) = b"
  by (simp add: letter_byte_def unat_letter nibbles flip: of_nat_mult of_nat_add)

lemma letter_facts: "k < 16 \<Longrightarrow> letter k \<noteq> 33" "k < 16 \<Longrightarrow> letter k < 0x80"
  using unat_letter [of k] by (auto simp: word_less_nat_alt)

lemma letters_ascii: "is_ascii (letters bs)"
  by (induction bs) (auto simp: is_ascii_def letters_def letter_facts nibbles)

lemma length_letters [simp]: "length (letters bs) = 2 * length bs"
  by (induction bs) (auto simp: letters_def)

lemma unletters_letters [simp]: "unletters (letters bs) = bs"
  by (induction bs) (simp_all add: letters_def)

lemma read_string_letters [simp]: "read_string (letters s @ 33 # t) = Some (s, t)"
  by (induction s) (simp_all add: letters_def letter_facts nibbles)

lemma print_json_ne: "\<exists>c r. print_json v = c # r \<and> c \<noteq> 93"
  by (cases v) auto

lemma read_numbers:
  "0 < f \<Longrightarrow> read_json f (43 # letters (u64_le n) @ t) = Some (JPosInt n, t)"
  "0 < f \<Longrightarrow> read_json f (45 # letters (i64_le i) @ t) = Some (JNegInt i, t)"
  "0 < f \<Longrightarrow> read_json f (46 # letters (u64_le x) @ t) = Some (JFloat x, t)"
  by (cases f; simp)+

lemma read_print:
  "length (print_json v) \<le> f \<Longrightarrow> read_json f (print_json v @ t) = Some (v, t)"
proof (induction v arbitrary: f t)
  case (JArray xs)
  have items: "read_items f (concat (map print_json xs) @ 93 # t) = Some (xs, t)" if "length (concat (map print_json xs)) < f" for f
    using that JArray.IH
  proof (induction xs arbitrary: f)
    case (Cons x xs)
    then obtain g where g: "f = Suc g" by (cases f) auto
    obtain c r where c: "print_json x = c # r" "c \<noteq> 93" using print_json_ne by blast
    have "read_json g (print_json x @ concat (map print_json xs) @ 93 # t) = Some (x, concat (map print_json xs) @ 93 # t)"
      using Cons.prems g by simp
    moreover have "read_items g (concat (map print_json xs) @ 93 # t) = Some (xs, t)"
      using Cons.prems g c by (intro Cons.IH) auto
    ultimately show ?case using g c by simp
  qed (auto simp: gr0_conv_Suc)
  obtain g where "f = Suc g" using JArray.prems by (cases f) auto
  then show ?case using items [of g] JArray.prems by simp
next
  case (JObject es)
  let ?p = "\<lambda>(k, x). 34 # letters k @ 33 # print_json x"
  have entries: "read_entries f (concat (map ?p es) @ 125 # t) = Some (es, t)" if "length (concat (map ?p es)) < f" for f
    using that JObject.IH
  proof (induction es arbitrary: f)
    case (Cons e es)
    obtain k x where e: "e = (k, x)" by (cases e)
    obtain g where g: "f = Suc g" using Cons.prems(1) by (cases f) auto
    have "read_json g (print_json x @ concat (map ?p es) @ 125 # t) = Some (x, concat (map ?p es) @ 125 # t)"
      using Cons.prems(1) g e by (intro Cons.prems(2) [of e x]) auto
    moreover have "read_entries g (concat (map ?p es) @ 125 # t) = Some (es, t)"
      using Cons.prems(1) g e by (intro Cons.IH) (auto intro: Cons.prems(2))
    ultimately show ?case using g e by simp
  qed (auto simp: gr0_conv_Suc)
  obtain g where "f = Suc g" using JObject.prems by (cases f) auto
  then show ?case using entries [of g] JObject.prems by simp
qed (auto simp: read_numbers dest!: Suc_le_D)

lemma print_json_ascii: "is_ascii (print_json v)"
  by (induction v) (use letters_ascii in \<open>auto simp: is_ascii_def list_all_iff\<close>)

lemma stored_json_sel [simp]:
  "serde_to_string stored_json v = Some (print_json v)" "serde_from_str stored_json (print_json v) = Some v"
  using read_print [of v "length (print_json v)" "[]"] by (simp_all add: stored_json_def)

lemma stored_json_ok [simp]: "json_lib_ok stored_json"
  by (simp add: json_lib_ok_def is_ascii_valid print_json_ascii)

end
