(* ===== verification/RichTrip.thy ===== *)
theory RichTrip
  imports BlockTrip StoredJson
begin

section \<open>Rich blocks\<close>

text \<open>
  The rich codecs keep a severity and a JSON object per entry. What comes back is the entry with its
  severity named and its object in canonical form.
\<close>

subsection \<open>Canonical objects\<close>

lemma bt_insert_end: "bt_wf (m @ [(k, v)]) \<Longrightarrow> bt_insert k v m = m @ [(k, v)]"
proof (induction m)
  case (Cons p m)
  then have "fst p < k" "bt_wf (m @ [(k, v)])" by (cases p; auto simp: bt_wf_Cons)+
  then show ?case using Cons.IH by (cases p) auto
qed simp

lemma bt_collect_wf: "bt_wf xs \<Longrightarrow> bt_collect xs = xs"
proof -
  have "bt_wf (acc @ xs) \<Longrightarrow> fold (\<lambda>(k, v). bt_insert k v) xs acc = acc @ xs" for acc
  proof (induction xs arbitrary: acc)
    case (Cons p xs)
    obtain k v where p: "p = (k, v)" by (cases p)
    have "bt_wf (acc @ [(k, v)])" using Cons.prems p by (auto simp: bt_wf_def sorted_wrt_append)
    then show ?case using Cons.IH [of "acc @ [(k, v)]"] Cons.prems p by (simp add: bt_insert_end)
  qed simp
  then show "bt_wf xs \<Longrightarrow> bt_collect xs = xs" by (simp add: bt_collect_def)
qed

lemma bt_wf_collect: "bt_wf (bt_collect xs)"
proof -
  have "bt_wf acc \<Longrightarrow> bt_wf (fold (\<lambda>(k, v). bt_insert k v) xs acc)" for acc
    by (induction xs arbitrary: acc) auto
  then show ?thesis by (simp add: bt_collect_def)
qed

lemma bt_insert_set: "set (bt_insert k v m) \<subseteq> insert (k, v) (set m)"
  by (induction m) (auto split: if_split_asm)

lemma bt_collect_set: "set (bt_collect xs) \<subseteq> set xs"
proof -
  have "set (fold (\<lambda>(k, v). bt_insert k v) xs acc) \<subseteq> set xs \<union> set acc" for acc
  proof (induction xs arbitrary: acc)
    case (Cons p xs)
    obtain k v where "p = (k, v)" by (cases p)
    then show ?case using Cons.IH [of "bt_insert k v acc"] bt_insert_set [of k v acc] by auto
  qed simp
  from this [of "[]"] show ?thesis by (simp add: bt_collect_def)
qed

definition json_good :: "json \<Rightarrow> bool" where
  "json_good v \<longleftrightarrow> json_wf v \<and> json_depth v \<le> 127"

lemma json_goodE:
  assumes "json_lib_ok js" "json_good v"
  obtains s where "serde_to_string js v = Some s" "valid_utf8 s" "serde_from_str js s = Some v"
  using assms by (auto simp: json_lib_ok_def json_good_def)

lemma canonical_text:
  assumes "json_lib_ok js" "json_good (JObject es)" "serde_to_string js (JObject es) = Some s"
  shows "canonical_metadata_json js s = Inr s" "metadata_pairs_from_json js s = Inr (map (\<lambda>(k, v). (k, json_text js v)) es)" "valid_utf8 s"
proof -
  have s: "valid_utf8 s" "serde_from_str js s = Some (JObject es)" using json_goodE [OF assms(1,2)] assms(3) by auto
  have "bt_collect es = es" using assms(2) by (intro bt_collect_wf) (simp add: json_good_def)
  then show "canonical_metadata_json js s = Inr s" "metadata_pairs_from_json js s = Inr (map (\<lambda>(k, v). (k, json_text js v)) es)" "valid_utf8 s"
    using s assms(3) by (simp_all add: canonical_metadata_json_def metadata_pairs_from_json_def)
qed

text \<open>The object an entry is stored with, and the entry that comes back.\<close>

definition metadata_object :: "json_lib \<Rightarrow> log_entry \<Rightarrow> (str \<times> json) list" where
  "metadata_object js e =
     (case le_metadata_json e of
        None \<Rightarrow> bt_collect (map (\<lambda>(k, v). (k, JString v)) (le_metadata e))
      | Some j \<Rightarrow> (case serde_from_str js j of Some (JObject es) \<Rightarrow> bt_collect es | _ \<Rightarrow> []))"

definition entry_severity :: "log_entry \<Rightarrow> str" where
  "entry_severity e = (case severity_name e of Inr s \<Rightarrow> s | Inl _ \<Rightarrow> [])"

definition stored_rich :: "json_lib \<Rightarrow> log_entry \<Rightarrow> rich_metadata" where
  "stored_rich js e = \<lparr>rm_severity = entry_severity e, rm_metadata = map (\<lambda>(k, v). (k, json_text js v)) (metadata_object js e),
     rm_metadata_json = (case serde_to_string js (JObject (metadata_object js e)) of Some s \<Rightarrow> s | None \<Rightarrow> [])\<rparr>"

definition stored_entry :: "json_lib \<Rightarrow> log_entry \<Rightarrow> log_entry" where
  "stored_entry js e = rich_view e (stored_rich js e)"

text \<open>Severities that exist, and objects the JSON library reads back.\<close>

definition rich_entry_ok :: "json_lib \<Rightarrow> log_entry \<Rightarrow> bool" where
  "rich_entry_ok js e \<longleftrightarrow>
     (case le_severity e of None \<Rightarrow> True | Some s \<Rightarrow> valid_utf8 s \<and> \<not> isl (canonical_severity s)) \<and>
     (case le_metadata_json e of None \<Rightarrow> True | Some j \<Rightarrow>
        (case serde_from_str js j of Some (JObject es) \<Rightarrow> json_good (JObject (bt_collect es)) | _ \<Rightarrow> False))"
lemma fold_max_0: "\<forall>x \<in> set xs. x = (0 :: nat) \<Longrightarrow> fold max xs 0 = 0"
  by (induction xs) auto

lemma metadata_object_good:
  assumes "rich_entry_ok js e" "pairs_utf8 (le_metadata e)"
  shows "json_good (JObject (metadata_object js e))"
proof (cases "le_metadata_json e")
  case None
  let ?o = "bt_collect (map (\<lambda>(k, v). (k, JString v)) (le_metadata e))"
  have v: "\<exists>s. x = JString s \<and> valid_utf8 s \<and> valid_utf8 k" if "(k, x) \<in> set ?o" for k x
  proof -
    have "(k, x) \<in> set (map (\<lambda>(k, v). (k, JString v)) (le_metadata e))" using that bt_collect_set by (rule rev_subsetD)
    then show ?thesis using assms(2) by (auto simp: pairs_utf8_def)
  qed
  then have "fold max (map (\<lambda>(k, x). json_depth x) ?o) 0 = 0" by (intro fold_max_0) fastforce
  moreover have "json_wf (JObject ?o)" using v bt_wf_collect by fastforce
  ultimately show ?thesis using None by (simp add: json_good_def metadata_object_def)
next
  case (Some j)
  then show ?thesis using assms(1) by (auto simp: rich_entry_ok_def metadata_object_def split: option.split_asm json.split_asm)
qed

lemma canonical_metadata_json_Inr:
  "canonical_metadata_json js j = Inr s \<longleftrightarrow>
     (\<exists>es. serde_from_str js j = Some (JObject es) \<and> serde_to_string js (JObject (bt_collect es)) = Some s)"
proof (cases "serde_from_str js j")
  case (Some v)
  then show ?thesis by (cases v) (simp_all add: canonical_metadata_json_def)
qed (simp add: canonical_metadata_json_def)

lemma entry_json_text:
  assumes "entry_json js e = Inr j"
  shows "serde_to_string js (JObject (metadata_object js e)) = Some j"
  using assms
  by (auto simp: entry_json_def metadata_object_def canonical_metadata_json_Inr pairs_metadata_json_def split: option.split_asm)

lemma level_name_utf8: "level_name l = Inr s \<Longrightarrow> valid_utf8 s \<and> canonical_severity s = Inr s"
proof -
  assume l: "level_name l = Inr s"
  have "list_all valid_utf8 LEVEL_NAMES" by (simp add: LEVEL_NAMES_def str_lit_def is_ascii_valid is_ascii_def)
  moreover have "s \<in> set LEVEL_NAMES" using l by (auto simp: level_name_def index_r_def split: if_split_asm)
  ultimately show ?thesis using level_name_canonical [OF l] by (auto simp: list_all_iff)
qed

lemma entry_severity_ok:
  assumes "rich_entry_ok js e" "severity_name e = Inr s"
  shows "entry_severity e = s" "valid_utf8 s" "\<exists>c. canonical_severity s = Inr c"
  using assms level_name_utf8 [of "le_level e" s]
  by (cases "canonical_severity s"; auto simp: entry_severity_def severity_name_def rich_entry_ok_def split: option.split_asm)+

definition rich_rec :: "rich_metadata \<Rightarrow> bytes" where
  "rich_rec r = u16_le (of_nat (length (rm_severity r))) @ rm_severity r @
     u32_le (of_nat (length (rm_metadata_json r))) @ rm_metadata_json r"

definition rich_row_ok :: "json_lib \<Rightarrow> rich_metadata \<Rightarrow> bool" where
  "rich_row_ok js r \<longleftrightarrow> length (rm_severity r) \<le> U16_MAX \<and> length (rm_metadata_json r) \<le> U32_MAX \<and>
     valid_utf8 (rm_severity r) \<and> valid_utf8 (rm_metadata_json r) \<and> \<not> isl (canonical_severity (rm_severity r)) \<and>
     canonical_metadata_json js (rm_metadata_json r) = Inr (rm_metadata_json r) \<and>
     metadata_pairs_from_json js (rm_metadata_json r) = Inr (rm_metadata r)"

lemma serialize_rich_entry_row:
  assumes "json_lib_ok js" "rich_entry_ok js e" "pairs_utf8 (le_metadata e)" "serialize_rich_entry js e = Inr bs"
  shows "bs = rich_rec (stored_rich js e) \<and> rich_row_ok js (stored_rich js e)"
proof -
  obtain s j where s: "severity_name e = Inr s" "length s \<le> U16_MAX" "entry_json js e = Inr j" "length j \<le> U32_MAX"
      "bs = u16_le (of_nat (length s)) @ s @ u32_le (of_nat (length j)) @ j"
    using assms(4) by (auto simp: serialize_rich_entry_def not_less split: if_split_asm)
  note t = entry_json_text [OF s(3)] and sev = entry_severity_ok [OF assms(2) s(1)]
  note c = canonical_text [OF assms(1) metadata_object_good [OF assms(2,3)] t]
  show ?thesis using s(2,4,5) t sev c by (auto simp: rich_rec_def rich_row_ok_def stored_rich_def)
qed

lemma serialize_rich_rows:
  assumes "json_lib_ok js" "\<forall>e \<in> set es. rich_entry_ok js e \<and> pairs_utf8 (le_metadata e)" "serialize_rich_metadata js es = Inr raw"
  shows "raw = concat (map rich_rec (map (stored_rich js) es)) \<and> list_all (rich_row_ok js) (map (stored_rich js) es)"
proof -
  obtain bs where bs: "list_all2 (\<lambda>e b. serialize_rich_entry js e = Inr b) es bs" "raw = concat bs"
    using assms(3) by (auto simp: serialize_rich_metadata_def collect_r_Inr_conv)
  from bs(1) assms(2) have "bs = map rich_rec (map (stored_rich js) es) \<and> list_all (rich_row_ok js) (map (stored_rich js) es)"
    using serialize_rich_entry_row [OF assms(1)] by (induction rule: list_all2_induct) auto
  with bs(2) show ?thesis by simp
qed
subsection \<open>Reading rows\<close>

lemma length_rich_rec: "length (rich_rec x) = 6 + length (rm_severity x) + length (rm_metadata_json x)"
  by (simp add: rich_rec_def)

lemma read_rich_row:
  assumes "reader_wf r" "rest r = rich_rec x @ ys" "rich_row_ok js x"
  defines "k \<equiv> length (rm_severity x)"
  shows "reader_u16 r w = Inr (of_nat k, adv 2 r)" "unat (of_nat k :: u16) = k"
    "read_severity i k (adv 2 r) = Inr (rm_severity x, adv (2 + k) r)"
    "read_json_text i (adv (2 + k) r) = Inr (rm_metadata_json x, adv (length (rich_rec x)) r)"
    "reader_take (adv 2 r) k w = Inr (rm_severity x, adv (2 + k) r)"
    "reader_u32 (adv (2 + k) r) w = Inr (of_nat (length (rm_metadata_json x)), adv (6 + k) r)"
    "unat (of_nat (length (rm_metadata_json x)) :: u32) = length (rm_metadata_json x)"
    "reader_take (adv (6 + k) r) (length (rm_metadata_json x)) w = Inr (rm_metadata_json x, adv (length (rich_rec x)) r)"
proof -
  have rest: "rest r = u16_le (of_nat k) @ rm_severity x @ u32_le (of_nat (length (rm_metadata_json x))) @ rm_metadata_json x @ ys"
    using assms(2) by (simp add: rich_rec_def k_def)
  obtain c where c: "canonical_severity (rm_severity x) = Inr c"
    using assms(3) by (cases "canonical_severity (rm_severity x)") (auto simp: rich_row_ok_def)
  show u: "unat (of_nat k :: u16) = k" "unat (of_nat (length (rm_metadata_json x)) :: u32) = length (rm_metadata_json x)"
    using assms(3) by (simp_all add: rich_row_ok_def k_def unat_of_nat machine_limits take_bit_nat_eq_self_iff)
  show "reader_u16 r w = Inr (of_nat k, adv 2 r)" using assms(1) rest by (simp add: reader_u16_ok)
  show t: "reader_take (adv 2 r) k w = Inr (rm_severity x, adv (2 + k) r)" for w
    using assms(1) rest by (simp add: reader_take_ok k_def)
  show "read_severity i k (adv 2 r) = Inr (rm_severity x, adv (2 + k) r)"
    using t c assms(3) by (simp add: read_severity_def from_utf8_def rich_row_ok_def)
  show j: "reader_u32 (adv (2 + k) r) w = Inr (of_nat (length (rm_metadata_json x)), adv (6 + k) r)" for w
    using assms(1) rest by (simp add: reader_u32_ok k_def)
  show s: "reader_take (adv (6 + k) r) (length (rm_metadata_json x)) w = Inr (rm_metadata_json x, adv (length (rich_rec x)) r)" for w
    using assms(1) rest by (simp add: reader_take_ok k_def length_rich_rec)
  show "read_json_text i (adv (2 + k) r) = Inr (rm_metadata_json x, adv (length (rich_rec x)) r)"
    using j s u(2) assms(3) by (simp add: read_json_text_def from_utf8_def rich_row_ok_def)
qed

lemma parse_rich_rows_ok:
  assumes "reader_wf r" "rest r = concat (map rich_rec xs) @ ys" "list_all (rich_row_ok js) xs"
  shows "parse_rich_rows js PROJECTION_ALL i (length xs) r = Inr (xs, adv (length (concat (map rich_rec xs))) r)"
  using assms
proof (induction xs arbitrary: i r)
  case (Cons x xs)
  have rest: "rest r = rich_rec x @ concat (map rich_rec xs) @ ys" using Cons.prems(2) by simp
  have x: "rich_row_ok js x" using Cons.prems(3) by simp
  note row = read_rich_row [OF Cons.prems(1) rest x]
  have "parse_rich_rows js PROJECTION_ALL (Suc i) (length xs) (adv (length (rich_rec x)) r) =
      Inr (xs, adv (length (concat (map rich_rec xs))) (adv (length (rich_rec x)) r))"
    using Cons.prems(1,3) rest by (intro Cons.IH) (auto intro!: reader_wf_adv)
  then show ?case using row x by (simp add: PROJECTION_ALL_simps rich_row_ok_def)
qed simp

lemma parse_rich_ok:
  assumes "list_all (rich_row_ok js) xs" "length (concat (map rich_rec xs)) \<le> USIZE_MAX"
  shows "parse_rich_metadata_projected js (concat (map rich_rec xs)) (length xs) PROJECTION_ALL = Inr xs"
  using parse_rich_rows_ok [OF _ _ assms(1), of "reader_new (concat (map rich_rec xs))" "[]"] assms(2)
  by (simp add: parse_rich_metadata_projected_def reader_remaining_rest)
subsection \<open>Rich round trip\<close>

lemma rich_rows_written:
  assumes "json_lib_ok js" "block_fits js codec es" "rich_codec codec" "list_all (rich_entry_ok js) es"
    and "serialize_rich_metadata js es = Inr raw"
  shows "raw = concat (map rich_rec (map (stored_rich js) es))" "list_all (rich_row_ok js) (map (stored_rich js) es)"
    "length raw \<le> DECOMPRESS_MAX_BYTES"
    "parse_rich_metadata_projected js raw (length es) PROJECTION_ALL = Inr (map (stored_rich js) es)"
proof -
  have "\<forall>e \<in> set es. rich_entry_ok js e \<and> pairs_utf8 (le_metadata e)" using assms(2,4) by (auto simp: block_fits_def list_all_iff)
  from serialize_rich_rows [OF assms(1) this assms(5)]
  show raw: "raw = concat (map rich_rec (map (stored_rich js) es))" "list_all (rich_row_ok js) (map (stored_rich js) es)" by blast+
  show l: "length raw \<le> DECOMPRESS_MAX_BYTES" using assms(2,3,5) by (simp add: block_fits_def)
  then show "parse_rich_metadata_projected js raw (length es) PROJECTION_ALL = Inr (map (stored_rich js) es)"
    using parse_rich_ok [OF raw(2)] unfolding raw(1) by (simp add: DECOMPRESS_MAX_BYTES_def machine_limits)
qed

lemma map2_stored: "map2 rich_view es (map (stored_rich js) es) = map (stored_entry js) es"
  by (induction es) (simp_all add: stored_entry_def)

lemma decode_encode_rich:
  assumes ok: "codec_lib_ok lib" "json_lib_ok js" and fit: "block_fits js codec es" and rich: "rich_codec codec"
    and es: "list_all (rich_entry_ok js) es" and enc: "encode_block lib js es codec level = Inr (b, meta)"
  shows "decode_block lib js b = Inr (map (stored_entry js) es)"
  using enc
proof (rule encode_blockE)
  fix codec' raw c0 c1 c2 c3
  assume e: "es \<noteq> []" "known_codec codec" "list_all (\<lambda>e. le_level e \<le> 3) es"
    "(if rich_codec codec then serialize_rich_metadata js es else serialize_metadata es) = Inr raw"
    "encode_columns lib es codec level raw = Inr (codec', [c0, c1, c2, c3])" "columns_fit c0 c1 c2 c3"
    "b = block_bytes codec' (length es) (Min (le_ts ` set es)) (Max (le_ts ` set es)) c0 c1 c2 c3"
  have n: "length es \<le> MAX_BLOCK_ENTRIES" using fit by (simp add: block_fits_def)
  have raw: "serialize_rich_metadata js es = Inr raw" using e(4) rich by simp
  note rows = rich_rows_written [OF ok(2) fit rich es raw]
  show ?thesis
  proof (cases "typed_codec codec")
    case True
    note c = typed_columns [OF ok(1) fit True e(5)]
    have cd: "codec \<in> {CODEC_RICH_COLUMNAR, CODEC_RICH_TEMPLATE}" "codec \<noteq> CODEC_COLUMNAR_V2"
      using True rich by (auto simp: typed_codec_def rich_codec_def codec_ids)
    then have cd': "codec' \<in> {CODEC_RICH_COLUMNAR, CODEC_RICH_TEMPLATE}" using c(4) by auto
    then have k: "known_codec codec'" "typed_codec codec'" by (auto simp: known_codec_def typed_codec_def)
    have "zstd_decompress lib c3 ''rich metadata column'' = Inr raw"
      using c(5) cd(2) rows(3) ok(1) by (simp add: zstd_compress_def zstd_roundtrip_default)
    then have "decode_columnar lib js codec' (block_of es c0 c1 c2 c3) PROJECTION_ALL = Inr (map (stored_entry js) es)"
      using decode_columnar_intro(2) [OF e(1,3) c(1-3) cd' _ rows(4)] by (simp only: map2_stored)
    then show ?thesis using k(2) decode_block_container [OF e(6) n k(1)] by (simp add: decode_block_def e(7) Let_def)
  next
    case False
    obtain d0 d2 where d: "codec' = codec" "legacy_columns lib codec (block_of es c0 c1 c2 c3) PROJECTION_ALL = Inr (d0, map le_level es, d2, raw)"
      "legacy_timestamps codec (length es) d0 = Inr (map le_ts es)" "legacy_messages PROJECTION_ALL (length es) d2 = Inr (map le_message es)"
      by (rule legacy_columns_written [OF ok(1) fit e(2) False rows(3) e(5) n])
    have "codec = CODEC_RICH_RAW" using False rich by (auto simp: typed_codec_def rich_codec_def)
    from decode_legacy_intro(2) [OF e(1,3) d(2-4) this rows(4)]
    have "decode_block_legacy lib js codec (block_of es c0 c1 c2 c3) PROJECTION_ALL = Inr (map (stored_entry js) es)"
      by (simp only: map2_stored)
    then show ?thesis using False d(1) decode_block_container [OF e(6) n e(2)] by (simp add: decode_block_def e(7) Let_def)
  qed
qed

lemma stored_entry_metadata:
  assumes "le_metadata_json e = None" "bt_wf (le_metadata e)"
  shows "le_metadata (stored_entry js e) = le_metadata e"
proof -
  have "bt_wf (map (\<lambda>(k, v). (k, JString v)) (le_metadata e))" using assms(2) by (simp add: bt_wf_def comp_def split_def)
  then show ?thesis
    using assms(1) by (simp add: stored_entry_def rich_view_def stored_rich_def metadata_object_def bt_collect_wf json_text_def comp_def split_def)
qed
subsection \<open>Decoding the matching rows\<close>

lemma enumerate_filter_hd: "filter (\<lambda>(_, m). P m) (enumerate (Suc i) ms) \<noteq> [] \<Longrightarrow> fst (hd (filter (\<lambda>(_, m). P m) (enumerate (Suc i) ms))) \<noteq> i"
proof -
  let ?f = "filter (\<lambda>(_, m). P m) (enumerate (Suc i) ms)"
  assume "?f \<noteq> []"
  then have "hd ?f \<in> set ?f" by (rule hd_in_set)
  moreover have "Suc i \<le> fst q" if "q \<in> set ?f" for q using that by (auto simp: in_set_enumerate_eq)
  ultimately show ?thesis by fastforce
qed

lemma rich_walk_ok:
  assumes "reader_wf r" "rest r = concat (map rich_rec xs) @ ys" "list_all (rich_row_ok js) xs" "length ms = length xs"
    and "i + length xs = length ts" "i + length xs = length ls"
  shows "rich_walk js ts ls (filter (\<lambda>(_, m). P m) (enumerate i ms)) i (length xs) r =
    Inr (filter (\<lambda>(_, e). P (le_message e)) (enumerate i (map rich_entry (zip (drop i ts) (zip (drop i ls) (zip ms xs))))),
      adv (length (concat (map rich_rec xs))) r)"
  using assms
proof (induction xs arbitrary: i r ms)
  case (Cons x xs)
  obtain m ms' where ms: "ms = m # ms'" "length ms' = length xs" using Cons.prems(4) by (cases ms) auto
  have rest: "rest r = rich_rec x @ concat (map rich_rec xs) @ ys" using Cons.prems(2) by simp
  have x: "rich_row_ok js x" using Cons.prems(3) by simp
  note row = read_rich_row [OF Cons.prems(1) rest x]
  have i: "i < length ts" "i < length ls" using Cons.prems(5,6) by auto
  let ?r = "adv (length (rich_rec x)) r" and ?keep = "filter (\<lambda>(_, m). P m) (enumerate (Suc i) ms')"
  have IH: "rich_walk js ts ls ?keep (Suc i) (length xs) ?r =
      Inr (filter (\<lambda>(_, e). P (le_message e)) (enumerate (Suc i) (map rich_entry (zip (drop (Suc i) ts) (zip (drop (Suc i) ls) (zip ms' xs))))),
        adv (length (concat (map rich_rec xs))) ?r)"
    using Cons.prems rest ms(2) by (intro Cons.IH) (auto intro!: reader_wf_adv)
  have split: "map rich_entry (zip (drop i ts) (zip (drop i ls) (zip ms (x # xs)))) =
      rich_entry (ts ! i, ls ! i, m, x) # map rich_entry (zip (drop (Suc i) ts) (zip (drop (Suc i) ls) (zip ms' xs)))"
    using i ms(1) by (simp flip: Cons_nth_drop_Suc)
  show ?case
  proof (cases "P m")
    case True
    then show ?thesis
      using IH row x i ms(1) unfolding split by (simp add: rich_row_ok_def index_r_def rich_entry_def)
  next
    case False
    have nk: "(?keep \<noteq> [] \<and> fst (hd ?keep) = i) = False" using enumerate_filter_hd by blast
    have keep: "filter (\<lambda>(_, m). P m) (enumerate i ms) = ?keep" using False ms(1) by simp
    show ?thesis
      unfolding keep split length_Cons rich_walk.simps(2) nk if_False
      using False IH row by (simp add: rich_entry_def)
  qed
qed simp
lemma message_contains_ascii: "needle \<noteq> [] \<Longrightarrow> is_ascii needle \<Longrightarrow> message_contains_ci lower m needle = contains_ci m needle"
  by (simp add: message_contains_ci_def contains_ci_def)

lemma stored_entries_zip:
  "map (stored_entry js) es = map rich_entry (zip (map le_ts es) (zip (map le_level es) (zip (map le_message es) (map (stored_rich js) es))))"
  by (induction es) (simp_all add: stored_entry_def rich_view_def rich_entry_def)

lemma stored_message [simp]: "le_message (stored_entry js e) = le_message e"
  by (simp add: stored_entry_def rich_view_def)

lemma filter_stored_messages:
  "filter (\<lambda>(_, m). P m) (enumerate i (map le_message es)) = map (\<lambda>(k, e). (k, le_message e)) (filter (\<lambda>(_, e). P (le_message e)) (enumerate i (map (stored_entry js) es)))"
  by (induction es arbitrary: i) auto

definition matching_rows :: "(str \<Rightarrow> str) \<Rightarrow> str \<Rightarrow> log_entry list \<Rightarrow> (nat \<times> log_entry) list" where
  "matching_rows lower needle es = filter (\<lambda>(_, e). message_contains_ci lower (le_message e) needle) (enumerate 0 es)"

lemma filtered_template_block:
  assumes ok: "codec_lib_ok lib" "json_lib_ok js" and fit: "block_fits js CODEC_RICH_TEMPLATE es"
    and es: "list_all (rich_entry_ok js) es" and enc: "encode_block lib js es CODEC_RICH_TEMPLATE level = Inr (b, meta)"
    and codec: "read_block_codec b = Inr (CODEC_RICH_TEMPLATE, r)"
    and n: "needle \<noteq> []" "is_ascii needle" "inner_runs_short needle"
  shows "\<exists>fb. decode_block_filtered lib js lower b needle = Inr fb \<and> fb_rows fb = matching_rows lower needle (map (stored_entry js) es) \<and>
    fb_total_rows fb = length es \<and> fb_candidate_rows fb \<le> length es"
  using enc
proof (rule encode_blockE)
  fix codec' raw c0 c1 c2 c3
  assume e: "es \<noteq> []" "known_codec CODEC_RICH_TEMPLATE" "list_all (\<lambda>e. le_level e \<le> 3) es"
    "(if rich_codec CODEC_RICH_TEMPLATE then serialize_rich_metadata js es else serialize_metadata es) = Inr raw"
    "encode_columns lib es CODEC_RICH_TEMPLATE level raw = Inr (codec', [c0, c1, c2, c3])" "columns_fit c0 c1 c2 c3"
    "b = block_bytes codec' (length es) (Min (le_ts ` set es)) (Max (le_ts ` set es)) c0 c1 c2 c3"
  have n_es: "length es \<le> MAX_BLOCK_ENTRIES" using fit by (simp add: block_fits_def)
  have typed: "typed_codec CODEC_RICH_TEMPLATE" and rich: "rich_codec CODEC_RICH_TEMPLATE" by (simp_all add: typed_codec_def rich_codec_def)
  note c = typed_columns [OF ok(1) fit typed e(5)]
  have raw: "serialize_rich_metadata js es = Inr raw" using e(4) rich by simp
  note rows = rich_rows_written [OF ok(2) fit rich es raw]
  have cr: "codec' = CODEC_RICH_TEMPLATE" "r = adv 2 (reader_new b)" using codec read_block_codec_container [OF e(6)] unfolding e(7) by auto
  have cols: "read_block_columns r = Inr (block_of es c0 c1 c2 c3)" unfolding cr(2) e(7) by (rule read_block_columns_container [OF e(6) n_es])
  have "encode_messages lib (map le_message es) CODEC_RICH_TEMPLATE level = Inr (CODEC_RICH_TEMPLATE, c2)"
    using encode_columns_typed [OF e(5) typed] cr(1) by blast
  then have "encode_template_str lib (map le_message es) level = Inr c2" by (auto simp: encode_messages_def codec_ids split: if_split_asm)
  then obtain sr where "encode_mode lib (map le_message es) sr level = Inr c2" using encode_template_cases by blast
  from filtered_encoded [OF ok(1) block_fits_strs(2) [OF fit refl] this n]
  obtain fm where fm: "decode_template_str_filtered lib c2 (length es) needle = Inr fm"
      "fm_rows fm = filter (\<lambda>(_, m). contains_ci m needle) (enumerate 0 (map le_message es))" "fm_candidate_rows fm \<le> length es" by auto
  let ?rows = "matching_rows lower needle (map (stored_entry js) es)"
  have m: "?rows = filter (\<lambda>(_, e). contains_ci (le_message e) needle) (enumerate 0 (map (stored_entry js) es))"
    unfolding matching_rows_def by (simp only: message_contains_ascii [OF n(1,2)])
  have m': "?rows = filter (\<lambda>(_, e). contains_ci (le_message e) needle) (enumerate 0 (map rich_entry
      (zip (map le_ts es) (zip (map le_level es) (zip (map le_message es) (map (stored_rich js) es))))))"
    unfolding m by (simp only: stored_entries_zip)
  have "zstd_decompress lib c3 ''rich metadata column'' = Inr raw"
    using c(5) rows(3) ok(1) by (simp add: zstd_compress_def zstd_roundtrip_default codec_ids)
  moreover have "rich_walk js (map le_ts es) (map le_level es) (fm_rows fm) 0 (length es) (reader_new raw) = Inr (?rows, adv (length raw) (reader_new raw))"
    using rich_walk_ok [OF _ _ rows(2), of "reader_new raw" "[]" "map le_message es" 0 "map le_ts es" "map le_level es" "\<lambda>m. contains_ci m needle"] rows(1,3)
    unfolding m' fm(2) by (simp add: DECOMPRESS_MAX_BYTES_def machine_limits)
  moreover have "?rows = []" if "fm_rows fm = []" using that unfolding m fm(2) filter_stored_messages [of _ 0 es js] by simp
  ultimately show ?thesis
    using codec cols fm c(1,2) n levels_check [OF e(3)] range_check [OF e(1), of "''block''"]
    by (simp add: decode_block_filtered_def Let_def reader_remaining_rest)
qed

end
