(* ===== verification/BlockSearch.thy ===== *)
theory BlockSearch
  imports RichTrip
begin

section \<open>Searching blocks\<close>

text \<open>
  The pre-decode check \<open>block_message_feasible\<close>: exact on string columns, never wrong to say no on the
  blocks the encoder writes.
\<close>

subsection \<open>String columns\<close>

lemma read_column_frame_name: "read_column_frame b w = Inr x \<Longrightarrow> read_column_frame b w' = Inr x"
  by (auto simp: read_column_frame_def reader_fields_eq reader_fields_eq reader_take_eq split: if_split_asm)

lemma zstd_capped_name: "zstd_decompress_capped lib c w cap = Inr d \<Longrightarrow> zstd_decompress_capped lib c w' cap = Inr d"
  by (simp add: zstd_decompress_capped_def)

lemma scan_strs_read:
  "read_strs ''string length'' ''string bytes'' uw i k r = Inr (ss, r') \<Longrightarrow> reader_remaining r' = 0 \<Longrightarrow>
   scan_strs contains j found r = Inr (j + k, found \<or> list_ex contains ss)"
proof (induction k arbitrary: i r ss j found)
  case 0
  then show ?case by (subst scan_strs.simps) simp
next
  case (Suc k)
  then obtain len r1 s r2 ss' where s: "reader_u32 r ''string length'' = Inr (len, r1)" "reader_take r1 (unat len) ''string bytes'' = Inr (s, r2)"
      "valid_utf8 s" "read_strs ''string length'' ''string bytes'' uw (Suc i) k r2 = Inr (ss', r')" "ss = s # ss'"
    by (auto simp: from_utf8_def split: if_split_asm)
  have "0 < reader_remaining r" using reader_u32_remaining [OF s(1)] by simp
  then show ?case
    using Suc.IH [OF s(4) Suc.prems(2), of "Suc j" "found \<or> contains s"] s
    by (subst scan_strs.simps) (simp add: from_utf8_def)
qed

lemma codes_found_expand:
  "codes_total n (length dict) e ps = Inr tot \<Longrightarrow> codes_expand dict ps = Inr ss \<Longrightarrow>
   codes_found n (map contains dict) e found ps = Inr (tot, found \<or> list_ex contains ss)"
proof (induction ps arbitrary: e ss found)
  case (Cons p ps)
  then obtain xs ys where x: "collect_r (\<lambda>_. index_r ''dict[code]'' dict (pair_code p)) [0..<pair_run p] = Inr xs"
      "codes_expand dict ps = Inr ys" "ss = xs @ ys" by auto
  have p: "pair_code p < length dict" "0 < pair_run p" "codes_total n (length dict) (e + pair_run p) ps = Inr tot"
    using Cons.prems(1) by (auto simp: not_le split: if_split_asm)
  have "xs = map (\<lambda>_. dict ! pair_code p) [0..<pair_run p]"
    using x(1) p(1) collect_r_map [of "[0..<pair_run p]" "\<lambda>_. index_r ''dict[code]'' dict (pair_code p)" "\<lambda>_. dict ! pair_code p"]
    by (simp add: index_r_def)
  then have "list_ex contains xs = contains (dict ! pair_code p)" using p(2) by (auto simp: list_ex_iff)
  then show ?case
    using Cons.IH [OF p(3) x(2)] Cons.prems(1) x(3) p
    by (cases found) (auto simp: list_ex_append split: if_split_asm)
qed simp

lemma columnar_feasible_exact:
  assumes "decode_str lib b n = Inr ms"
  shows "columnar_message_feasible lib b n contains = Inr (list_ex contains ms)"
proof -
  obtain enc payload where f: "read_column_frame b ''string column'' = Inr (enc, payload)"
    using assms by (auto simp: decode_str_def)
  note fm = read_column_frame_name [OF f, of "''message column''"]
  consider (zstd) "enc = ENC_STR_ZSTD" | (dict) "enc \<noteq> ENC_STR_ZSTD" "enc = ENC_STR_DICT"
    using assms f by (auto simp: decode_str_def split: if_split_asm)
  then show ?thesis
  proof cases
    case zstd
    then obtain raw r where r: "zstd_decompress_capped lib payload ''string column'' DECOMPRESS_MAX_BYTES = Inr raw"
        "read_strs ''string length'' ''string bytes'' ''string column'' 0 n (reader_new raw) = Inr (ms, r)" "reader_remaining r = 0"
      using assms f by (auto simp: decode_str_def split: if_split_asm)
    show ?thesis
      using fm zstd zstd_capped_name [OF r(1)] scan_strs_read [OF r(2,3), of contains 0 False] by (simp add: columnar_message_feasible_def)
  next
    case dict
    then obtain ks codes pairs where d: "read_dict lib payload = Inr (ks, codes)" "read_codes lib codes = Inr pairs"
        "codes_total n (length ks) 0 pairs = Inr n" "codes_expand ks pairs = Inr ms"
      using assms f by (auto simp: decode_str_def split: if_split_asm)
    from d(1) obtain dc r1 dl r2 dz r3 r4 dr dr' where
      h: "reader_u32 (reader_new payload) ''dict count'' = Inr (dc, r1)" "reader_u32 r1 ''dict zstd length'' = Inr (dl, r2)"
        "reader_take r2 (unat dl) ''dict bytes'' = Inr (dz, r3)" "reader_take r3 (reader_remaining r3) ''code bytes'' = Inr (codes, r4)"
        "zstd_bulk_decompress lib dz DECOMPRESS_MAX_BYTES = Some dr"
        "read_strs ''dict entry length'' ''dict entry bytes'' ''string column: dict entry'' 0 (unat dc) (reader_new dr) = Inr (ks, dr')"
        "reader_remaining dr' = 0"
      by (auto simp: read_dict_def zstd_decompress_capped_def split: if_split_asm)
    from d(2) obtain cr where "zstd_bulk_decompress lib codes DECOMPRESS_MAX_BYTES = Some cr" "length cr mod 8 = 0" "pairs = as_chunks 8 cr"
      by (auto simp: read_codes_def zstd_decompress_capped_def split: if_split_asm)
    then show ?thesis
      unfolding columnar_message_feasible_def zstd_decompress_capped_def
      using fm dict h codes_found_expand [OF d(3,4), of contains False] by simp
  qed
qed
subsection \<open>Written blocks\<close>

lemma block_feasible_container:
  assumes "columns_fit c0 c1 c2 c3" "n \<le> MAX_BLOCK_ENTRIES" "known_codec codec" "needle \<noteq> []" "is_ascii needle"
  shows "block_message_feasible lib (block_bytes codec n lo hi c0 c1 c2 c3) needle =
    (if codec = CODEC_RICH_TEMPLATE then column_may_contain lib c2 needle
     else if codec \<in> {CODEC_RAW, CODEC_RICH_RAW} then Inr (any_window_ci c2 needle)
     else if codec = CODEC_ZSTD then and_then (zstd_decompress lib c2 ''message column'') (\<lambda>raw. Inr (any_window_ci raw needle))
     else columnar_message_feasible lib c2 n (\<lambda>s. any_window_ci s needle))"
proof -
  define r where "r = adv HEADER_LEN (reader_new (block_bytes codec n lo hi c0 c1 c2 c3))"
  have "reader_wf r" "rest r = c0 @ c1 @ c2 @ c3" unfolding r_def by (rule block_columns_reader [OF assms(1)])+
  moreover have "read_block_lens (adv 2 (reader_new (block_bytes codec n lo hi c0 c1 c2 c3))) =
      Inr ((n, lo, hi, length c0, length c1, length c2, length c3), r)"
    unfolding r_def by (rule read_block_lens_container [OF assms(1,2)])
  ultimately show ?thesis
    unfolding block_message_feasible_def read_block_codec_container [OF assms(1)] using assms(3-5)
    by (simp add: reader_take_ok del: insert_iff)
qed

lemma read_strs_within:
  "read_strs lw bw uw i k r = Inr (ss, r') \<Longrightarrow> s \<in> set ss \<Longrightarrow> \<exists>x y. rd_buf r = x @ s @ y"
proof (induction k arbitrary: i r ss)
  case (Suc k)
  then obtain len r1 b r2 ss' where s: "reader_u32 r lw = Inr (len, r1)" "reader_take r1 (unat len) bw = Inr (b, r2)"
      "read_strs lw bw uw (Suc i) k r2 = Inr (ss', r')" "ss = b # ss'"
    by (auto simp: from_utf8_def split: if_split_asm)
  have buf: "rd_buf r1 = rd_buf r" "rd_buf r2 = rd_buf r" using s(1,2) by (auto simp: reader_fields_eq reader_take_Inr adv_def)
  have "rd_buf r1 = take (rd_pos r1) (rd_buf r1) @ b @ drop (unat len) (rest r1)"
  proof -
    have "b = take (unat len) (rest r1)" using s(2) by (simp add: reader_take_Inr)
    then have "b @ drop (unat len) (rest r1) = drop (rd_pos r1) (rd_buf r1)" by (simp only: append_take_drop_id rest_def)
    then show ?thesis by (simp only: append_take_drop_id)
  qed
  then show ?case using Suc.IH [OF s(3)] Suc.prems(2) s(4) buf by (metis set_ConsD)
qed simp

lemma legacy_messages_within:
  "legacy_messages PROJECTION_ALL n c = Inr ms \<Longrightarrow> m \<in> set ms \<Longrightarrow> \<exists>x y. c = x @ m @ y"
  by (auto simp: legacy_messages_def PROJECTION_ALL_simps reader_new_def dest!: read_strs_within split: if_split_asm) blast

lemma any_window_within: "any_window_ci m needle \<Longrightarrow> any_window_ci (x @ m @ y) needle"
  unfolding any_window_ci_iff by (metis append.assoc)
lemma typed_feasible:
  assumes ok: "codec_lib_ok lib" and fit: "block_fits js codec es" and typed: "typed_codec codec"
    and enc: "encode_columns lib es codec level raw = Inr (codec', [c0, c1, c2, c3])"
    and e: "e \<in> set es" "any_window_ci (le_message e) needle" and short: "inner_runs_short needle"
  shows "(if codec' = CODEC_RICH_TEMPLATE then column_may_contain lib c2 needle
      else columnar_message_feasible lib c2 (length es) (\<lambda>s. any_window_ci s needle)) = Inr True"
proof (cases "codec' = CODEC_RICH_TEMPLATE")
  case True
  have "encode_messages lib (map le_message es) codec level = Inr (codec', c2)" using encode_columns_typed [OF enc typed] by blast
  then have "encode_template_str lib (map le_message es) level = Inr c2" and tpl: "codec = CODEC_RICH_TEMPLATE"
    using True typed_columns(4) [OF ok fit typed enc] by (auto simp: encode_messages_def codec_ids split: if_split_asm)
  then obtain sr where "encode_mode lib (map le_message es) sr level = Inr c2" using encode_template_cases by blast
  from column_may_contain_encoded [OF ok block_fits_strs(2) [OF fit tpl] this _ _ short, of "le_message e"] True show ?thesis
    using e by (simp add: contains_ci_def)
next
  case False
  then have "decode_str lib c2 (length es) = Inr (map le_message es)" using typed_columns(3) [OF ok fit typed enc] by simp
  from columnar_feasible_exact [OF this, of "\<lambda>s. any_window_ci s needle"] False show ?thesis using e by (auto simp: list_ex_iff)
qed

lemma legacy_feasible:
  assumes d: "legacy_columns lib codec (block_of es c0 c1 c2 c3) PROJECTION_ALL = Inr (d0, d1, d2, raw)"
      "legacy_messages PROJECTION_ALL (length es) d2 = Inr (map le_message es)"
    and codec: "known_codec codec" "\<not> typed_codec codec" and e: "e \<in> set es" "any_window_ci (le_message e) needle"
  shows "codec = CODEC_ZSTD \<and> and_then (zstd_decompress lib c2 ''message column'') (\<lambda>raw. Inr (any_window_ci raw needle)) = Inr True \<or>
    codec \<in> {CODEC_RAW, CODEC_RICH_RAW} \<and> codec \<noteq> CODEC_ZSTD \<and> any_window_ci c2 needle"
proof -
  obtain x y where "d2 = x @ le_message e @ y" using legacy_messages_within [OF d(2), of "le_message e"] e(1) by auto
  then have "any_window_ci d2 needle" using any_window_within [OF e(2)] by simp
  then show ?thesis
    using d(1) codec by (auto simp: legacy_columns_def PROJECTION_ALL_simps known_codec_def typed_codec_def split: if_split_asm)
qed

lemma written_block_feasible:
  assumes ok: "codec_lib_ok lib" and fit: "block_fits js codec es" and enc: "encode_block lib js es codec level = Inr (b, meta)"
    and e: "e \<in> set es" "message_contains_ci lower (le_message e) needle" and short: "inner_runs_short needle"
  shows "block_message_feasible lib b needle = Inr True"
proof (cases "needle = [] \<or> \<not> is_ascii needle")
  case True
  then show ?thesis by (auto simp: block_message_feasible_def)
next
  case n: False
  then have m: "any_window_ci (le_message e) needle" and n': "needle \<noteq> []" "is_ascii needle" using e(2) by (auto simp: message_contains_ci_def)
  from enc show ?thesis
  proof (rule encode_blockE)
    fix codec' raw c0 c1 c2 c3
    assume k: "known_codec codec"
      "(if rich_codec codec then serialize_rich_metadata js es else serialize_metadata es) = Inr raw"
      "encode_columns lib es codec level raw = Inr (codec', [c0, c1, c2, c3])" "columns_fit c0 c1 c2 c3"
      "b = block_bytes codec' (length es) (Min (le_ts ` set es)) (Max (le_ts ` set es)) c0 c1 c2 c3"
    have n_es: "length es \<le> MAX_BLOCK_ENTRIES" and raw: "length raw \<le> DECOMPRESS_MAX_BYTES"
      using fit k(2) by (simp_all add: block_fits_def)
    show ?thesis
    proof (cases "typed_codec codec")
      case True
      have k': "known_codec codec'" "codec' \<notin> {CODEC_RAW, CODEC_RICH_RAW}" "codec' \<noteq> CODEC_ZSTD"
        using typed_columns(4) [OF ok fit True k(3)] True by (auto simp: known_codec_def typed_codec_def codec_ids)
      show ?thesis
        unfolding k(5) block_feasible_container [OF k(4) n_es k'(1) n'] if_not_P [OF k'(2)] if_not_P [OF k'(3)]
        by (rule typed_feasible [OF ok fit True k(3) e(1) m short])
    next
      case False
      obtain d0 d2 where d: "codec' = codec" "legacy_columns lib codec (block_of es c0 c1 c2 c3) PROJECTION_ALL = Inr (d0, map le_level es, d2, raw)"
        "legacy_messages PROJECTION_ALL (length es) d2 = Inr (map le_message es)"
        by (rule legacy_columns_written [OF ok fit k(1) False raw k(3) n_es])
      have "codec \<noteq> CODEC_RICH_TEMPLATE" using False by (auto simp: typed_codec_def)
      then show ?thesis
        unfolding k(5) d(1) block_feasible_container [OF k(4) n_es k(1) n']
        using legacy_feasible [OF d(2,3) k(1) False e(1) m] by (elim disjE conjE) (simp_all add: codec_ids)
    qed
  qed
qed

end
