(* ===== verification/BlockClaims.thy ===== *)
theory BlockClaims
  imports BlockSearch
begin

section \<open>What blocks promise\<close>

text \<open>
  The properties of \<open>encode_block\<close> and the decoders of blocks, with examples over the storing compressor.
\<close>

subsection \<open>Examples\<close>

definition example_entry :: log_entry where
  "example_entry = \<lparr>le_ts = I64 5, le_level = 1, le_severity = None, le_message = str_lit ''x42'', le_metadata = [(str_lit ''host'', str_lit ''a'')],
     le_metadata_json = None\<rparr>"

lemma example_entry_sel [simp]:
  "le_ts example_entry = I64 5" "le_level example_entry = 1" "le_severity example_entry = None" "le_message example_entry = str_lit ''x42''"
  "le_metadata example_entry = [(str_lit ''host'', str_lit ''a'')]" "le_metadata_json example_entry = None"
  by (simp_all add: example_entry_def)

lemma example_not_rich [simp]: "\<not> is_rich example_entry"
  by (simp add: is_rich_def)

text \<open>Raw blocks of copies of the example entry.\<close>

lemma example_metadata: "serialize_metadata (replicate n example_entry) = Inr (concat (replicate n (md_rec (le_metadata example_entry))))"
proof -
  have s: "serialize_pairs (le_metadata example_entry) = Inr (md_rec (le_metadata example_entry))"
    unfolding serialize_pairs_Inr by (simp add: machine_limits str_lit_def)
  have "collect_r (\<lambda>e. serialize_pairs (le_metadata e)) (replicate n example_entry) = Inr (map (\<lambda>e. md_rec (le_metadata e)) (replicate n example_entry))"
    by (rule collect_r_map) (use s in simp)
  then show ?thesis by (simp only: serialize_metadata_def and_then.simps map_replicate)
qed

lemma concat_replicate_length: "length (concat (replicate n xs)) = n * length xs"
  by (induction n) auto

lemma strs_size_replicate: "strs_size (replicate n s) = n * (4 + length s)"
  by (induction n) auto

lemma example_raw_block:
  assumes "0 < n" "n \<le> 2000000"
  shows "\<exists>b meta. encode_block lib js (replicate n example_entry) CODEC_RAW level = Inr (b, meta)"
proof -
  let ?es = "replicate n example_entry" and ?raw = "concat (replicate n (md_rec (le_metadata example_entry)))"
  have msgs: "len_prefixed_all (map le_message ?es) = Inr (concat (map str_rec (map le_message ?es)))"
    unfolding len_prefixed_all_Inr by (simp add: machine_limits str_lit_def)
  have cols: "encode_columns lib ?es CODEC_RAW level ?raw =
      Inr (CODEC_RAW, [concat (map i64_le (map le_ts ?es)), map le_level ?es, concat (map str_rec (map le_message ?es)), ?raw])"
    using msgs by (simp add: encode_columns_def typed_codec_def is_raw_codec_def codec_ids Let_def)
  have "length (concat (map i64_le (map le_ts ?es))) \<le> U32_MAX" "length (map le_level ?es) \<le> U32_MAX" "length ?raw \<le> U32_MAX"
      "length (concat (map str_rec (map le_message ?es))) \<le> U32_MAX"
    using assms(2) unfolding length_concat_str_rec
    by (simp_all add: concat_replicate_length strs_size_replicate map_replicate md_rec_def str_lit_def machine_limits pair_rec_def)
  then have "\<exists>lens. collect_r column_len [concat (map i64_le (map le_ts ?es)), map le_level ?es, concat (map str_rec (map le_message ?es)), ?raw] = Inr lens"
    by (simp add: column_len_def)
  then show ?thesis
    using assms cols by (auto simp: encode_block_def Let_def known_codec_def rich_codec_def example_metadata list_ex_iff machine_limits codec_ids)
qed
lemma example_fits: "n \<le> 1000 \<Longrightarrow> block_fits js CODEC_RAW (replicate n example_entry)"
  by (simp add: block_fits_def rich_codec_def codec_ids example_metadata strs_size_replicate concat_replicate_length md_rec_def pair_rec_def
      str_lit_def MAX_BLOCK_ENTRIES_def DECOMPRESS_MAX_BYTES_def pairs_utf8_def is_ascii_valid is_ascii_def map_replicate list_all_iff)

lemma example_written:
  obtains b meta where "encode_block stored_lib stored_json [example_entry] CODEC_RAW 7 = Inr (b, meta)"
    "block_fits stored_json CODEC_RAW [example_entry]" "decode_block stored_lib stored_json b = Inr [example_entry]"
proof -
  obtain b meta where b: "encode_block stored_lib stored_json [example_entry] CODEC_RAW 7 = Inr (b, meta)"
    using example_raw_block [of 1 stored_lib stored_json 7] by auto
  have fits: "block_fits stored_json CODEC_RAW [example_entry]" using example_fits [of 1 stored_json] by simp
  have "\<not> rich_codec CODEC_RAW" by (simp add: rich_codec_def codec_ids)
  from that [OF b fits decode_encode_plain [OF stored_lib_ok fits this b]] show thesis .
qed

subsection \<open>Round trips\<close>

text \<open>
  C1. The plain codecs (raw, zstd, columnar, columnar with shredded metadata) give back exactly the entries
  that were written, in order, when the block stays within the decoders' limits: at most 1,048,576
  entries, at most 64 MiB of messages (each with its four-byte length) and at most 64 MiB of serialized
  metadata, all text being UTF-8.
\<close>

theorem block_roundtrip:
  assumes "codec_lib_ok lib" "block_fits js codec es" "\<not> rich_codec codec"
    and "encode_block lib js es codec level = Inr (b, meta)"
  shows "decode_block lib js b = Inr es"
  by (rule decode_encode_plain [OF assms])

theorem block_roundtrip_witness:
  "\<exists>b meta. encode_block stored_lib stored_json [example_entry] CODEC_RAW 7 = Inr (b, meta) \<and>
     decode_block stored_lib stored_json b = Inr [example_entry]"
proof (rule example_written)
  fix b meta
  assume b: "encode_block stored_lib stored_json [example_entry] CODEC_RAW 7 = Inr (b, meta)" "block_fits stored_json CODEC_RAW [example_entry]"
  have "\<not> rich_codec CODEC_RAW" by (simp add: rich_codec_def codec_ids)
  from block_roundtrip [OF stored_lib_ok b(2) this b(1)] b(1) show ?thesis by blast
qed

text \<open>The example with the rich columnar codecs.\<close>

lemma example_rich:
  shows "rich_entry_ok js example_entry"
    and "block_fits stored_json CODEC_RICH_TEMPLATE [example_entry]"
    and "codec \<in> {CODEC_RICH_COLUMNAR, CODEC_RICH_TEMPLATE} \<Longrightarrow>
      \<exists>b meta. encode_block stored_lib stored_json [example_entry] codec 7 = Inr (b, meta)"
proof -
  show "rich_entry_ok js example_entry" by (simp add: rich_entry_ok_def)
  have sev: "severity_name example_entry = Inr (str_lit ''info'')" by (simp add: severity_name_def level_name_def LEVEL_NAMES_def index_r_def)
  have obj: "entry_json stored_json example_entry = Inr (print_json (JObject [(str_lit ''host'', JString (str_lit ''a''))]))"
    by (simp add: entry_json_def pairs_metadata_json_def bt_collect_def)
  have len: "length (print_json (JObject [(str_lit ''host'', JString (str_lit ''a''))])) = 16" by (simp add: str_lit_def)
  have ser: "\<exists>raw. serialize_rich_metadata stored_json [example_entry] = Inr raw \<and> length raw \<le> 100"
    using sev obj len by (auto simp: serialize_rich_metadata_def serialize_rich_entry_def machine_limits str_lit_def)
  then show "block_fits stored_json CODEC_RICH_TEMPLATE [example_entry]"
    using stored_template_example(1) by (auto simp: block_fits_def rich_codec_def MAX_BLOCK_ENTRIES_def DECOMPRESS_MAX_BYTES_def
      pairs_utf8_def str_lit_def is_ascii_valid is_ascii_def)
  obtain raw where raw: "serialize_rich_metadata stored_json [example_entry] = Inr raw" "length raw \<le> 100" using ser by blast
  obtain t where t: "encode_template_str stored_lib [str_lit ''x42''] 7 = Inr t" using stored_template_example(3) by blast
  obtain m where m: "and_then (encode_str stored_lib [str_lit ''x42''] (length [str_lit ''x42'']) 7) to_bytes = Inr m" "length m = 5 + strs_size [str_lit ''x42'']"
    using stored_str_column [of "[str_lit ''x42'']" 7] by (auto simp: machine_limits str_lit_def simp del: to_bytes_Inr)
  obtain c0 where c0: "and_then (encode_i64 stored_lib [I64 5] 7) to_bytes = Inr c0" "length c0 = 13"
    using stored_i64_column [of "[I64 5]" 7] by (auto simp: machine_limits simp del: to_bytes_Inr)
  obtain c1 where c1: "and_then (encode_u8 stored_lib [1] 7) to_bytes = Inr c1" "length c1 \<le> 6"
    using stored_u8_column [of "[1]" 7] by (auto simp: machine_limits simp del: to_bytes_Inr)
  show "\<exists>b meta. encode_block stored_lib stored_json [example_entry] codec 7 = Inr (b, meta)"
    if "codec \<in> {CODEC_RICH_COLUMNAR, CODEC_RICH_TEMPLATE}"
  proof -
    have "length m = 12" using m(2) by (simp add: str_lit_def)
    then have "\<exists>cd c2. encode_messages stored_lib [str_lit ''x42''] codec 7 = Inr (cd, c2) \<and> length c2 \<le> 12"
      unfolding encode_messages_def m(1) using t by (cases "codec = CODEC_RICH_TEMPLATE"; cases "length t < length m") auto
    then obtain cd c2 where c2: "encode_messages stored_lib [str_lit ''x42''] codec 7 = Inr (cd, c2)" "length c2 \<le> 12" by blast
    have "encode_columns stored_lib [example_entry] codec 7 raw = Inr (cd, [c0, c1, c2, raw])"
      using c0(1) c1(1) c2(1) that by (auto simp: encode_columns_def typed_codec_def codec_ids Let_def simp del: to_bytes_Inr)
    moreover have "\<exists>lens. collect_r column_len [c0, c1, c2, raw] = Inr lens"
      using c0(2) c1(2) c2(2) raw(2) by (simp add: column_len_def machine_limits)
    ultimately show ?thesis
      using raw(1) that by (auto simp: encode_block_def Let_def known_codec_def rich_codec_def machine_limits)
  qed
qed

text \<open>
  C2. The rich codecs (raw, columnar, template) give back the entries with their severity named and their
  metadata in canonical form; the rest of an entry, and canonical metadata, come back as they were.
  This holds within the decoders' limits (at most 1,048,576 entries, 64 MiB of serialized metadata, and
  64 MiB of messages or 8 MiB of them for the template codec), for entries whose severity is one of the
  known names and whose JSON metadata, if any, is an object of depth at most 127 without floats: that
  floats are read back as they were printed is not assumed of the JSON library.
\<close>

theorem rich_block_roundtrip:
  assumes "codec_lib_ok lib" "json_lib_ok js" "block_fits js codec es" "rich_codec codec" "list_all (rich_entry_ok js) es"
    and "encode_block lib js es codec level = Inr (b, meta)"
  shows "decode_block lib js b = Inr (map (stored_entry js) es) \<and>
    (\<forall>e \<in> set es. le_metadata_json e = None \<longrightarrow> bt_wf (le_metadata e) \<longrightarrow> le_metadata (stored_entry js e) = le_metadata e)"
  using decode_encode_rich [OF assms] stored_entry_metadata by blast

theorem rich_block_roundtrip_witness:
  "\<exists>b meta. encode_block stored_lib stored_json [example_entry] CODEC_RICH_TEMPLATE 7 = Inr (b, meta) \<and>
     decode_block stored_lib stored_json b = Inr [stored_entry stored_json example_entry] \<and>
     le_metadata (stored_entry stored_json example_entry) = [(str_lit ''host'', str_lit ''a'')]"
proof -
  obtain b meta where b: "encode_block stored_lib stored_json [example_entry] CODEC_RICH_TEMPLATE 7 = Inr (b, meta)" using example_rich(3) [of CODEC_RICH_TEMPLATE] by blast
  have "rich_codec CODEC_RICH_TEMPLATE" "list_all (rich_entry_ok stored_json) [example_entry]"
    using example_rich(1) by (simp_all add: rich_codec_def)
  from rich_block_roundtrip [OF stored_lib_ok stored_json_ok example_rich(2) this b] b show ?thesis by (simp add: bt_wf_def)
qed

text \<open>
  C6. A projected decode is the projection of the full decode: whatever columns a query leaves out, the
  rows, their order and the columns it asks for are those of the full decode.
\<close>

theorem projected_decode:
  assumes "decode_block lib js b = Inr es"
  shows "decode_block_projected lib js b p = Inr (map (project_entry p) es)"
  by (rule decode_block_project [OF assms])

theorem projected_decode_witness:
  "\<exists>b e. decode_block stored_lib stored_json b = Inr [example_entry] \<and>
     decode_block_projected stored_lib stored_json b \<lparr>lp_message = False, lp_metadata = True, lp_metadata_pairs = True, lp_severity = True\<rparr> = Inr [e] \<and>
     le_message e = [] \<and> le_metadata e = le_metadata example_entry"
proof (rule example_written)
  fix b
  assume "decode_block stored_lib stored_json b = Inr [example_entry]"
  from projected_decode [OF this] this show ?thesis by (auto simp: project_entry_def)
qed

text \<open>
  C7. What a block decodes to is well formed whatever its bytes were: as many entries as the header claims,
  never more than the limit, levels and severities that exist, UTF-8 messages, all entries rich or none as
  the codec says, and the header's range is exactly the range of the timestamps.
\<close>

theorem decoded_block_well_formed:
  assumes "codec_lib_ok lib" "decode_block lib js b = Inr es"
  shows "\<exists>codec r bc. read_block_codec b = Inr (codec, r) \<and> read_block_columns r = Inr bc \<and>
    length es = bc_n bc \<and> bc_n bc \<le> MAX_BLOCK_ENTRIES \<and> list_all entry_ok es \<and>
    list_all (\<lambda>e. is_rich e = rich_codec codec) es \<and>
    (es = [] \<or> bc_ts_min bc = Min (le_ts ` set es) \<and> bc_ts_max bc = Max (le_ts ` set es))"
  by (rule decode_block_ok [OF assms])

theorem decoded_block_well_formed_witness:
  "\<exists>b codec r bc. decode_block stored_lib stored_json b = Inr [example_entry] \<and> read_block_codec b = Inr (codec, r) \<and>
     read_block_columns r = Inr bc \<and> bc_n bc = 1 \<and> bc_ts_min bc = I64 5 \<and> bc_ts_max bc = I64 5 \<and> entry_ok example_entry"
proof (rule example_written)
  fix b
  assume "decode_block stored_lib stored_json b = Inr [example_entry]"
  with decoded_block_well_formed [OF stored_lib_ok this] show ?thesis by auto
qed
subsection \<open>Searching\<close>

text \<open>What a block decodes to, for every codec.\<close>

definition stored_block :: "json_lib \<Rightarrow> byte \<Rightarrow> log_entry list \<Rightarrow> log_entry list" where
  "stored_block js codec es = (if rich_codec codec then map (stored_entry js) es else es)"

definition entries_storable :: "json_lib \<Rightarrow> byte \<Rightarrow> log_entry list \<Rightarrow> bool" where
  "entries_storable js codec es \<longleftrightarrow> block_fits js codec es \<and> (rich_codec codec \<longrightarrow> list_all (rich_entry_ok js) es)"

lemma decode_stored_block:
  assumes "codec_lib_ok lib" "json_lib_ok js" "entries_storable js codec es" "encode_block lib js es codec level = Inr (b, meta)"
  shows "decode_block lib js b = Inr (stored_block js codec es)"
  using decode_encode_plain [of lib js codec es level b meta] decode_encode_rich [of lib js codec es level b meta] assms
  by (auto simp: stored_block_def entries_storable_def)

lemma filtered_stored_block:
  assumes ok: "codec_lib_ok lib" "json_lib_ok js" and st: "entries_storable js codec es"
    and enc: "encode_block lib js es codec level = Inr (b, meta)" and short: "inner_runs_short needle"
  shows "\<exists>fb. decode_block_filtered lib js lower b needle = Inr fb \<and> fb_rows fb = matching_rows lower needle (stored_block js codec es) \<and>
    fb_total_rows fb = length es \<and> fb_candidate_rows fb \<le> length es"
proof -
  note dec = decode_stored_block [OF ok st enc]
  have fallback: ?thesis if "decode_block_filtered lib js lower b needle = full_fallback lib js lower b needle"
    using dec by (simp add: that full_fallback_def matching_rows_def stored_block_def)
  obtain cd r where r: "read_block_codec b = Inr (cd, r)" using dec by (auto elim: decode_blockE)
  show ?thesis
  proof (cases "needle = [] \<or> \<not> is_ascii needle \<or> cd \<noteq> CODEC_RICH_TEMPLATE")
    case True
    then show ?thesis using r by (intro fallback) (auto simp: decode_block_filtered_def)
  next
    case False
    from enc obtain raw c0 c1 c2 c3 codec' where e: "encode_columns lib es codec level raw = Inr (codec', [c0, c1, c2, c3])" "columns_fit c0 c1 c2 c3"
        "b = block_bytes codec' (length es) (Min (le_ts ` set es)) (Max (le_ts ` set es)) c0 c1 c2 c3" by (rule encode_blockE)
    have cd: "codec' = CODEC_RICH_TEMPLATE" using read_block_codec_container [OF e(2)] r False unfolding e(3) by simp
    have fit: "block_fits js codec es" using st by (simp add: entries_storable_def)
    have "codec = CODEC_RICH_TEMPLATE"
    proof (cases "typed_codec codec")
      case True
      then show ?thesis using typed_columns(4) [OF ok(1) fit True e(1)] cd by (auto simp: codec_ids)
    next
      case False
      then show ?thesis using e(1) cd by (auto simp: encode_columns_def Let_def split: if_split_asm)
    qed
    then show ?thesis
      using filtered_template_block [OF ok, of es level b meta r needle lower] st enc r False short
      by (simp add: stored_block_def entries_storable_def rich_codec_def)
  qed
qed

text \<open>
  C4. The row-skipping decode of a written block returns exactly the entries of the full decode whose
  message contains the needle, with their row numbers, for every codec and for ASCII and Unicode needles
  whose inner digit runs have at most 19 digits; it reports the true number of rows. The blocks are those
  within the decoders' limits (at most 1,048,576 entries, 64 MiB of serialized metadata, 64 MiB of
  messages or 8 MiB of them for the template codec); with a rich codec the severities are known names
  and JSON metadata is an object of depth at most 127 without floats.
\<close>

theorem filtered_block_exact:
  assumes "codec_lib_ok lib" "json_lib_ok js" "entries_storable js codec es" "encode_block lib js es codec level = Inr (b, meta)"
    and "list_all (\<lambda>run. length run \<le> 19) (np_inner_runs (needle_parts_of needle))"
  shows "\<exists>fb. decode_block_filtered lib js lower b needle = Inr fb \<and> decode_block lib js b = Inr (stored_block js codec es) \<and>
    fb_rows fb = filter (\<lambda>(_, e). message_contains_ci lower (le_message e) needle) (enumerate 0 (stored_block js codec es)) \<and>
    fb_total_rows fb = length es \<and> fb_candidate_rows fb \<le> length es"
  using filtered_stored_block [OF assms(1-4), of needle lower] decode_stored_block [OF assms(1-4)] assms(5)
  by (simp add: inner_runs_short_def matching_rows_def)
lemma example_needle:
  "list_all (\<lambda>run. length run \<le> 19) (np_inner_runs (needle_parts_of (str_lit ''X4'')))" "message_contains_ci lower (str_lit ''x42'') (str_lit ''X4'')"
proof -
  have "snd (parts_loop True (str_lit ''X4'')) = []" by code_simp
  then show "list_all (\<lambda>run. length run \<le> 19) (np_inner_runs (needle_parts_of (str_lit ''X4'')))" by (simp add: needle_parts_of_def)
  have "str_lit ''X4'' \<noteq> [] \<and> is_ascii (str_lit ''X4'') \<and> any_window_ci (str_lit ''x42'') (str_lit ''X4'')" by code_simp
  then show "message_contains_ci lower (str_lit ''x42'') (str_lit ''X4'')" by (simp add: message_contains_ci_def)
qed

lemma example_storable: "entries_storable stored_json CODEC_RICH_TEMPLATE [example_entry]"
  using example_rich(1,2) by (simp add: entries_storable_def)

theorem filtered_block_exact_witness:
  "\<exists>b meta fb. encode_block stored_lib stored_json [example_entry] CODEC_RICH_TEMPLATE 7 = Inr (b, meta) \<and>
     decode_block_filtered stored_lib stored_json id b (str_lit ''X4'') = Inr fb \<and> fb_rows fb = [(0, stored_entry stored_json example_entry)]"
proof -
  obtain b meta where b: "encode_block stored_lib stored_json [example_entry] CODEC_RICH_TEMPLATE 7 = Inr (b, meta)" using example_rich(3) [of CODEC_RICH_TEMPLATE] by blast
  from filtered_block_exact [OF stored_lib_ok stored_json_ok example_storable b example_needle(1), of id] b show ?thesis
    by (auto simp: stored_block_def rich_codec_def example_needle(2))
qed

text \<open>
  C5. The pre-decode check answers true for a written block that holds a match, whatever the codec, when
  the inner digit runs of the needle have at most 19 digits and the block is within the decoders' limits
  (at most 1,048,576 entries, 64 MiB of serialized metadata, 64 MiB of messages or 8 MiB of them for the
  template codec).
\<close>

theorem block_check_sound:
  assumes "codec_lib_ok lib" "block_fits js codec es" "encode_block lib js es codec level = Inr (b, meta)"
    and "e \<in> set es" "message_contains_ci lower (le_message e) needle"
    and "list_all (\<lambda>run. length run \<le> 19) (np_inner_runs (needle_parts_of needle))"
  shows "block_message_feasible lib b needle = Inr True"
  using written_block_feasible [OF assms(1-5)] assms(6) by (simp add: inner_runs_short_def)

theorem block_check_sound_witness:
  "\<exists>b meta. encode_block stored_lib stored_json [example_entry] CODEC_RICH_TEMPLATE 7 = Inr (b, meta) \<and>
     block_message_feasible stored_lib b (str_lit ''X4'') = Inr True"
proof -
  obtain b meta where b: "encode_block stored_lib stored_json [example_entry] CODEC_RICH_TEMPLATE 7 = Inr (b, meta)" using example_rich(3) [of CODEC_RICH_TEMPLATE] by blast
  from block_check_sound [OF stored_lib_ok example_rich(2) b, of example_entry id "str_lit ''X4''"] b example_needle show ?thesis by auto
qed

subsection \<open>Sizes\<close>

lemma template_or_columnar:
  assumes "encode_block lib js es CODEC_RICH_TEMPLATE level = Inr (b8, m8)" "encode_block lib js es CODEC_RICH_COLUMNAR level = Inr (b7, m7)"
  shows "length b8 < length b7 \<and> bm_codec m8 = CODEC_RICH_TEMPLATE \<or> b8 = b7 \<and> m8 = m7"
  using assms(1)
proof (rule encode_blockE)
  fix cd raw c0 c1 c2 c3
  assume e: "(if rich_codec CODEC_RICH_TEMPLATE then serialize_rich_metadata js es else serialize_metadata es) = Inr raw"
    "encode_columns lib es CODEC_RICH_TEMPLATE level raw = Inr (cd, [c0, c1, c2, c3])"
    "b8 = block_bytes cd (length es) (Min (le_ts ` set es)) (Max (le_ts ` set es)) c0 c1 c2 c3"
    "m8 = \<lparr>bm_ts_min = Min (le_ts ` set es), bm_ts_max = Max (le_ts ` set es), bm_entry_count = of_nat (length es), bm_codec = cd\<rparr>"
  from assms(2) show ?thesis
  proof (rule encode_blockE)
    fix cd' raw' d0 d1 d2 d3
    assume f: "(if rich_codec CODEC_RICH_COLUMNAR then serialize_rich_metadata js es else serialize_metadata es) = Inr raw'"
      "encode_columns lib es CODEC_RICH_COLUMNAR level raw' = Inr (cd', [d0, d1, d2, d3])"
      "b7 = block_bytes cd' (length es) (Min (le_ts ` set es)) (Max (le_ts ` set es)) d0 d1 d2 d3"
      "m7 = \<lparr>bm_ts_min = Min (le_ts ` set es), bm_ts_max = Max (le_ts ` set es), bm_entry_count = of_nat (length es), bm_codec = cd'\<rparr>"
    have ty: "typed_codec CODEC_RICH_TEMPLATE" "typed_codec CODEC_RICH_COLUMNAR" by (simp_all add: typed_codec_def)
    have ne: "CODEC_RICH_TEMPLATE \<noteq> CODEC_COLUMNAR_V2" "CODEC_RICH_COLUMNAR \<noteq> CODEC_COLUMNAR_V2" "CODEC_RICH_COLUMNAR \<noteq> CODEC_RICH_TEMPLATE"
      by (simp_all add: codec_ids)
    have "raw' = raw" using e(1) f(1) by (simp add: rich_codec_def)
    note c = encode_columns_typed [OF e(2) ty(1), unfolded if_not_P [OF ne(1)]]
    note d = encode_columns_typed [OF f(2) ty(2), unfolded if_not_P [OF ne(2)] \<open>raw' = raw\<close>]
    have same: "c0 = d0" "c1 = d1" "c3 = d3" using c d by (metis sum.inject(2))+
    have d2: "cd' = CODEC_RICH_COLUMNAR" "and_then (encode_str lib (map le_message es) (length (map le_message es)) level) to_bytes = Inr d2"
      using d ne(3) by (auto simp: encode_messages_def simp del: to_bytes_Inr)
    have "cd = CODEC_RICH_TEMPLATE \<and> length c2 < length d2 \<or> cd = CODEC_RICH_COLUMNAR \<and> c2 = d2"
      using c unfolding encode_messages_def d2(2) by (auto split: if_split_asm)
    then show ?thesis using same d2(1) e(3,4) f(3,4) by (auto simp: block_bytes_length)
  qed
qed

text \<open>
  C14. The template codec never costs space: a block written with it is strictly shorter than the same block
  written with the columnar codec, or it is that very block.
\<close>

theorem template_codec_never_longer:
  assumes "encode_block lib js es CODEC_RICH_TEMPLATE level = Inr (b8, m8)" "encode_block lib js es CODEC_RICH_COLUMNAR level = Inr (b7, m7)"
  shows "length b8 < length b7 \<and> bm_codec m8 = CODEC_RICH_TEMPLATE \<or> b8 = b7 \<and> m8 = m7"
  by (rule template_or_columnar [OF assms])
theorem template_codec_never_longer_witness:
  "\<exists>b8 m8 b7 m7. encode_block stored_lib stored_json [example_entry] CODEC_RICH_TEMPLATE 7 = Inr (b8, m8) \<and>
     encode_block stored_lib stored_json [example_entry] CODEC_RICH_COLUMNAR 7 = Inr (b7, m7) \<and> length b8 \<le> length b7"
proof -
  obtain b8 m8 where b8: "encode_block stored_lib stored_json [example_entry] CODEC_RICH_TEMPLATE 7 = Inr (b8, m8)"
    using example_rich(3) [of CODEC_RICH_TEMPLATE] by blast
  obtain b7 m7 where b7: "encode_block stored_lib stored_json [example_entry] CODEC_RICH_COLUMNAR 7 = Inr (b7, m7)"
    using example_rich(3) [of CODEC_RICH_COLUMNAR] by blast
  from template_codec_never_longer [OF b8 b7] have "length b8 \<le> length b7" by auto
  with b8 b7 show ?thesis by blast
qed

lemma encode_columns_codec:
  "encode_columns lib es codec level raw = Inr (codec', cs) \<Longrightarrow> codec' = codec \<or> codec' = CODEC_RICH_COLUMNAR"
  by (auto simp: encode_columns_def encode_messages_def Let_def split: if_split_asm)

lemma oversized_rejected:
  assumes "columns_fit c0 c1 c2 c3" "known_codec codec" "MAX_BLOCK_ENTRIES < n" "n \<le> U32_MAX"
  shows "decode_block_projected lib js (block_bytes codec n lo hi c0 c1 c2 c3) p = Inl (EntryLimit ''block'' n)"
proof -
  let ?r = "adv 2 (reader_new (block_bytes codec n lo hi c0 c1 c2 c3))"
  have "reader_wf ?r" using block_bytes_wf [OF assms(1), of codec n lo hi] by (auto simp: block_bytes_length HEADER_LEN_def intro!: reader_wf_adv)
  moreover have "rest ?r = u32_le (of_nat n) @ i64_le lo @ i64_le hi @ u32_le (of_nat (length c0)) @ u32_le (of_nat (length c1)) @
      u32_le (of_nat (length c2)) @ u32_le (of_nat (length c3)) @ c0 @ c1 @ c2 @ c3" by (rule block_reader_rest)
  ultimately have "reader_u32 ?r ''entry_count'' = Inr (of_nat n, adv 4 ?r)" by (simp add: reader_u32_ok del: rest_adv adv_adv)
  then have "read_block_lens ?r = Inl (EntryLimit ''block'' n)"
    using assms(3,4) by (simp add: read_block_lens_def check_entry_count_def ensure_def unat_u32_fit)
  then show ?thesis using assms(2) by (simp add: decode_block_projected_def read_block_codec_container [OF assms(1)] read_block_columns_def)
qed

text \<open>
  C15. The encoder has no limit on the number of entries but the decoder has: a block of more than
  1,048,576 entries is written without complaint, and every decode of it fails.
\<close>

theorem oversized_block_is_write_only:
  assumes "encode_block lib js es codec level = Inr (b, meta)" "MAX_BLOCK_ENTRIES < length es"
  shows "decode_block_projected lib js b p = Inl (EntryLimit ''block'' (length es))"
  using assms(1)
proof (rule encode_blockE)
  fix codec' raw c0 c1 c2 c3
  assume e: "known_codec codec" "length es \<le> U32_MAX" "encode_columns lib es codec level raw = Inr (codec', [c0, c1, c2, c3])" "columns_fit c0 c1 c2 c3"
    "b = block_bytes codec' (length es) (Min (le_ts ` set es)) (Max (le_ts ` set es)) c0 c1 c2 c3"
  have "known_codec codec'" using encode_columns_codec [OF e(3)] e(1) by (auto simp: known_codec_def)
  then show ?thesis unfolding e(5) by (rule oversized_rejected [OF e(4) _ assms(2) e(2)])
qed

theorem oversized_block_is_write_only_witness:
  "\<exists>b meta. encode_block stored_lib stored_json (replicate 1048577 example_entry) CODEC_RAW 7 = Inr (b, meta) \<and>
     decode_block_projected stored_lib stored_json b PROJECTION_ALL = Inl (EntryLimit ''block'' 1048577)"
proof -
  obtain b meta where b: "encode_block stored_lib stored_json (replicate 1048577 example_entry) CODEC_RAW 7 = Inr (b, meta)"
    using example_raw_block [of 1048577 stored_lib stored_json 7] by auto
  have "MAX_BLOCK_ENTRIES < length (replicate 1048577 example_entry)" unfolding length_replicate by (simp add: MAX_BLOCK_ENTRIES_def)
  from oversized_block_is_write_only [OF b this, of PROJECTION_ALL] b show ?thesis unfolding length_replicate by blast
qed

end
