(* ===== verification/BlockStore.thy ===== *)
theory BlockStore
  imports BlockData
begin

section \<open>Block stores\<close>

text \<open>
  The storage seam of the block engine: the in-memory store (\<open>crates/timeless-core/src/blocks/mem.rs\<close>) and
  the operation the trait \<open>BlockStore\<close> (\<open>blocks/mod.rs\<close>) implements for every store. A hash map is kept as
  a sorted association list, since no operation shows the order it iterates in; a \<open>BTreeSet\<close> as a sorted
  list. The lock is not modelled: every operation holds it, so operations run one after the other;
  \<open>replace_blocks\<close> alone lets go of it, while its callback runs, and the callback is passed the store as it is then.
\<close>

subsection \<open>The in-memory store\<close>

record block_loc =
  bl_id :: i64

record mem_inner =
  mi_next_id :: i64
  mi_blocks :: "(i64, block_meta \<times> bytes) btree"
  mi_terms :: "(str, i64 list) btree"
  mi_meta_kv :: "(str, bytes) btree"

definition mem_new :: mem_inner where
  "mem_new = \<lparr>mi_next_id = I64 0, mi_blocks = [], mi_terms = [], mi_meta_kv = []\<rparr>"

text \<open>\<open>BTreeSet\<close> operations, and \<open>entry(term).or_default().insert(id)\<close>.\<close>

definition bts_insert :: "'a::linorder \<Rightarrow> 'a list \<Rightarrow> 'a list" where
  "bts_insert x xs = (if x \<in> set xs then xs else insort x xs)"

definition bts_remove :: "'a \<Rightarrow> 'a list \<Rightarrow> 'a list" where
  "bts_remove x xs = filter (\<lambda>y. y \<noteq> x) xs"

definition posting :: "(str, i64 list) btree \<Rightarrow> str \<Rightarrow> i64 list" where
  "posting terms t = (case bt_get terms t of Some ids \<Rightarrow> ids | None \<Rightarrow> [])"

definition add_posting :: "i64 \<Rightarrow> str \<Rightarrow> (str, i64 list) btree \<Rightarrow> (str, i64 list) btree" where
  "add_posting i t terms = bt_insert t (bts_insert i (posting terms t)) terms"

definition insert_one :: "mem_inner \<Rightarrow> encoded_block \<Rightarrow> block_loc \<times> mem_inner" where
  "insert_one inner block =
     (let i = i64_wrapping_add (mi_next_id inner) (I64 1) in
      (\<lparr>bl_id = i\<rparr>,
       inner\<lparr>mi_next_id := i, mi_blocks := bt_insert i (eb_meta block, eb_data block) (mi_blocks inner),
             mi_terms := fold (add_posting i) (eb_terms block) (mi_terms inner)\<rparr>))"

text \<open>\<open>terms.retain\<close>: ids leave every list, and lists left empty go.\<close>

definition drop_postings :: "i64 list \<Rightarrow> (str, i64 list) btree \<Rightarrow> (str, i64 list) btree" where
  "drop_postings ids terms = filter (\<lambda>(_, s). s \<noteq> []) (map (\<lambda>(t, s). (t, fold bts_remove ids s)) terms)"

definition remove_ids :: "i64 list \<Rightarrow> mem_inner \<Rightarrow> mem_inner" where
  "remove_ids ids inner =
     inner\<lparr>mi_blocks := fold bt_remove ids (mi_blocks inner), mi_terms := drop_postings ids (mi_terms inner)\<rparr>"

definition mem_purge_term_prefix :: "mem_inner \<Rightarrow> str \<Rightarrow> u64 \<times> mem_inner" where
  "mem_purge_term_prefix inner pre =
     (let terms = filter (\<lambda>(t, _). take (length pre) t \<noteq> pre) (mi_terms inner) in
      (of_nat (length (mi_terms inner) - length terms), inner\<lparr>mi_terms := terms\<rparr>))"

definition mem_replace_terms :: "mem_inner \<Rightarrow> block_loc \<Rightarrow> str list \<Rightarrow> unit res \<times> mem_inner" where
  "mem_replace_terms inner loc terms =
     (if bt_get (mi_blocks inner) (bl_id loc) = None then (Inl (Invalid ''replace_terms: no block''), inner)
      else (Inr (), inner\<lparr>mi_terms := fold (add_posting (bl_id loc)) terms (drop_postings [bl_id loc] (mi_terms inner))\<rparr>))"

definition mem_put_block :: "mem_inner \<Rightarrow> encoded_block \<Rightarrow> block_loc res \<times> mem_inner" where
  "mem_put_block inner block = (let (loc, inner) = insert_one inner block in (Inr loc, inner))"

fun insert_all :: "mem_inner \<Rightarrow> encoded_block list \<Rightarrow> block_loc list \<times> mem_inner" where
  "insert_all inner [] = ([], inner)"
| "insert_all inner (b # bs) =
     (let (loc, inner) = insert_one inner b; (locs, inner) = insert_all inner bs in (loc # locs, inner))"

text \<open>
  \<open>replace_blocks\<close>: the adds, then the callback, which may look at the store and changes the state \<open>e\<close> of
  its owner, then the removes.
\<close>

definition mem_replace_blocks ::
  "mem_inner \<Rightarrow> encoded_block list \<Rightarrow> block_loc list \<Rightarrow> (block_loc list \<Rightarrow> mem_inner \<Rightarrow> 'e \<Rightarrow> 'e) \<Rightarrow> 'e \<Rightarrow>
     block_loc list res \<times> mem_inner \<times> 'e" where
  "mem_replace_blocks inner add rem on_committed e =
     (let (locs, inner) = insert_all inner add; e = on_committed locs inner e
      in (Inr locs, remove_ids (map bl_id rem) inner, e))"

definition mem_read_block :: "mem_inner \<Rightarrow> block_loc \<Rightarrow> bytes res" where
  "mem_read_block inner loc =
     ok_or (map_option snd (bt_get (mi_blocks inner) (bl_id loc))) (Invalid ''MemBlockStore: no block with id'')"

definition mem_delete_blocks :: "mem_inner \<Rightarrow> block_loc list \<Rightarrow> err list \<times> mem_inner" where
  "mem_delete_blocks inner locs =
     (let present = (\<lambda>l. bt_get (mi_blocks inner) (bl_id l) \<noteq> None) in
      (map (\<lambda>_. Invalid ''MemBlockStore: no block with id'') (filter (\<lambda>l. \<not> present l) locs),
       remove_ids (map bl_id (filter present locs)) inner))"

definition mem_scan :: "mem_inner \<Rightarrow> (block_meta \<times> block_loc) list" where
  "mem_scan inner = sort_key (\<lambda>(_, loc). bl_id loc) (map (\<lambda>(i, m, _). (m, \<lparr>bl_id = i\<rparr>)) (mi_blocks inner))"

definition overlaps :: "i64 \<Rightarrow> i64 \<Rightarrow> block_meta \<Rightarrow> bool" where
  "overlaps ts_min ts_max m \<longleftrightarrow> bm_ts_min m \<le> ts_max \<and> bm_ts_max m \<ge> ts_min"

definition intersect_terms :: "(str, i64 list) btree \<Rightarrow> str list \<Rightarrow> i64 list option" where
  "intersect_terms terms ts =
     fold (\<lambda>t ids. Some (case ids of None \<Rightarrow> posting terms t | Some prev \<Rightarrow> filter (\<lambda>i. i \<in> set (posting terms t)) prev)) ts None"

definition mem_query_terms :: "mem_inner \<Rightarrow> str list \<Rightarrow> i64 \<Rightarrow> i64 \<Rightarrow> (block_loc \<times> block_meta) list" where
  "mem_query_terms inner terms ts_min ts_max =
     (case intersect_terms (mi_terms inner) terms of
        Some ids \<Rightarrow>
          concat (map (\<lambda>i. case bt_get (mi_blocks inner) i of
                             Some (m, _) \<Rightarrow> if overlaps ts_min ts_max m then [(\<lparr>bl_id = i\<rparr>, m)] else []
                           | None \<Rightarrow> []) ids)
      | None \<Rightarrow>
          map (\<lambda>(i, m). (\<lparr>bl_id = i\<rparr>, m))
            (sort_key fst (map (\<lambda>(i, m, _). (i, m)) (filter (\<lambda>(_, m, _). overlaps ts_min ts_max m) (mi_blocks inner)))))"

definition mem_save_meta :: "mem_inner \<Rightarrow> str \<Rightarrow> bytes \<Rightarrow> mem_inner" where
  "mem_save_meta inner key v = inner\<lparr>mi_meta_kv := bt_insert key v (mi_meta_kv inner)\<rparr>"

definition mem_load_meta :: "mem_inner \<Rightarrow> str \<Rightarrow> bytes option" where
  "mem_load_meta inner key = bt_get (mi_meta_kv inner) key"

subsection \<open>The batch put every store has\<close>

text \<open>\<open>BlockStore::put_blocks\<close>: the default loops \<open>put_block\<close> and stops at the first error.\<close>

fun put_blocks :: "('s \<Rightarrow> encoded_block \<Rightarrow> block_loc res \<times> 's) \<Rightarrow> 's \<Rightarrow> encoded_block list \<Rightarrow> block_loc list res \<times> 's" where
  "put_blocks put s [] = (Inr [], s)"
| "put_blocks put s (b # bs) =
     (case put s b of
        (Inl e, s) \<Rightarrow> (Inl e, s)
      | (Inr loc, s) \<Rightarrow> (case put_blocks put s bs of (Inl e, s) \<Rightarrow> (Inl e, s) | (Inr locs, s) \<Rightarrow> (Inr (loc # locs), s)))"

end
