(* ===== verification/StoreFacts.thy ===== *)
theory StoreFacts
  imports BlockStore
begin

section \<open>What the block store promises\<close>

text \<open>
  The in-memory store keeps its posting lists in step with its blocks, refines a map from ids to blocks with
  their terms, and answers term queries exactly. The batch put is proved once for every store that keeps
  the contract of \<open>put_block\<close>.
\<close>

subsection \<open>Posting lists\<close>

lemma bts_insert_props [simp]:
  "set (bts_insert x xs) = insert x (set xs)" "bts_insert x xs \<noteq> []"
  "sorted xs \<Longrightarrow> sorted (bts_insert x xs)" "distinct xs \<Longrightarrow> distinct (bts_insert x xs)"
  by (auto simp: bts_insert_def set_insort_key sorted_insort distinct_insort)

lemma fold_bts_remove: "fold bts_remove ids s = filter (\<lambda>x. x \<notin> set ids) s"
  by (induction ids arbitrary: s) (auto simp: bts_remove_def intro: filter_cong)

lemma posting_add: "bt_wf terms \<Longrightarrow> posting (add_posting i t terms) t' = (if t' = t then bts_insert i (posting terms t) else posting terms t')"
  by (simp add: posting_def add_posting_def)

lemma bt_wf_add_posting [simp]: "bt_wf terms \<Longrightarrow> bt_wf (add_posting i t terms)"
  by (simp add: add_posting_def)

lemma map_of_filter_value:
  "distinct (map fst m) \<Longrightarrow> map_of (filter (\<lambda>(_, s). P s) m) k = (case map_of m k of Some s \<Rightarrow> if P s then Some s else None | None \<Rightarrow> None)"
proof (induction m)
  case (Cons p m)
  then have "map_of m (fst p) = None" by (simp add: map_of_eq_None_iff)
  then show ?case using Cons by (cases p) (auto split: option.split)
qed simp

lemma drop_postings_get:
  assumes "bt_wf terms"
  shows "bt_wf (drop_postings ids terms)" "posting (drop_postings ids terms) t = filter (\<lambda>x. x \<notin> set ids) (posting terms t)"
proof -
  let ?m = "map (\<lambda>(t, s). (t, fold bts_remove ids s)) terms"
  have wf: "bt_wf ?m" using assms by (simp add: bt_wf_def comp_def split_def)
  then show "bt_wf (drop_postings ids terms)" unfolding drop_postings_def by (rule bt_wf_filter)
  have get: "bt_get ?m t = map_option (fold bts_remove ids) (bt_get terms t)" by (induction terms) auto
  have "bt_get (filter (\<lambda>(_, s). s \<noteq> []) ?m) t = (case bt_get ?m t of Some s \<Rightarrow> if s \<noteq> [] then Some s else None | None \<Rightarrow> None)"
    by (rule map_of_filter_value [OF bt_wf_distinct [OF wf]])
  then show "posting (drop_postings ids terms) t = filter (\<lambda>x. x \<notin> set ids) (posting terms t)"
    unfolding posting_def drop_postings_def get by (auto simp: fold_bts_remove split: option.split)
qed

text \<open>Well-formed terms over a set of ids: sorted lists of known ids, none of them empty.\<close>

definition terms_ok :: "i64 set \<Rightarrow> (str, i64 list) btree \<Rightarrow> bool" where
  "terms_ok ids terms \<longleftrightarrow> bt_wf terms \<and> (\<forall>(t, s) \<in> set terms. s \<noteq> []) \<and>
     (\<forall>t. sorted (posting terms t) \<and> distinct (posting terms t) \<and> set (posting terms t) \<subseteq> ids)"

lemma terms_ok_Nil [simp]: "terms_ok ids []"
  by (simp add: terms_ok_def posting_def)

lemma terms_ok_mono: "terms_ok A terms \<Longrightarrow> A \<subseteq> B \<Longrightarrow> terms_ok B terms"
  unfolding terms_ok_def by blast

lemma bt_insert_in: "p \<in> set (bt_insert k v m) \<Longrightarrow> p = (k, v) \<or> p \<in> set m"
  by (induction m) (auto split: if_split_asm)

lemma terms_ok_add_one:
  assumes "terms_ok ids terms" "i \<in> ids"
  shows "terms_ok ids (add_posting i u terms)"
proof -
  have wf: "bt_wf terms" and ne: "\<forall>p \<in> set terms. snd p \<noteq> []"
    and ok: "sorted (posting terms t) \<and> distinct (posting terms t) \<and> set (posting terms t) \<subseteq> ids" for t
    using assms(1) by (auto simp: terms_ok_def)
  have "snd p \<noteq> []" if "p \<in> set (add_posting i u terms)" for p
    using bt_insert_in [OF that [unfolded add_posting_def]] ne by auto
  moreover have "sorted (posting (add_posting i u terms) t) \<and> distinct (posting (add_posting i u terms) t) \<and>
      set (posting (add_posting i u terms) t) \<subseteq> ids" for t
    using ok [of t] ok [of u] assms(2) by (simp add: posting_add [OF wf])
  ultimately show ?thesis using wf by (simp add: terms_ok_def split_def)
qed

lemma terms_ok_add:
  assumes "terms_ok ids terms" "i \<in> ids"
  shows "terms_ok ids (fold (add_posting i) ts terms) \<and>
    set (posting (fold (add_posting i) ts terms) t) = set (posting terms t) \<union> (if t \<in> set ts then {i} else {})"
  using assms
proof (induction ts arbitrary: terms)
  case (Cons u ts)
  have wf: "bt_wf terms" using Cons.prems(1) by (simp add: terms_ok_def)
  from Cons.IH [OF terms_ok_add_one [OF Cons.prems, of u] Cons.prems(2)] show ?case
    using posting_add [OF wf, of i u t] by auto
qed simp

lemma terms_ok_drop:
  assumes "terms_ok ids terms"
  shows "terms_ok (ids - set xs) (drop_postings xs terms)"
proof -
  have wf: "bt_wf terms" using assms by (simp add: terms_ok_def)
  show ?thesis
    using assms drop_postings_get [OF wf, of xs] unfolding terms_ok_def
    by (auto simp: sorted_wrt_filter drop_postings_def)
qed

lemma terms_ok_filter:
  assumes "terms_ok ids terms"
  shows "terms_ok ids (filter (\<lambda>(t, _). P t) terms)" "posting (filter (\<lambda>(t, _). P t) terms) t = (if P t then posting terms t else [])"
proof -
  have "bt_get (filter (\<lambda>(t, _). P t) terms) t = (if P t then bt_get terms t else None)" for t by (induction terms) auto
  then show get: "posting (filter (\<lambda>(t, _). P t) terms) t = (if P t then posting terms t else [])" for t by (simp add: posting_def)
  show "terms_ok ids (filter (\<lambda>(t, _). P t) terms)" using assms unfolding terms_ok_def get by (auto intro: bt_wf_filter)
qed
subsection \<open>The invariant\<close>

definition block_ids :: "mem_inner \<Rightarrow> i64 set" where
  "block_ids s = fst ` set (mi_blocks s)"

text \<open>
  Blocks have ids the counter has passed, and posting lists name blocks that exist. The counter wraps, so
  an insert needs room below the largest id.
\<close>

definition mem_wf :: "mem_inner \<Rightarrow> bool" where
  "mem_wf s \<longleftrightarrow> bt_wf (mi_blocks s) \<and> terms_ok (block_ids s) (mi_terms s) \<and> 0 \<le> i64_int (mi_next_id s) \<and>
     (\<forall>i \<in> block_ids s. 0 < i64_int i \<and> i64_int i \<le> i64_int (mi_next_id s))"

definition has_room :: "mem_inner \<Rightarrow> nat \<Rightarrow> bool" where
  "has_room s n \<longleftrightarrow> i64_int (mi_next_id s) + int n < 2 ^ 63"

lemma mem_wf_new [simp]: "mem_wf mem_new"
  by (simp add: mem_wf_def mem_new_def block_ids_def i64_int_def)

lemma next_id_int: "0 \<le> i64_int x \<Longrightarrow> i64_int x + 1 < 2 ^ 63 \<Longrightarrow> i64_int (i64_wrapping_add x (I64 1)) = i64_int x + 1"
proof -
  assume x: "0 \<le> i64_int x" "i64_int x + 1 < 2 ^ 63"
  have "i64_wrapping_add (i64_of_int (i64_int x)) (I64 1) = i64_of_int (i64_int x + 1)"
    unfolding i64_wrapping_add_def i64_of_int_def by simp
  then have "i64_wrapping_add x (I64 1) = i64_of_int (i64_int x + 1)" by simp
  then show ?thesis using x by (simp only: i64_int_of_int)
qed

text \<open>The counter after an insert.\<close>

definition next_id :: "mem_inner \<Rightarrow> i64" where
  "next_id s = i64_wrapping_add (mi_next_id s) (I64 1)"

lemma next_id_fresh:
  assumes "mem_wf s" "has_room s (Suc n)"
  shows "i64_int (next_id s) = i64_int (mi_next_id s) + 1" "next_id s \<notin> block_ids s"
proof -
  show i: "i64_int (next_id s) = i64_int (mi_next_id s) + 1"
    using assms by (simp add: next_id_def next_id_int mem_wf_def has_room_def)
  show "next_id s \<notin> block_ids s" using assms(1) i unfolding mem_wf_def by force
qed

lemma insert_one_eq:
  "insert_one s b = (\<lparr>bl_id = next_id s\<rparr>, s\<lparr>mi_next_id := next_id s, mi_blocks := bt_insert (next_id s) (eb_meta b, eb_data b) (mi_blocks s),
     mi_terms := fold (add_posting (next_id s)) (eb_terms b) (mi_terms s)\<rparr>)"
  by (simp add: insert_one_def next_id_def Let_def)

lemma insert_one_wf:
  assumes "mem_wf s" "has_room s (Suc n)" "insert_one s b = (loc, s')"
  shows "mem_wf s'" "has_room s' n" "block_ids s' = insert (next_id s) (block_ids s)"
proof -
  note fresh = next_id_fresh [OF assms(1,2)]
  have s': "mi_next_id s' = next_id s" "mi_blocks s' = bt_insert (next_id s) (eb_meta b, eb_data b) (mi_blocks s)"
      "mi_terms s' = fold (add_posting (next_id s)) (eb_terms b) (mi_terms s)"
    using assms(3) by (auto simp: insert_one_eq)
  show ids: "block_ids s' = insert (next_id s) (block_ids s)" by (simp add: block_ids_def s'(2) bt_insert_keys)
  have "terms_ok (block_ids s') (mi_terms s)" by (rule terms_ok_mono [of "block_ids s"]) (use assms(1) ids in \<open>auto simp: mem_wf_def\<close>)
  then have "terms_ok (block_ids s') (mi_terms s')" using terms_ok_add [of "block_ids s'" "mi_terms s" "next_id s"] ids s'(3) by simp
  then show "mem_wf s'" using assms(1) fresh s' ids by (auto simp: mem_wf_def)
  show "has_room s' n" using assms(2) fresh(1) s'(1) by (simp add: has_room_def)
qed

lemma remove_ids_wf:
  assumes "mem_wf s"
  shows "mem_wf (remove_ids ids s)" "block_ids (remove_ids ids s) = block_ids s - set ids"
    "bt_get (mi_blocks (remove_ids ids s)) i = (if i \<in> set ids then None else bt_get (mi_blocks s) i)"
proof -
  have blocks: "fold bt_remove ids m = filter (\<lambda>(k, _). k \<notin> set ids) m" for m :: "(i64, block_meta \<times> bytes) btree"
    by (induction ids arbitrary: m) (auto simp: bt_remove_def intro!: filter_cong)
  show ids: "block_ids (remove_ids ids s) = block_ids s - set ids" by (force simp: block_ids_def remove_ids_def blocks)
  have "terms_ok (block_ids s - set ids) (drop_postings ids (mi_terms s))" using assms by (intro terms_ok_drop) (simp add: mem_wf_def)
  then show "mem_wf (remove_ids ids s)"
    using assms unfolding mem_wf_def ids by (auto simp: remove_ids_def blocks)
  have "map_of (filter (\<lambda>(k, _). P k) m) i = (if P i then map_of m i else None)" for P and m :: "(i64, block_meta \<times> bytes) btree"
    by (induction m) auto
  then show "bt_get (mi_blocks (remove_ids ids s)) i = (if i \<in> set ids then None else bt_get (mi_blocks s) i)"
    by (simp add: remove_ids_def blocks)
qed
subsection \<open>The abstract store\<close>

text \<open>A counter, a map from ids to blocks with the set of their terms, and the configuration values.\<close>

record spec_store =
  sp_next :: i64
  sp_blocks :: "i64 \<rightharpoonup> block_meta \<times> bytes \<times> str set"
  sp_meta :: "str \<rightharpoonup> bytes"

definition store_abs :: "mem_inner \<Rightarrow> spec_store" where
  "store_abs s = \<lparr>sp_next = mi_next_id s,
     sp_blocks = (\<lambda>i. map_option (\<lambda>(m, d). (m, d, {t. i \<in> set (posting (mi_terms s) t)})) (bt_get (mi_blocks s) i)),
     sp_meta = bt_get (mi_meta_kv s)\<rparr>"

definition spec_put :: "encoded_block \<Rightarrow> spec_store \<Rightarrow> spec_store" where
  "spec_put b a = (let i = i64_wrapping_add (sp_next a) (I64 1) in
     a\<lparr>sp_next := i, sp_blocks := (sp_blocks a)(i \<mapsto> (eb_meta b, eb_data b, set (eb_terms b)))\<rparr>)"

definition spec_remove :: "i64 set \<Rightarrow> spec_store \<Rightarrow> spec_store" where
  "spec_remove ids a = a\<lparr>sp_blocks := sp_blocks a |` (- ids)\<rparr>"

definition spec_terms :: "i64 \<Rightarrow> str set \<Rightarrow> spec_store \<Rightarrow> spec_store" where
  "spec_terms i ts a = a\<lparr>sp_blocks := (sp_blocks a)(i := map_option (\<lambda>(m, d, _). (m, d, ts)) (sp_blocks a i))\<rparr>"

definition spec_purge :: "str \<Rightarrow> spec_store \<Rightarrow> spec_store" where
  "spec_purge pre a = a\<lparr>sp_blocks := (\<lambda>i. map_option (\<lambda>(m, d, ts). (m, d, {t \<in> ts. take (length pre) t \<noteq> pre})) (sp_blocks a i))\<rparr>"

lemma posting_ids: "mem_wf s \<Longrightarrow> i \<in> set (posting (mi_terms s) t) \<Longrightarrow> i \<in> block_ids s"
  by (auto simp: mem_wf_def terms_ok_def)

lemma insert_one_abs:
  assumes "mem_wf s" "has_room s (Suc n)" "insert_one s b = (loc, s')"
  shows "store_abs s' = spec_put b (store_abs s)"
proof -
  note fresh = next_id_fresh [OF assms(1,2)]
  have s': "s' = s\<lparr>mi_next_id := next_id s, mi_blocks := bt_insert (next_id s) (eb_meta b, eb_data b) (mi_blocks s),
      mi_terms := fold (add_posting (next_id s)) (eb_terms b) (mi_terms s)\<rparr>" using assms(3) by (simp add: insert_one_eq)
  have wf: "bt_wf (mi_blocks s)" "terms_ok (insert (next_id s) (block_ids s)) (mi_terms s)"
    using assms(1) terms_ok_mono [of "block_ids s" "mi_terms s" "insert (next_id s) (block_ids s)"] by (auto simp: mem_wf_def)
  have post: "set (posting (fold (add_posting (next_id s)) (eb_terms b) (mi_terms s)) t) =
      set (posting (mi_terms s) t) \<union> (if t \<in> set (eb_terms b) then {next_id s} else {})" for t
    using terms_ok_add [OF wf(2)] by blast
  have new: "next_id s \<notin> set (posting (mi_terms s) t)" for t using posting_ids [OF assms(1)] fresh(2) by blast
  have put: "spec_put b (store_abs s) = (store_abs s)\<lparr>sp_next := next_id s,
      sp_blocks := (sp_blocks (store_abs s))(next_id s \<mapsto> (eb_meta b, eb_data b, set (eb_terms b)))\<rparr>"
    by (simp add: spec_put_def next_id_def store_abs_def Let_def)
  have "sp_blocks (store_abs s') i = sp_blocks (spec_put b (store_abs s)) i" for i
    unfolding put using wf(1) new by (cases "i = next_id s") (auto simp: store_abs_def s' post)
  then show ?thesis unfolding put by (intro spec_store.equality ext) (auto simp: store_abs_def s')
qed

lemma remove_ids_abs:
  assumes "mem_wf s"
  shows "store_abs (remove_ids ids s) = spec_remove (set ids) (store_abs s)"
proof -
  have wf: "bt_wf (mi_terms s)" using assms by (simp add: mem_wf_def terms_ok_def)
  have terms: "mi_terms (remove_ids ids s) = drop_postings ids (mi_terms s)" by (simp add: remove_ids_def)
  have "sp_blocks (store_abs (remove_ids ids s)) i = sp_blocks (spec_remove (set ids) (store_abs s)) i" for i
    by (auto simp: store_abs_def spec_remove_def remove_ids_wf(3) [OF assms] terms drop_postings_get(2) [OF wf] restrict_map_def)
  then show ?thesis by (intro spec_store.equality ext) (auto simp: store_abs_def spec_remove_def remove_ids_def)
qed

lemma replace_terms_abs:
  assumes "mem_wf s" "mem_replace_terms s loc terms = (r, s')"
  shows "mem_wf s'" "store_abs s' = spec_terms (bl_id loc) (set terms) (store_abs s)" "block_ids s' = block_ids s"
proof -
  let ?i = "bl_id loc"
  have wf: "bt_wf (mi_terms s)" "terms_ok (block_ids s) (mi_terms s)" using assms(1) by (simp_all add: mem_wf_def terms_ok_def)
  show "mem_wf s'" "store_abs s' = spec_terms ?i (set terms) (store_abs s)" "block_ids s' = block_ids s"
  proof (atomize (full), cases "bt_get (mi_blocks s) ?i")
    case None
    then have "s' = s" using assms(2) by (simp add: mem_replace_terms_def)
    then show "mem_wf s' \<and> store_abs s' = spec_terms ?i (set terms) (store_abs s) \<and> block_ids s' = block_ids s"
      using None assms(1) by (auto simp: store_abs_def spec_terms_def)
  next
    case (Some x)
    let ?t = "drop_postings [?i] (mi_terms s)"
    have s': "s' = s\<lparr>mi_terms := fold (add_posting ?i) terms ?t\<rparr>" using assms(2) Some by (simp add: mem_replace_terms_def)
    have mem: "?i \<in> block_ids s" using Some by (auto simp: block_ids_def dest: map_of_SomeD intro: rev_image_eqI)
    have "terms_ok (block_ids s) ?t" using terms_ok_mono [OF terms_ok_drop [OF wf(2)]] by blast
    note add = terms_ok_add [OF this mem, of terms]
    have post: "set (posting (mi_terms s') t) = set (posting (mi_terms s) t) - {?i} \<union> (if t \<in> set terms then {?i} else {})" for t
      using add [of t] drop_postings_get(2) [OF wf(1), of "[?i]" t] s' by auto
    have sel: "mi_blocks s' = mi_blocks s" using s' by simp
    have "sp_blocks (store_abs s') j = sp_blocks (spec_terms ?i (set terms) (store_abs s)) j" for j
      by (cases "j = ?i") (auto simp: store_abs_def spec_terms_def post sel option.map_comp comp_def split_def)
    then have "store_abs s' = spec_terms ?i (set terms) (store_abs s)"
      by (intro spec_store.equality ext) (auto simp: store_abs_def spec_terms_def s')
    moreover have "block_ids s' = block_ids s" "mem_wf s'" using add assms(1) s' by (simp_all add: mem_wf_def block_ids_def)
    ultimately show "mem_wf s' \<and> store_abs s' = spec_terms ?i (set terms) (store_abs s) \<and> block_ids s' = block_ids s" by blast
  qed
qed

lemma purge_abs:
  assumes "mem_wf s" "mem_purge_term_prefix s pre = (k, s')"
  shows "mem_wf s'" "store_abs s' = spec_purge pre (store_abs s)" "block_ids s' = block_ids s"
proof -
  have ok: "terms_ok (block_ids s) (mi_terms s)" using assms(1) by (simp add: mem_wf_def)
  note f = terms_ok_filter [OF ok, of "\<lambda>t. take (length pre) t \<noteq> pre"]
  have s': "s' = s\<lparr>mi_terms := filter (\<lambda>(t, _). take (length pre) t \<noteq> pre) (mi_terms s)\<rparr>"
    using assms(2) by (simp add: mem_purge_term_prefix_def Let_def)
  show "mem_wf s'" "block_ids s' = block_ids s" using f(1) assms(1) by (simp_all add: mem_wf_def s' block_ids_def)
  have "sp_blocks (store_abs s') j = sp_blocks (spec_purge pre (store_abs s)) j" for j
    by (cases "bt_get (mi_blocks s) j") (auto simp: store_abs_def spec_purge_def s' f(2) split: if_split_asm)
  then show "store_abs s' = spec_purge pre (store_abs s)"
    by (intro spec_store.equality ext) (auto simp: store_abs_def spec_purge_def s')
qed
subsection \<open>The contract of put\<close>

text \<open>
  What a store promises of \<open>put_block\<close>: while there is room it succeeds, the new location was not readable
  before, it reads back the data, and no other location changes. The batch put rests on nothing else.
\<close>

locale block_store =
  fixes wf :: "'s \<Rightarrow> bool"
    and room :: "'s \<Rightarrow> nat \<Rightarrow> bool"
    and put :: "'s \<Rightarrow> encoded_block \<Rightarrow> block_loc res \<times> 's"
    and read :: "'s \<Rightarrow> block_loc \<Rightarrow> bytes res"
  assumes put_ok: "wf s \<Longrightarrow> room s (Suc n) \<Longrightarrow> \<exists>loc s'. put s b = (Inr loc, s') \<and> wf s' \<and> room s' n \<and> isl (read s loc) \<and>
    (\<forall>l. read s' l = (if l = loc then Inr (eb_data b) else read s l))"
begin

lemma put_blocks_ok:
  "wf s \<Longrightarrow> room s (length bs) \<Longrightarrow> \<exists>locs s'. put_blocks put s bs = (Inr locs, s') \<and> wf s' \<and> distinct locs \<and>
    list_all2 (\<lambda>l b. isl (read s l) \<and> read s' l = Inr (eb_data b)) locs bs \<and> (\<forall>l. l \<notin> set locs \<longrightarrow> read s' l = read s l)"
proof (induction bs arbitrary: s)
  case (Cons b bs)
  have "room s (Suc (length bs))" using Cons.prems(2) by simp
  from put_ok [OF Cons.prems(1) this, of b] obtain loc s1 where p: "put s b = (Inr loc, s1)" "wf s1" "room s1 (length bs)" "isl (read s loc)"
      "\<And>l. read s1 l = (if l = loc then Inr (eb_data b) else read s l)" by blast
  from Cons.IH [OF p(2,3)] obtain locs s2 where q: "put_blocks put s1 bs = (Inr locs, s2)" "wf s2" "distinct locs"
      "list_all2 (\<lambda>l b. isl (read s1 l) \<and> read s2 l = Inr (eb_data b)) locs bs" "\<And>l. l \<notin> set locs \<Longrightarrow> read s2 l = read s1 l" by blast
  have new: "isl (read s1 l)" if "l \<in> set locs" for l using q(4) that by (auto simp: list_all2_conv_all_nth in_set_conv_nth)
  then have fresh: "loc \<notin> set locs" using p(5) [of loc] by fastforce
  have "list_all2 (\<lambda>l b. isl (read s l) \<and> read s2 l = Inr (eb_data b)) locs bs"
    using q(4) by (rule list.rel_mono_strong) (use p(5) fresh in \<open>auto split: if_split_asm\<close>)
  then show ?case using p q fresh by (intro exI [of _ "loc # locs"] exI [of _ s2]) auto
qed simp

end

lemma insert_one_loc: "insert_one s b = (loc, s') \<Longrightarrow> loc = \<lparr>bl_id = next_id s\<rparr>"
  by (simp add: insert_one_eq)

lemma mem_read_insert:
  assumes "mem_wf s" "has_room s (Suc n)" "insert_one s b = (loc, s')"
  shows "isl (mem_read_block s loc)" "mem_read_block s' l = (if l = loc then Inr (eb_data b) else mem_read_block s l)"
proof -
  have loc: "loc = \<lparr>bl_id = next_id s\<rparr>" using assms(3) by (rule insert_one_loc)
  have "bt_get (mi_blocks s) (next_id s) = None"
    using next_id_fresh(2) [OF assms(1,2)] by (simp add: block_ids_def map_of_eq_None_iff)
  then show "isl (mem_read_block s loc)" by (simp add: mem_read_block_def loc)
  show "mem_read_block s' l = (if l = loc then Inr (eb_data b) else mem_read_block s l)"
    using assms(1,3) loc by (cases l) (auto simp: insert_one_eq mem_read_block_def mem_wf_def)
qed

interpretation mem: block_store mem_wf has_room mem_put_block mem_read_block
proof
  fix s n b
  assume s: "mem_wf s" "has_room s (Suc n)"
  obtain loc s' where i: "insert_one s b = (loc, s')" by (cases "insert_one s b")
  then show "\<exists>loc s'. mem_put_block s b = (Inr loc, s') \<and> mem_wf s' \<and> has_room s' n \<and> isl (mem_read_block s loc) \<and>
      (\<forall>l. mem_read_block s' l = (if l = loc then Inr (eb_data b) else mem_read_block s l))"
    using insert_one_wf [OF s i] mem_read_insert [OF s i] by (auto simp: mem_put_block_def)
qed

lemma insert_all_put: "put_blocks mem_put_block s bs = (Inr (fst (insert_all s bs)), snd (insert_all s bs))"
  by (induction bs arbitrary: s) (auto simp: mem_put_block_def Let_def split_def)

lemma insert_all_abs:
  "mem_wf s \<Longrightarrow> has_room s (length bs) \<Longrightarrow> mem_wf (snd (insert_all s bs)) \<and> store_abs (snd (insert_all s bs)) = fold spec_put bs (store_abs s)"
proof (induction bs arbitrary: s)
  case (Cons b bs)
  obtain loc s' where i: "insert_one s b = (loc, s')" by (cases "insert_one s b")
  have room: "has_room s (Suc (length bs))" using Cons.prems(2) by simp
  from Cons.IH [OF insert_one_wf(1,2) [OF Cons.prems(1) room i]] show ?case
    using i insert_one_abs [OF Cons.prems(1) room i] by (simp add: Let_def split_def)
qed simp

end
