(* ===== verification/StoreClaims.thy ===== *)
theory StoreClaims
  imports StoreFacts
begin

section \<open>Runs of the block store\<close>

text \<open>
  The operations of the store as a step relation: every reachable store keeps its posting lists in step with
  its blocks, every step is a step of the abstract store, and queries see exactly the abstract blocks.
\<close>

subsection \<open>Steps\<close>

datatype store_op =
    OpPut encoded_block
  | OpPutAll "encoded_block list"
  | OpReplace "encoded_block list" "block_loc list"
  | OpDelete "block_loc list"
  | OpTerms block_loc "str list"
  | OpPurge str
  | OpMeta str bytes

inductive mem_step :: "mem_inner \<Rightarrow> store_op \<Rightarrow> mem_inner \<Rightarrow> bool" where
  put: "has_room s 1 \<Longrightarrow> mem_put_block s b = (r, s') \<Longrightarrow> mem_step s (OpPut b) s'"
| put_all: "has_room s (length bs) \<Longrightarrow> put_blocks mem_put_block s bs = (rs, s') \<Longrightarrow> mem_step s (OpPutAll bs) s'"
| replace: "has_room s (length add) \<Longrightarrow> mem_replace_blocks s add rem (\<lambda>_ _ e. e) () = (rs, s', e) \<Longrightarrow>
    mem_step s (OpReplace add rem) s'"
| delete: "mem_delete_blocks s locs = (es, s') \<Longrightarrow> mem_step s (OpDelete locs) s'"
| terms: "mem_replace_terms s loc ts = (u, s') \<Longrightarrow> mem_step s (OpTerms loc ts) s'"
| purge: "mem_purge_term_prefix s pre = (k, s') \<Longrightarrow> mem_step s (OpPurge pre) s'"
| meta: "mem_save_meta s key v = s' \<Longrightarrow> mem_step s (OpMeta key v) s'"

inductive store_reachable :: "mem_inner \<Rightarrow> bool" where
  start: "store_reachable mem_new"
| step: "store_reachable s \<Longrightarrow> mem_step s op s' \<Longrightarrow> store_reachable s'"

fun spec_op :: "store_op \<Rightarrow> spec_store \<Rightarrow> spec_store" where
  "spec_op (OpPut b) a = spec_put b a"
| "spec_op (OpPutAll bs) a = fold spec_put bs a"
| "spec_op (OpReplace add rem) a = spec_remove (bl_id ` set rem) (fold spec_put add a)"
| "spec_op (OpDelete locs) a = spec_remove (bl_id ` set locs) a"
| "spec_op (OpTerms loc ts) a = spec_terms (bl_id loc) (set ts) a"
| "spec_op (OpPurge pre) a = spec_purge pre a"
| "spec_op (OpMeta key v) a = a\<lparr>sp_meta := (sp_meta a)(key \<mapsto> v)\<rparr>"

text \<open>Configuration values live in a tree of their own.\<close>

definition store_ok :: "mem_inner \<Rightarrow> bool" where
  "store_ok s \<longleftrightarrow> mem_wf s \<and> bt_wf (mi_meta_kv s)"

lemma spec_remove_absent:
  "spec_remove (bl_id ` set (filter (\<lambda>l. bt_get (mi_blocks s) (bl_id l) \<noteq> None) locs)) (store_abs s) = spec_remove (bl_id ` set locs) (store_abs s)"
proof -
  have "(sp_blocks (store_abs s) |` (- A)) i = (sp_blocks (store_abs s) |` (- B)) i"
    if "A = bl_id ` {l \<in> set locs. bt_get (mi_blocks s) (bl_id l) \<noteq> None}" "B = bl_id ` set locs" for A B i
    using that by (cases "bt_get (mi_blocks s) i") (auto simp: restrict_map_def store_abs_def)
  then show ?thesis unfolding spec_remove_def set_filter by (intro arg_cong [where f = "\<lambda>m. (store_abs s)\<lparr>sp_blocks := m\<rparr>"] ext) blast
qed

lemma mem_ops_kv:
  "mi_meta_kv (snd (insert_one s b)) = mi_meta_kv s" "mi_meta_kv (snd (insert_all s bs)) = mi_meta_kv s" "mi_meta_kv (remove_ids ids s) = mi_meta_kv s"
  "mi_meta_kv (snd (mem_replace_terms s loc ts)) = mi_meta_kv s" "mi_meta_kv (snd (mem_purge_term_prefix s pre)) = mi_meta_kv s"
proof -
  show one: "mi_meta_kv (snd (insert_one s b)) = mi_meta_kv s" for s b by (simp add: insert_one_eq)
  show "mi_meta_kv (snd (insert_all s bs)) = mi_meta_kv s"
    by (induction bs arbitrary: s) (simp_all add: Let_def split_def one)
qed (auto simp: remove_ids_def mem_replace_terms_def mem_purge_term_prefix_def Let_def)

lemma mem_step_sim:
  assumes "mem_step s op s'" "store_ok s"
  shows "store_ok s' \<and> store_abs s' = spec_op op (store_abs s)"
  using assms
proof (induction rule: mem_step.induct)
  case (put s b r s')
  have "has_room s (Suc 0)" "mem_wf s" using put by (simp_all add: store_ok_def)
  then show ?case
    using insert_one_wf(1) [of s 0 b] insert_one_abs [of s 0 b] put mem_ops_kv(1) [of s b]
    by (cases "insert_one s b") (auto simp: mem_put_block_def store_ok_def)
next
  case (put_all s bs rs s')
  then show ?case using insert_all_abs [of s bs] mem_ops_kv(2) [of s bs] by (auto simp: insert_all_put store_ok_def)
next
  case (replace s add rem rs s' e)
  have "s' = remove_ids (map bl_id rem) (snd (insert_all s add))" using replace(2) by (auto simp: mem_replace_blocks_def Let_def split_def)
  then show ?case
    using insert_all_abs [of s add] replace remove_ids_wf(1) remove_ids_abs mem_ops_kv(2,3) by (auto simp: store_ok_def)
next
  case (delete s locs es s')
  have s': "s' = remove_ids (map bl_id (filter (\<lambda>l. bt_get (mi_blocks s) (bl_id l) \<noteq> None) locs)) s"
    using delete(1) by (auto simp: mem_delete_blocks_def Let_def)
  have wf: "mem_wf s" using delete(2) by (simp add: store_ok_def)
  show ?case
    using remove_ids_wf(1) [OF wf] remove_ids_abs [OF wf] delete(2) mem_ops_kv(3) spec_remove_absent
    by (simp add: s' store_ok_def del: set_filter)
next
  case (terms s loc ts u s')
  then show ?case using replace_terms_abs [of s loc ts u s'] mem_ops_kv(4) [of s loc ts] by (simp add: store_ok_def)
next
  case (purge s pre k s')
  then show ?case using purge_abs [of s pre k s'] mem_ops_kv(5) [of s pre] by (simp add: store_ok_def)
next
  case (meta s key v s')
  have "mem_wf (s\<lparr>mi_meta_kv := m\<rparr>) = mem_wf s" for m by (simp add: mem_wf_def block_ids_def)
  with meta show ?case by (auto simp: store_ok_def mem_save_meta_def store_abs_def)
qed

lemma reachable_ok: "store_reachable s \<Longrightarrow> store_ok s"
proof (induction rule: store_reachable.induct)
  case start
  show ?case using mem_wf_new by (simp add: store_ok_def) (simp add: mem_new_def)
next
  case (step s op s')
  then show ?case using mem_step_sim by blast
qed
subsection \<open>Queries\<close>

lemma intersect_from:
  "fold (\<lambda>t ids. Some (case ids of None \<Rightarrow> posting terms t | Some prev \<Rightarrow> filter (\<lambda>i. i \<in> set (posting terms t)) prev)) ts (Some prev) =
     Some (filter (\<lambda>i. \<forall>t \<in> set ts. i \<in> set (posting terms t)) prev)"
  by (induction ts arbitrary: prev) (auto simp: conj_commute)

lemma intersect_terms_Cons:
  "intersect_terms terms (t # ts) = Some (filter (\<lambda>i. \<forall>u \<in> set ts. i \<in> set (posting terms u)) (posting terms t))"
  by (simp add: intersect_terms_def intersect_from)

definition answers :: "mem_inner \<Rightarrow> i64 \<Rightarrow> i64 \<Rightarrow> i64 list \<Rightarrow> (block_loc \<times> block_meta) list" where
  "answers s lo hi ids = concat (map (\<lambda>i. case bt_get (mi_blocks s) i of
     Some (m, _) \<Rightarrow> if overlaps lo hi m then [(\<lparr>bl_id = i\<rparr>, m)] else [] | None \<Rightarrow> []) ids)"

lemma answers_props:
  assumes "sorted ids" "distinct ids"
  shows "sorted_wrt (<) (map (\<lambda>(l, _). bl_id l) (answers s lo hi ids)) \<and>
    ((l, m) \<in> set (answers s lo hi ids) \<longleftrightarrow> bl_id l \<in> set ids \<and> overlaps lo hi m \<and> (\<exists>d. bt_get (mi_blocks s) (bl_id l) = Some (m, d)))"
  using assms
proof (induction ids)
  case (Cons i ids)
  have sub: "set (map (\<lambda>(l, _). bl_id l) (answers s lo hi ids)) \<subseteq> set ids" for ids
    by (auto simp: answers_def split: option.split_asm if_split_asm)
  have less: "\<forall>j \<in> set ids. i < j" using Cons.prems by (auto simp: order.strict_iff_order)
  show ?case
  proof (cases "bt_get (mi_blocks s) i")
    case None
    then show ?thesis using Cons by (auto simp: answers_def)
  next
    case (Some x)
    obtain m' d' where x: "x = (m', d')" by (cases x)
    have "answers s lo hi (i # ids) = (if overlaps lo hi m' then [(\<lparr>bl_id = i\<rparr>, m')] else []) @ answers s lo hi ids"
      by (simp add: answers_def Some x)
    moreover have "\<forall>j \<in> set (map (\<lambda>(l, _). bl_id l) (answers s lo hi ids)). i < j" using sub [of ids] less by blast
    ultimately show ?thesis using Cons Some x by (cases l) auto
  qed
qed (simp add: answers_def)

lemma scan_answers:
  assumes "bt_wf m"
  shows "map (\<lambda>(i, m). (\<lparr>bl_id = i\<rparr>, m)) (sort_key fst (map (\<lambda>(i, m, _). (i, m)) (filter (\<lambda>(_, m, _). overlaps lo hi m) m))) =
    concat (map (\<lambda>(i, m, _). if overlaps lo hi m then [(\<lparr>bl_id = i\<rparr>, m)] else []) m)"
proof -
  have "sorted_wrt (<) (map fst (filter (\<lambda>(_, m, _). overlaps lo hi m) m))" using bt_wf_filter [OF assms] by (simp add: bt_wf_def)
  then have "sorted (map fst (map (\<lambda>(i, m, _). (i, m)) (filter (\<lambda>(_, m, _). overlaps lo hi m) m)))"
    by (simp add: comp_def split_def strict_sorted_imp_sorted)
  then have "sort_key fst (map (\<lambda>(i, m, _). (i, m)) (filter (\<lambda>(_, m, _). overlaps lo hi m) m)) =
      map (\<lambda>(i, m, _). (i, m)) (filter (\<lambda>(_, m, _). overlaps lo hi m) m)" by (rule sort_key_id_if_sorted)
  moreover have "map (\<lambda>(i, m). (\<lparr>bl_id = i\<rparr>, m)) (map (\<lambda>(i, m, _). (i, m)) (filter (\<lambda>(_, m, _). overlaps lo hi m) m)) =
      concat (map (\<lambda>(i, m, _). if overlaps lo hi m then [(\<lparr>bl_id = i\<rparr>, m)] else []) m)" for m :: "(i64 \<times> block_meta \<times> 'a) list"
    by (induction m) auto
  ultimately show ?thesis by (simp only:)
qed

lemma query_answers:
  assumes "mem_wf s"
  shows "\<exists>ids. sorted ids \<and> distinct ids \<and> mem_query_terms s terms lo hi = answers s lo hi ids \<and>
    (\<forall>i \<in> block_ids s. i \<in> set ids \<longleftrightarrow> (\<forall>t \<in> set terms. i \<in> set (posting (mi_terms s) t)))"
proof (cases terms)
  case Nil
  let ?ids = "map fst (mi_blocks s)"
  have wf: "bt_wf (mi_blocks s)" using assms by (simp add: mem_wf_def)
  have "sorted ?ids" "distinct ?ids" using wf bt_wf_distinct [OF wf] by (simp_all add: bt_wf_def strict_sorted_imp_sorted)
  moreover have "concat (map (\<lambda>(i, m, _). if overlaps lo hi m then [(\<lparr>bl_id = i\<rparr>, m)] else []) (mi_blocks s)) = answers s lo hi ?ids"
    unfolding answers_def map_map comp_def
  proof (intro arg_cong [where f = concat] map_cong refl)
    fix x assume "x \<in> set (mi_blocks s)"
    then have "bt_get (mi_blocks s) (fst x) = Some (snd x)" using bt_get_Some_iff [OF wf, of "fst x" "snd x"] by simp
    then show "(case x of (i, m, _) \<Rightarrow> if overlaps lo hi m then [(\<lparr>bl_id = i\<rparr>, m)] else []) =
        (case bt_get (mi_blocks s) (fst x) of None \<Rightarrow> [] | Some (m, _) \<Rightarrow> if overlaps lo hi m then [(\<lparr>bl_id = fst x\<rparr>, m)] else [])"
      by (cases x) auto
  qed
  ultimately show ?thesis
    using Nil scan_answers [OF wf] by (intro exI [of _ ?ids]) (simp add: mem_query_terms_def intersect_terms_def block_ids_def)
next
  case (Cons t ts)
  let ?ids = "filter (\<lambda>i. \<forall>u \<in> set ts. i \<in> set (posting (mi_terms s) u)) (posting (mi_terms s) t)"
  have "sorted (posting (mi_terms s) t)" "distinct (posting (mi_terms s) t)" using assms by (simp_all add: mem_wf_def terms_ok_def)
  then show ?thesis
    using Cons by (intro exI [of _ ?ids]) (auto simp: mem_query_terms_def intersect_terms_Cons answers_def sorted_wrt_filter)
qed

lemma query_exact:
  assumes "mem_wf s"
  shows "sorted_wrt (<) (map (\<lambda>(l, _). bl_id l) (mem_query_terms s terms lo hi))"
    and "(l, m) \<in> set (mem_query_terms s terms lo hi) \<longleftrightarrow>
      (\<exists>d ts. sp_blocks (store_abs s) (bl_id l) = Some (m, d, ts) \<and> set terms \<subseteq> ts \<and> overlaps lo hi m)"
proof -
  obtain ids where ids: "sorted ids" "distinct ids" "mem_query_terms s terms lo hi = answers s lo hi ids"
      "\<forall>i \<in> block_ids s. i \<in> set ids \<longleftrightarrow> (\<forall>t \<in> set terms. i \<in> set (posting (mi_terms s) t))"
    using query_answers [OF assms] by blast
  note a = answers_props [OF ids(1,2), of s lo hi]
  show "sorted_wrt (<) (map (\<lambda>(l, _). bl_id l) (mem_query_terms s terms lo hi))" using a ids(3) by simp
  have "bl_id l \<in> block_ids s" if "bt_get (mi_blocks s) (bl_id l) = Some x" for x
    using that by (auto simp: block_ids_def dest: map_of_SomeD intro: rev_image_eqI)
  then show "(l, m) \<in> set (mem_query_terms s terms lo hi) \<longleftrightarrow>
      (\<exists>d ts. sp_blocks (store_abs s) (bl_id l) = Some (m, d, ts) \<and> set terms \<subseteq> ts \<and> overlaps lo hi m)"
    using a ids(3,4) by (auto simp: store_abs_def subset_iff)
qed
lemma read_abs: "mem_read_block s l = ok_or (map_option (\<lambda>(_, d, _). d) (sp_blocks (store_abs s) (bl_id l))) (Invalid ''MemBlockStore: no block with id'')"
  by (cases "bt_get (mi_blocks s) (bl_id l)") (auto simp: mem_read_block_def store_abs_def)

lemma posting_readable:
  assumes "mem_wf s" "i \<in> set (posting (mi_terms s) t)"
  shows "\<exists>d. mem_read_block s \<lparr>bl_id = i\<rparr> = Inr d"
proof -
  have "i \<in> fst ` set (mi_blocks s)" using posting_ids [OF assms] by (simp add: block_ids_def)
  then have "bt_get (mi_blocks s) i \<noteq> None" by (simp add: map_of_eq_None_iff)
  then show ?thesis by (auto simp: mem_read_block_def)
qed

lemma read_removed:
  assumes "mem_wf s"
  shows "mem_read_block (remove_ids (map bl_id rem) s) l = (if l \<in> set rem then Inl (Invalid ''MemBlockStore: no block with id'') else mem_read_block s l)"
proof -
  have "bl_id l \<in> bl_id ` set rem \<longleftrightarrow> l \<in> set rem" by (metis (full_types) block_loc.equality image_iff old.unit.exhaust)
  then show ?thesis by (simp add: read_abs remove_ids_abs [OF assms] spec_remove_def restrict_map_def)
qed

subsection \<open>A store with two blocks\<close>

definition demo_block :: "int \<Rightarrow> str list \<Rightarrow> encoded_block" where
  "demo_block t ts = \<lparr>eb_meta = \<lparr>bm_ts_min = i64_of_int t, bm_ts_max = i64_of_int (t + 9), bm_entry_count = 1, bm_codec = 1\<rparr>,
     eb_data = [of_int t], eb_terms = ts\<rparr>"

definition demo_store :: mem_inner where
  "demo_store = snd (insert_all mem_new [demo_block 10 [str_lit ''a'', str_lit ''b''], demo_block 20 [str_lit ''a'']])"

lemma demo_reachable: "store_reachable demo_store"
proof (rule store_reachable.step [OF store_reachable.start])
  show "mem_step mem_new (OpPutAll [demo_block 10 [str_lit ''a'', str_lit ''b''], demo_block 20 [str_lit ''a'']]) demo_store"
    by (rule mem_step.put_all, simp add: has_room_def mem_new_def i64_int_def) (simp only: insert_all_put demo_store_def)
qed

lemma demo_store_values:
  "mem_read_block demo_store \<lparr>bl_id = I64 1\<rparr> = Inr [10]" "mem_read_block demo_store \<lparr>bl_id = I64 2\<rparr> = Inr [20]"
  "posting (mi_terms demo_store) (str_lit ''a'') = [I64 1, I64 2]" "posting (mi_terms demo_store) (str_lit ''b'') = [I64 1]"
  "mi_next_id demo_store = I64 2"
  by code_simp+

subsection \<open>Claims\<close>

text \<open>
  C16. Every operation of the in-memory block store refines the abstract store, in every state a run can
  reach: puts, batch puts, replacements, deletes, term replacement, term purges and configuration writes do
  to the map of blocks, their terms and the configuration exactly what the specification of that operation
  does. (Inserts are covered while the id counter has room, which is 2^63 blocks.)
\<close>

theorem store_refines:
  assumes "store_reachable s" "mem_step s op s'"
  shows "store_abs s' = spec_op op (store_abs s)"
  using mem_step_sim [OF assms(2) reachable_ok [OF assms(1)]] by simp

theorem store_refines_witness:
  "store_reachable demo_store \<and> mem_step demo_store (OpDelete [\<lparr>bl_id = I64 1\<rparr>]) (snd (mem_delete_blocks demo_store [\<lparr>bl_id = I64 1\<rparr>])) \<and>
   store_abs (snd (mem_delete_blocks demo_store [\<lparr>bl_id = I64 1\<rparr>])) = spec_op (OpDelete [\<lparr>bl_id = I64 1\<rparr>]) (store_abs demo_store)"
proof -
  have s: "mem_step demo_store (OpDelete [\<lparr>bl_id = I64 1\<rparr>]) (snd (mem_delete_blocks demo_store [\<lparr>bl_id = I64 1\<rparr>]))"
    by (rule mem_step.delete [where es = "fst (mem_delete_blocks demo_store [\<lparr>bl_id = I64 1\<rparr>])"]) simp
  show ?thesis using store_refines [OF demo_reachable s] demo_reachable s by blast
qed

text \<open>
  C17. The term index never dangles: in every reachable store each posting list is sorted, free of
  duplicates and not empty, and every block id in it names a block that can be read.
\<close>

theorem postings_never_dangle:
  assumes "store_reachable s"
  shows "sorted (posting (mi_terms s) t) \<and> distinct (posting (mi_terms s) t) \<and> (t, []) \<notin> set (mi_terms s) \<and>
    (\<forall>i \<in> set (posting (mi_terms s) t). \<exists>d. mem_read_block s \<lparr>bl_id = i\<rparr> = Inr d)"
  using reachable_ok [OF assms] posting_readable by (auto simp: store_ok_def mem_wf_def terms_ok_def)

theorem postings_never_dangle_witness:
  "store_reachable demo_store \<and> sorted (posting (mi_terms demo_store) (str_lit ''a'')) \<and> distinct (posting (mi_terms demo_store) (str_lit ''a'')) \<and>
   I64 2 \<in> set (posting (mi_terms demo_store) (str_lit ''a'')) \<and> (\<exists>d. mem_read_block demo_store \<lparr>bl_id = I64 2\<rparr> = Inr d)"
  using postings_never_dangle [OF demo_reachable, of "str_lit ''a''"] demo_reachable by (simp add: demo_store_values)

text \<open>
  C18. A term query is exact in every reachable store: it returns a block with its metadata exactly when
  the store holds that block, the block carries every queried term and its time range overlaps the queried
  one; results come in increasing block id order, each once. With no terms it is a time-range scan.
\<close>

theorem query_terms_exact:
  assumes "store_reachable s"
  shows "sorted_wrt (<) (map (\<lambda>(l, _). bl_id l) (mem_query_terms s terms lo hi)) \<and>
    ((l, m) \<in> set (mem_query_terms s terms lo hi) \<longleftrightarrow>
      (\<exists>d ts. sp_blocks (store_abs s) (bl_id l) = Some (m, d, ts) \<and> set terms \<subseteq> ts \<and> bm_ts_min m \<le> hi \<and> bm_ts_max m \<ge> lo))"
  using query_exact [of s] reachable_ok [OF assms] by (simp add: store_ok_def overlaps_def)

theorem query_terms_exact_witness:
  "store_reachable demo_store \<and> sorted_wrt (<) (map (\<lambda>(l, _). bl_id l) (mem_query_terms demo_store [str_lit ''a''] (I64 15) (I64 25))) \<and>
   (\<exists>d ts. sp_blocks (store_abs demo_store) (I64 2) = Some (eb_meta (demo_block 20 []), d, ts) \<and> str_lit ''a'' \<in> ts)"
proof -
  have "(\<lparr>bl_id = I64 2\<rparr>, eb_meta (demo_block 20 [])) \<in> set (mem_query_terms demo_store [str_lit ''a''] (I64 15) (I64 25))" by code_simp
  then show ?thesis
    using query_terms_exact [OF demo_reachable, of "[str_lit ''a'']" "I64 15" "I64 25" "\<lparr>bl_id = I64 2\<rparr>" "eb_meta (demo_block 20 [])"] demo_reachable
    by auto
qed

text \<open>
  C19. Replacing blocks never loses data: when the commit callback runs, every added block already reads
  back its data and every block that was in the store still reads as before, the blocks to be removed
  included; the owner's state is what the callback made of it; and afterwards exactly the removed locations
  are gone.
\<close>

theorem replace_never_loses:
  assumes "store_reachable s" "has_room s (length add)" "mem_replace_blocks s add rem on_committed e = (r, s', e')"
  shows "\<exists>locs mid. r = Inr locs \<and> e' = on_committed locs mid e \<and> distinct locs \<and>
    list_all2 (\<lambda>l b. isl (mem_read_block s l) \<and> mem_read_block mid l = Inr (eb_data b)) locs add \<and>
    (\<forall>l. l \<notin> set locs \<longrightarrow> mem_read_block mid l = mem_read_block s l) \<and>
    (\<forall>l. if l \<in> set rem then isl (mem_read_block s' l) else mem_read_block s' l = mem_read_block mid l)"
proof -
  have wf: "mem_wf s" using reachable_ok [OF assms(1)] by (simp add: store_ok_def)
  from mem.put_blocks_ok [OF wf assms(2)] obtain locs mid where p: "put_blocks mem_put_block s add = (Inr locs, mid)" "mem_wf mid" "distinct locs"
      "list_all2 (\<lambda>l b. isl (mem_read_block s l) \<and> mem_read_block mid l = Inr (eb_data b)) locs add"
      "\<forall>l. l \<notin> set locs \<longrightarrow> mem_read_block mid l = mem_read_block s l" by blast
  have i: "insert_all s add = (locs, mid)" using p(1) by (simp add: insert_all_put prod_eq_iff)
  have "r = Inr locs" "e' = on_committed locs mid e" "s' = remove_ids (map bl_id rem) mid"
    using assms(3) i by (auto simp: mem_replace_blocks_def)
  then show ?thesis using p read_removed [OF p(2)] by (intro exI [of _ locs] exI [of _ mid]) simp
qed

theorem replace_never_loses_witness:
  "store_reachable demo_store \<and> has_room demo_store (length [demo_block 30 []]) \<and>
   (case mem_replace_blocks demo_store [demo_block 30 []] [\<lparr>bl_id = I64 1\<rparr>] (\<lambda>ls _ _. length ls) 0 of (r, s', e') \<Rightarrow>
      e' = 1 \<and> isl (mem_read_block s' \<lparr>bl_id = I64 1\<rparr>) \<and> mem_read_block s' \<lparr>bl_id = I64 2\<rparr> = Inr [20])"
proof -
  have room: "has_room demo_store (length [demo_block 30 []])" by (simp add: has_room_def demo_store_values i64_int_def)
  obtain r s' e' where x: "mem_replace_blocks demo_store [demo_block 30 []] [\<lparr>bl_id = I64 1\<rparr>] (\<lambda>ls _ _. length ls) 0 = (r, s', e')"
    by (rule prod_cases3)
  from replace_never_loses [OF demo_reachable room x] obtain l mid where "e' = 1" "isl (mem_read_block demo_store l)"
      "\<forall>k. k \<noteq> l \<longrightarrow> mem_read_block mid k = mem_read_block demo_store k"
      "\<forall>k. if k = \<lparr>bl_id = I64 1\<rparr> then isl (mem_read_block s' k) else mem_read_block s' k = mem_read_block mid k"
    by (auto simp: list_all2_Cons2)
  then show ?thesis using room demo_reachable unfolding x by (cases "l = \<lparr>bl_id = I64 2\<rparr>") (auto simp: demo_store_values)
qed

end
