(* ===== verification/Engine.thy ===== *)
theory Engine
  imports BlockCodec BlockStore
begin

section \<open>The block engine: state, transactions, ingest\<close>

text \<open>
  \<open>crates/timeless-core/src/blocks/engine.rs\<close>, one operation at a time: the transition lock makes every
  operation that changes the engine exclusive. The store is the trait object of the source, a record of its
  operations on a state of its own. Statistics and clocks are left out, and so is the pool of spare journal frames, whose
  contents are cleared before use.
\<close>

subsection \<open>State\<close>

record block_engine_config =
  bc_flush_threshold :: nat
  bc_zstd_level :: int
  bc_merge_target_entries :: nat
  bc_merge_max_ts_span :: i64
  bc_merge_span_growth_limit :: i64
  bc_message_trigrams :: bool
  bc_index_keys :: "str list"
  bc_auto_optimize_interval_flushes :: nat
  bc_auto_optimize_budget_entries :: nat

definition default_config :: block_engine_config where
  "default_config = \<lparr>bc_flush_threshold = 8192, bc_zstd_level = 7, bc_merge_target_entries = 8192,
     bc_merge_max_ts_span = I64_MAX, bc_merge_span_growth_limit = I64 2, bc_message_trigrams = False,
     bc_index_keys = [], bc_auto_optimize_interval_flushes = 30, bc_auto_optimize_budget_entries = 32768\<rparr>"

record index_entry =
  ie_meta :: block_meta
  ie_loc :: block_loc
  ie_partition :: "byte option"

record txn_frame =
  tf_savepoint :: "int option"
  tf_buffer_mark :: nat
  tf_saved :: "log_entry list"
  tf_added :: "i64 set"
  tf_removed :: "index_entry list"

text \<open>
  The operations of the store. The callback of \<open>replace_blocks\<close> rewrites the index and the journal frame that
  is open, if there is one.
\<close>

type_synonym index_state = "index_entry list \<times> txn_frame option"

record 's store_ops =
  so_put_blocks :: "'s \<Rightarrow> encoded_block list \<Rightarrow> block_loc list res \<times> 's"
  so_replace_blocks :: "'s \<Rightarrow> encoded_block list \<Rightarrow> block_loc list \<Rightarrow> (block_loc list \<Rightarrow> index_state \<Rightarrow> index_state) \<Rightarrow>
    index_state \<Rightarrow> block_loc list res \<times> 's \<times> index_state"
  so_read_block :: "'s \<Rightarrow> block_loc \<Rightarrow> bytes res"
  so_delete_blocks :: "'s \<Rightarrow> block_loc list \<Rightarrow> err list \<times> 's"
  so_scan :: "'s \<Rightarrow> (block_meta \<times> block_loc) list res"
  so_query_terms :: "'s \<Rightarrow> str list \<Rightarrow> i64 \<Rightarrow> i64 \<Rightarrow> (block_loc \<times> block_meta) list res"
  so_replace_terms :: "'s \<Rightarrow> block_loc \<Rightarrow> str list \<Rightarrow> unit res \<times> 's"
  so_purge_term_prefix :: "'s \<Rightarrow> str \<Rightarrow> u64 res \<times> 's"
  so_save_meta :: "'s \<Rightarrow> str \<Rightarrow> bytes \<Rightarrow> unit res \<times> 's"
  so_load_meta :: "'s \<Rightarrow> str \<Rightarrow> bytes option res"
  so_check_cancelled :: "'s \<Rightarrow> unit res"
  so_locations_stay_readable :: "'s \<Rightarrow> bool"

definition mem_ops :: "mem_inner store_ops" where
  "mem_ops = \<lparr>so_put_blocks = put_blocks mem_put_block,
     so_replace_blocks = (\<lambda>s add rem on_committed e. mem_replace_blocks s add rem (\<lambda>locs _. on_committed locs) e),
     so_read_block = mem_read_block, so_delete_blocks = mem_delete_blocks, so_scan = (\<lambda>s. Inr (mem_scan s)),
     so_query_terms = (\<lambda>s terms lo hi. Inr (mem_query_terms s terms lo hi)),
     so_replace_terms = mem_replace_terms, so_purge_term_prefix = (\<lambda>s pre. apfst Inr (mem_purge_term_prefix s pre)),
     so_save_meta = (\<lambda>s k v. (Inr (), mem_save_meta s k v)), so_load_meta = (\<lambda>s k. Inr (mem_load_meta s k)),
     so_check_cancelled = (\<lambda>_. Inr ()), so_locations_stay_readable = (\<lambda>_. False)\<rparr>"

text \<open>What does not change while an engine runs: libraries, store operations, configuration.\<close>

record 's engine_env =
  en_lib :: codec_lib
  en_js :: json_lib
  en_lower :: "str \<Rightarrow> str"
  en_ops :: "'s store_ops"
  en_config :: block_engine_config

record 's block_engine =
  be_store :: 's
  be_buffer :: "log_entry list"
  be_index :: "index_entry list"
  be_txn_active :: bool
  be_frames :: "txn_frame list"
  be_retention_native :: i64
  be_retention_floor :: i64
  be_flushes_since_auto_optimize :: nat
  be_auto_optimize_interval :: nat
  be_trigram_purge_checked :: bool

subsection \<open>Transactions\<close>

text \<open>Journal frames, the innermost one last.\<close>

definition new_frame :: "nat \<Rightarrow> int option \<Rightarrow> txn_frame" where
  "new_frame mark sp = \<lparr>tf_savepoint = sp, tf_buffer_mark = mark, tf_saved = [], tf_added = {}, tf_removed = []\<rparr>"

definition reset_txn_frame :: "'s block_engine \<Rightarrow> int option \<Rightarrow> txn_frame" where
  "reset_txn_frame eng sp = new_frame (length (be_buffer eng)) sp"

definition rollback_txn_frame :: "txn_frame \<Rightarrow> 's block_engine \<Rightarrow> 's block_engine" where
  "rollback_txn_frame f eng =
     eng\<lparr>be_buffer := take (tf_buffer_mark f) (be_buffer eng) @ tf_saved f,
         be_index := filter (\<lambda>e. bl_id (ie_loc e) \<notin> tf_added f) (be_index eng) @ tf_removed f\<rparr>"

definition journal_remove :: "index_entry \<Rightarrow> txn_frame \<Rightarrow> txn_frame" where
  "journal_remove e f =
     (if bl_id (ie_loc e) \<in> tf_added f then f\<lparr>tf_added := tf_added f - {bl_id (ie_loc e)}\<rparr>
      else f\<lparr>tf_removed := tf_removed f @ [e]\<rparr>)"

definition journal_add :: "block_loc \<Rightarrow> txn_frame \<Rightarrow> txn_frame" where
  "journal_add loc f = f\<lparr>tf_added := insert (bl_id loc) (tf_added f)\<rparr>"

definition merge_txn_frame :: "txn_frame \<Rightarrow> txn_frame \<Rightarrow> txn_frame" where
  "merge_txn_frame parent child =
     (let parent = (if tf_buffer_mark parent > 0 \<and> tf_saved child \<noteq> [] then
            parent\<lparr>tf_saved := tf_saved parent @ take (tf_buffer_mark parent) (tf_saved child), tf_buffer_mark := 0\<rparr>
          else parent);
          parent = fold journal_remove (tf_removed child) parent
      in parent\<lparr>tf_added := tf_added parent \<union> tf_added child\<rparr>)"

definition txn_begin :: "'s block_engine \<Rightarrow> 's block_engine" where
  "txn_begin eng = eng\<lparr>be_frames := [reset_txn_frame eng None], be_txn_active := True\<rparr>"

definition txn_commit :: "'s block_engine \<Rightarrow> 's block_engine" where
  "txn_commit eng = eng\<lparr>be_frames := [], be_txn_active := False\<rparr>"

definition txn_rollback :: "'s block_engine \<Rightarrow> 's block_engine" where
  "txn_rollback eng =
     (if \<not> be_txn_active eng then eng
      else (foldr rollback_txn_frame (be_frames eng) eng)\<lparr>be_frames := [], be_txn_active := False\<rparr>)"

definition txn_savepoint :: "int \<Rightarrow> 's block_engine \<Rightarrow> 's block_engine" where
  "txn_savepoint sp eng =
     (if \<not> be_txn_active eng then eng else eng\<lparr>be_frames := be_frames eng @ [reset_txn_frame eng (Some sp)]\<rparr>)"

text \<open>\<open>iter().position\<close>: the frames before the first one with the savepoint, and those from it on.\<close>

definition split_frames :: "int \<Rightarrow> txn_frame list \<Rightarrow> txn_frame list \<times> txn_frame list" where
  "split_frames sp frames =
     (takeWhile (\<lambda>f. tf_savepoint f \<noteq> Some sp) frames, dropWhile (\<lambda>f. tf_savepoint f \<noteq> Some sp) frames)"

definition txn_release :: "int \<Rightarrow> 's block_engine \<Rightarrow> 's block_engine" where
  "txn_release sp eng =
     (let (outer, released) = split_frames sp (be_frames eng) in
      if released = [] \<or> outer = [] then eng
      else eng\<lparr>be_frames := butlast outer @ [foldl merge_txn_frame (last outer) released]\<rparr>)"

definition txn_rollback_to :: "int \<Rightarrow> 's block_engine \<Rightarrow> 's block_engine" where
  "txn_rollback_to sp eng =
     (let (outer, undone) = split_frames sp (be_frames eng) in
      if undone = [] then eng
      else let eng = foldr rollback_txn_frame undone eng
           in eng\<lparr>be_frames := outer @ [reset_txn_frame eng (Some sp)]\<rparr>)"

text \<open>
  The frame mutations are journaled in, while a transaction is active. An active journal without a frame would be the
  panic of \<open>expect\<close>.
\<close>

definition txn_guard :: "'s block_engine \<Rightarrow> txn_frame option res" where
  "txn_guard eng =
     (if \<not> be_txn_active eng then Inr None
      else if be_frames eng = [] then Inl (Panic ''active journal has an undo frame'')
      else Inr (Some (last (be_frames eng))))"

definition set_frame :: "txn_frame option \<Rightarrow> 's block_engine \<Rightarrow> 's block_engine" where
  "set_frame j eng = (case j of None \<Rightarrow> eng | Some f \<Rightarrow> eng\<lparr>be_frames := butlast (be_frames eng) @ [f]\<rparr>)"

text \<open>The entries below the mark go to the journal before they are disturbed; a mark past the buffer would panic.\<close>

definition capture_prefix :: "log_entry list \<Rightarrow> txn_frame \<Rightarrow> txn_frame res" where
  "capture_prefix buf f =
     (if tf_buffer_mark f = 0 then Inr f
      else if tf_buffer_mark f > length buf then Inl (Panic ''slice'')
      else Inr (f\<lparr>tf_saved := tf_saved f @ take (tf_buffer_mark f) buf, tf_buffer_mark := 0\<rparr>))"

definition capture :: "log_entry list \<Rightarrow> txn_frame option \<Rightarrow> txn_frame option res" where
  "capture buf j = (case j of None \<Rightarrow> Inr None | Some f \<Rightarrow> and_then (capture_prefix buf f) (\<lambda>f. Inr (Some f)))"

subsection \<open>Entries\<close>

definition normalize_rich_entry :: "log_entry \<Rightarrow> log_entry res" where
  "normalize_rich_entry e =
     (case le_severity e of
        None \<Rightarrow> Inr e
      | Some severity \<Rightarrow>
          and_then (canonical_severity severity) (\<lambda>canonical.
          and_then (level_from_name canonical) (\<lambda>bucket.
          if bucket \<noteq> le_level e then Inl (Invalid ''severity belongs to another level bucket'')
          else Inr (if canonical \<noteq> severity then e\<lparr>le_severity := Some canonical\<rparr> else e))))"

text \<open>\<open>dedup_by\<close> keeps the first of each run of equal keys.\<close>

fun dedup_keys :: "(str \<times> str) list \<Rightarrow> (str \<times> str) list" where
  "dedup_keys [] = []"
| "dedup_keys [p] = [p]"
| "dedup_keys (p # q # ps) = (if fst p = fst q then dedup_keys (p # ps) else p # dedup_keys (q # ps))"

definition normalize_metadata :: "(str \<times> str) list \<Rightarrow> (str \<times> str) list" where
  "normalize_metadata ps = rev (dedup_keys (rev (sort_key fst ps)))"

definition normalize_entry :: "log_entry \<Rightarrow> log_entry res" where
  "normalize_entry e =
     (if le_level e > 3 then Inl (Invalid ''invalid level'')
      else and_then (normalize_rich_entry e) (\<lambda>e. Inr (e\<lparr>le_metadata := normalize_metadata (le_metadata e)\<rparr>)))"

subsection \<open>Terms\<close>

definition MAX_BLOCK_TRIGRAMS :: nat where "MAX_BLOCK_TRIGRAMS = 4096"

definition level_term :: "byte \<Rightarrow> str res" where
  "level_term level = and_then (level_name level) (\<lambda>name. Inr (str_lit ''level:'' @ name))"

definition pair_term :: "str \<Rightarrow> str \<Rightarrow> str" where
  "pair_term k v = k @ [0x3A] @ v"

definition hex_digit :: "nat \<Rightarrow> byte" where
  "hex_digit n = of_nat (if n < 10 then 0x30 + n else 0x57 + n)"

definition tg_term :: "bytes \<Rightarrow> str" where
  "tg_term w = str_lit ''tg:'' @ concat (map (\<lambda>b. [hex_digit (unat b div 16), hex_digit (unat b mod 16)]) w)"

definition fold_byte :: "byte \<Rightarrow> byte" where
  "fold_byte b = (if is_ascii_upper b then b + 32 else b)"

definition message_trigrams_of :: "str \<Rightarrow> bytes list" where
  "message_trigrams_of s = map (map fold_byte) (windows 3 s)"

definition like_pattern_trigrams :: "str \<Rightarrow> str list" where
  "like_pattern_trigrams pattern =
     map tg_term (btree_set (concat (map message_trigrams_of (split_by (\<lambda>b. b = 0x25 \<or> b = 0x5F) pattern))))"

definition message_contains_trigrams :: "str \<Rightarrow> str list" where
  "message_contains_trigrams needle = (if \<not> is_ascii needle then [] else map tg_term (btree_set (message_trigrams_of needle)))"

text \<open>The scan stops at the first entry that takes the set over the budget.\<close>

fun scan_trigrams :: "bytes list \<Rightarrow> log_entry list \<Rightarrow> bytes list" where
  "scan_trigrams acc [] = acc"
| "scan_trigrams acc (e # es) =
     (let acc = btree_set (acc @ message_trigrams_of (le_message e))
      in if length acc > MAX_BLOCK_TRIGRAMS then acc else scan_trigrams acc es)"

definition extract_terms_with :: "block_engine_config \<Rightarrow> log_entry list \<Rightarrow> str list \<Rightarrow> str list res" where
  "extract_terms_with cfg entries index_keys =
     and_then (collect_r (\<lambda>e. level_term (le_level e)) entries) (\<lambda>levels.
     let pairs = concat (map (\<lambda>e. map (\<lambda>(k, v). pair_term k v) (filter (\<lambda>(k, _). k \<in> set index_keys) (le_metadata e))) entries);
         trigrams = (if bc_message_trigrams cfg then scan_trigrams [] entries else []);
         tgs = (if bc_message_trigrams cfg \<and> length trigrams \<le> MAX_BLOCK_TRIGRAMS then str_lit ''tg:'' # map tg_term trigrams else [])
     in Inr (btree_set (levels @ pairs @ tgs)))"

definition extract_terms :: "block_engine_config \<Rightarrow> log_entry list \<Rightarrow> str list res" where
  "extract_terms cfg entries = extract_terms_with cfg entries (bc_index_keys cfg)"

end
