(* ===== verification/EnginePlan.thy ===== *)
theory EnginePlan
  imports Engine "HOL-Library.Option_ord"
begin

section \<open>The block engine: planning compaction\<close>

text \<open>
  \<open>plan_optimize\<close> and its helpers (\<open>blocks/engine.rs\<close>): raw blocks are grouped for compression, compressed
  blocks for merging, within each level partition.
\<close>

subsection \<open>Saturating arithmetic\<close>

definition i64_saturate :: "int \<Rightarrow> i64" where
  "i64_saturate k = i64_of_int (max (- (2 ^ 63)) (min (2 ^ 63 - 1) k))"

definition i64_saturating_sub :: "i64 \<Rightarrow> i64 \<Rightarrow> i64" where
  "i64_saturating_sub a b = i64_saturate (i64_int a - i64_int b)"

definition i64_saturating_add :: "i64 \<Rightarrow> i64 \<Rightarrow> i64" where
  "i64_saturating_add a b = i64_saturate (i64_int a + i64_int b)"

definition i64_saturating_mul :: "i64 \<Rightarrow> i64 \<Rightarrow> i64" where
  "i64_saturating_mul a b = i64_saturate (i64_int a * i64_int b)"

definition usize_saturating_add :: "nat \<Rightarrow> nat \<Rightarrow> nat" where
  "usize_saturating_add a b = min USIZE_MAX (a + b)"

definition usize_saturating_mul :: "nat \<Rightarrow> nat \<Rightarrow> nat" where
  "usize_saturating_mul a b = min USIZE_MAX (a * b)"

text \<open>\<open>sum::<usize>()\<close> wraps.\<close>

definition usize_sum :: "nat list \<Rightarrow> nat" where
  "usize_sum ns = sum_list ns mod 2 ^ 64"

definition div_ceil :: "nat \<Rightarrow> nat \<Rightarrow> nat" where
  "div_ceil a b = (if a mod b = 0 then a div b else Suc (a div b))"

subsection \<open>Groups\<close>

datatype optimize_kind = RawCompression | CompressedMerge

record optimize_group =
  og_sources :: "index_entry list"
  og_partition :: "byte option"
  og_kind :: optimize_kind

definition ie_count :: "index_entry \<Rightarrow> nat" where
  "ie_count e = unat (bm_entry_count (ie_meta e))"

definition group_count :: "optimize_group \<Rightarrow> nat" where
  "group_count g = usize_sum (map ie_count (og_sources g))"

definition merged_span_fits :: "i64 \<Rightarrow> i64 \<Rightarrow> block_meta \<Rightarrow> i64 \<Rightarrow> bool" where
  "merged_span_fits current_min current_max next max_span \<longleftrightarrow>
     i64_saturating_sub (max current_max (bm_ts_max next)) (min current_min (bm_ts_min next)) \<le> max_span"

definition merge_span_growth_ok :: "index_entry list \<Rightarrow> i64 \<Rightarrow> bool" where
  "merge_span_growth_ok sources limit \<longleftrightarrow>
     (let covered = fold (\<lambda>e acc. i64_saturating_add acc (i64_saturating_sub (bm_ts_max (ie_meta e)) (bm_ts_min (ie_meta e)))) sources (I64 0)
      in sources = [] \<or>
         i64_saturating_sub (Max (set (map (\<lambda>e. bm_ts_max (ie_meta e)) sources))) (Min (set (map (\<lambda>e. bm_ts_min (ie_meta e)) sources)))
           \<le> i64_saturating_mul covered (max limit (I64 1)))"

definition sort_by_range :: "index_entry list \<Rightarrow> index_entry list" where
  "sort_by_range es = sort_key (\<lambda>e. (bm_ts_min (ie_meta e), bm_ts_max (ie_meta e))) es"

text \<open>
  The loop over the raw blocks of a partition; the groups come in order, the open one last. The range of the open
  group is only read when it is not empty.
\<close>

fun raw_groups ::
  "block_engine_config \<Rightarrow> byte option \<Rightarrow> index_entry list \<Rightarrow> nat \<Rightarrow> i64 \<Rightarrow> i64 \<Rightarrow> index_entry list \<Rightarrow> optimize_group list" where
  "raw_groups cfg part current n lo hi [] =
     (if current = [] then [] else [\<lparr>og_sources = current, og_partition = part, og_kind = RawCompression\<rparr>])"
| "raw_groups cfg part current n lo hi (e # es) =
     (if current = [] then
        raw_groups cfg part [e] (usize_saturating_add n (ie_count e)) (bm_ts_min (ie_meta e)) (bm_ts_max (ie_meta e)) es
      else if usize_saturating_add n (ie_count e) \<le> bc_merge_target_entries cfg \<and> merged_span_fits lo hi (ie_meta e) (bc_merge_max_ts_span cfg) then
        raw_groups cfg part (current @ [e]) (usize_saturating_add n (ie_count e)) (min lo (bm_ts_min (ie_meta e))) (max hi (bm_ts_max (ie_meta e))) es
      else
        \<lparr>og_sources = current, og_partition = part, og_kind = RawCompression\<rparr> #
        raw_groups cfg part [e] (usize_saturating_add 0 (ie_count e)) (bm_ts_min (ie_meta e)) (bm_ts_max (ie_meta e)) es)"

definition plan_raw_groups :: "block_engine_config \<Rightarrow> index_entry list \<Rightarrow> byte option \<Rightarrow> optimize_group list" where
  "plan_raw_groups cfg entries part = raw_groups cfg part [] 0 (I64 0) (I64 0) (sort_by_range entries)"

definition push_compressed_group :: "block_engine_config \<Rightarrow> index_entry list \<Rightarrow> byte option \<Rightarrow> bool \<Rightarrow> optimize_group list" where
  "push_compressed_group cfg sources part closed =
     (let group = \<lparr>og_sources = sources, og_partition = part, og_kind = CompressedMerge\<rparr> in
      if length sources < 2 then []
      else if closed then [group]
      else let entries = usize_sum (map ie_count sources); largest = fold max (map ie_count sources) 0;
               minimum_fill = div_ceil (bc_merge_target_entries cfg) 2
           in if entries < minimum_fill \<or> entries < usize_saturating_mul largest 2 then []
              else if \<not> merge_span_growth_ok sources (bc_merge_span_growth_limit cfg) then []
              else [group])"

fun segment_groups :: "block_engine_config \<Rightarrow> byte option \<Rightarrow> bool \<Rightarrow> nat \<Rightarrow> index_entry list \<Rightarrow> nat \<Rightarrow> index_entry list \<Rightarrow> optimize_group list" where
  "segment_groups cfg part closed limit current n [] = push_compressed_group cfg current part closed"
| "segment_groups cfg part closed limit current n (e # es) =
     (if current \<noteq> [] \<and> usize_saturating_add n (ie_count e) > limit then
        push_compressed_group cfg current part closed @
        segment_groups cfg part closed limit [e] (usize_saturating_add 0 (ie_count e)) es
      else segment_groups cfg part closed limit (current @ [e]) (usize_saturating_add n (ie_count e)) es)"

definition plan_compressed_segment :: "block_engine_config \<Rightarrow> index_entry list \<Rightarrow> byte option \<Rightarrow> i64 \<Rightarrow> optimize_group list" where
  "plan_compressed_segment cfg entries part store_newest =
     (let closed = (entries \<noteq> [] \<and>
            Max (set (map (\<lambda>e. bm_ts_max (ie_meta e)) entries)) \<le> i64_saturating_sub store_newest (bc_merge_max_ts_span cfg));
          ordered = sort_key (\<lambda>e. (bm_entry_count (ie_meta e), bm_ts_min (ie_meta e), bm_ts_max (ie_meta e))) entries;
          limit = usize_saturating_add (bc_merge_target_entries cfg) (div_ceil (bc_merge_target_entries cfg) 4)
      in segment_groups cfg part closed limit [] 0 ordered)"

fun compressed_segments :: "block_engine_config \<Rightarrow> byte option \<Rightarrow> i64 \<Rightarrow> index_entry list \<Rightarrow> i64 \<Rightarrow> i64 \<Rightarrow> index_entry list \<Rightarrow> optimize_group list" where
  "compressed_segments cfg part newest segment lo hi [] = plan_compressed_segment cfg segment part newest"
| "compressed_segments cfg part newest segment lo hi (e # es) =
     (if segment = [] then
        compressed_segments cfg part newest [e] (bm_ts_min (ie_meta e)) (bm_ts_max (ie_meta e)) es
      else if merged_span_fits lo hi (ie_meta e) (bc_merge_max_ts_span cfg) then
        compressed_segments cfg part newest (segment @ [e]) (min lo (bm_ts_min (ie_meta e))) (max hi (bm_ts_max (ie_meta e))) es
      else
        plan_compressed_segment cfg segment part newest @
        compressed_segments cfg part newest [e] (bm_ts_min (ie_meta e)) (bm_ts_max (ie_meta e)) es)"

definition plan_compressed_groups :: "block_engine_config \<Rightarrow> index_entry list \<Rightarrow> byte option \<Rightarrow> i64 \<Rightarrow> optimize_group list" where
  "plan_compressed_groups cfg entries part store_newest =
     compressed_segments cfg part store_newest [] (I64 0) (I64 0) (sort_by_range entries)"

subsection \<open>The plan\<close>

definition bucket_index :: "index_entry \<Rightarrow> nat" where
  "bucket_index e = (case ie_partition e of None \<Rightarrow> 4 | Some p \<Rightarrow> unat p)"

definition bucket_partition :: "nat \<Rightarrow> byte option" where
  "bucket_partition b = (if b < 4 then Some (of_nat b) else None)"

definition newest_ts :: "index_entry list \<Rightarrow> i64" where
  "newest_ts index = (if index = [] then I64_MIN else Max (set (map (\<lambda>e. bm_ts_max (ie_meta e)) index)))"

definition plan_key :: "optimize_group \<Rightarrow> nat \<times> i64 \<times> byte option" where
  "plan_key g =
     (case og_kind g of RawCompression \<Rightarrow> 0 | CompressedMerge \<Rightarrow> 1,
      if og_sources g = [] then I64_MAX else Min (set (map (\<lambda>e. bm_ts_min (ie_meta e)) (og_sources g))),
      og_partition g)"

text \<open>A partition that has no bucket would be an index out of bounds.\<close>

definition plan_optimize :: "block_engine_config \<Rightarrow> index_entry list \<Rightarrow> index_entry list \<Rightarrow> optimize_group list res" where
  "plan_optimize cfg index candidates =
     (if list_ex (\<lambda>e. bucket_index e \<ge> 5) candidates then Inl (Panic ''index out of bounds'')
      else Inr (sort_key plan_key (concat (map (\<lambda>b.
        plan_raw_groups cfg (filter (\<lambda>e. bucket_index e = b \<and> is_raw_codec (bm_codec (ie_meta e))) candidates) (bucket_partition b) @
        plan_compressed_groups cfg (filter (\<lambda>e. bucket_index e = b \<and> \<not> is_raw_codec (bm_codec (ie_meta e))) candidates)
          (bucket_partition b) (newest_ts index))
        [0..<5]))))"

definition optimize_candidates :: "block_engine_config \<Rightarrow> index_entry list \<Rightarrow> index_entry list" where
  "optimize_candidates cfg index =
     filter (\<lambda>e. is_raw_codec (bm_codec (ie_meta e)) \<or> ie_count e < bc_merge_target_entries cfg) index"

text \<open>
  How many groups a call may take. The first is always taken, so that a bounded call makes progress; the flag says that
  the budget left some out.
\<close>

fun select_groups :: "nat option \<Rightarrow> optimize_group list \<Rightarrow> nat \<Rightarrow> optimize_group list \<Rightarrow> optimize_group list \<times> bool" where
  "select_groups budget selected n [] = (selected, False)"
| "select_groups budget selected n (g # gs) =
     (if budget \<noteq> None \<and> selected \<noteq> [] \<and> usize_saturating_add n (group_count g) > the budget then (selected, True)
      else select_groups budget (selected @ [g]) (usize_saturating_add n (group_count g)) gs)"

end
