(* ===== verification/EngineOps.thy ===== *)
theory EngineOps
  imports EnginePlan
begin

section \<open>The block engine: operations\<close>

text \<open>
  The operations of \<open>blocks/engine.rs\<close> that change the engine: recovery, push, flush, optimize, prune,
  retention and reindexing. An operation takes the engine and returns its result with the engine it leaves,
  which after an error is whatever had been done by then.
\<close>

type_synonym ('s, 'a) act = "'s block_engine \<Rightarrow> 'a res \<times> 's block_engine"

definition act_bind :: "('s, 'a) act \<Rightarrow> ('a \<Rightarrow> ('s, 'b) act) \<Rightarrow> ('s, 'b) act" where
  "act_bind m f eng = (case m eng of (Inl e, eng) \<Rightarrow> (Inl e, eng) | (Inr x, eng) \<Rightarrow> f x eng)"

subsection \<open>Persisted totals\<close>

definition U64_MAX :: nat where "U64_MAX = 18446744073709551615"

definition u64_saturating_add :: "nat \<Rightarrow> nat \<Rightarrow> nat" where
  "u64_saturating_add a b = min U64_MAX (a + b)"

text \<open>\<open>parse::<u64>()\<close>: an optional plus sign and digits. Bytes that are not UTF-8 are no digits either.\<close>

definition parse_u64 :: "bytes \<Rightarrow> nat option" where
  "parse_u64 s =
     (let ds = (if s \<noteq> [] \<and> hd s = 0x2B then tl s else s)
      in if ds = [] \<or> \<not> list_all is_ascii_digit ds \<or> decimal_val 0 ds > U64_MAX then None else Some (decimal_val 0 ds))"

definition load_ingest_raw_total :: "'s engine_env \<Rightarrow> 's \<Rightarrow> nat res" where
  "load_ingest_raw_total env s =
     and_then (so_load_meta (en_ops env) s (str_lit ''ingest_raw_bytes_total'')) (\<lambda>v.
     Inr (case v of None \<Rightarrow> 0
          | Some bs \<Rightarrow> (case (if valid_utf8 bs then parse_u64 (str_trim bs) else None) of None \<Rightarrow> 0 | Some n \<Rightarrow> n)))"

definition load_compression_totals :: "'s engine_env \<Rightarrow> 's \<Rightarrow> (nat \<times> nat) res" where
  "load_compression_totals env s =
     and_then (so_load_meta (en_ops env) s (str_lit ''compression_totals'')) (\<lambda>v.
     Inr (case v of None \<Rightarrow> (0, 0)
          | Some bs \<Rightarrow>
              let parts = filter (\<lambda>p. p \<noteq> []) (split_by is_ascii_whitespace bs);
                  nth_total = (\<lambda>i. if i < length parts then (case parse_u64 (parts ! i) of None \<Rightarrow> 0 | Some n \<Rightarrow> n) else 0)
              in (nth_total 0, nth_total 1)))"

definition save_meta :: "'s engine_env \<Rightarrow> str \<Rightarrow> bytes \<Rightarrow> ('s, unit) act" where
  "save_meta env k v eng = (let (r, s) = so_save_meta (en_ops env) (be_store eng) k v in (r, eng\<lparr>be_store := s\<rparr>))"

definition persist_ingest_raw_total :: "'s engine_env \<Rightarrow> nat \<Rightarrow> ('s, unit) act" where
  "persist_ingest_raw_total env added eng =
     (if added = 0 then (Inr (), eng)
      else case load_ingest_raw_total env (be_store eng) of
          Inl e \<Rightarrow> (Inl e, eng)
        | Inr before \<Rightarrow> save_meta env (str_lit ''ingest_raw_bytes_total'') (decimal_digits (u64_saturating_add before added)) eng)"

definition persist_compression_totals :: "'s engine_env \<Rightarrow> nat \<Rightarrow> nat \<Rightarrow> nat \<Rightarrow> nat \<Rightarrow> ('s, unit) act" where
  "persist_compression_totals env raw_in raw_out merge_in merge_out eng =
     (if raw_in = 0 \<and> merge_in = 0 then (Inr (), eng)
      else case load_compression_totals env (be_store eng) of
          Inl e \<Rightarrow> (Inl e, eng)
        | Inr (input_total, output_total) \<Rightarrow>
            save_meta env (str_lit ''compression_totals'')
              (decimal_digits (u64_saturating_add input_total raw_in) @ [0x20] @
               decimal_digits (u64_saturating_add (u64_saturating_add output_total raw_out) merge_out - merge_in)) eng)"

subsection \<open>Flush\<close>

text \<open>The runs of equal level of the sorted buffer.\<close>

function level_runs :: "log_entry list \<Rightarrow> log_entry list list" where
  "level_runs [] = []"
| "level_runs (e # es) =
     (e # takeWhile (\<lambda>x. le_level x = le_level e) es) # level_runs (dropWhile (\<lambda>x. le_level x = le_level e) es)"
  by pat_completeness auto
termination
  by (relation "measure length") (auto simp: le_imp_less_Suc length_dropWhile_le)

definition encode_run :: "'s engine_env \<Rightarrow> log_entry list \<Rightarrow> encoded_block res" where
  "encode_run env run =
     and_then (encode_block (en_lib env) (en_js env) run (if list_ex is_rich run then CODEC_RICH_RAW else CODEC_RAW)
                 (bc_zstd_level (en_config env))) (\<lambda>(d, meta).
     and_then (extract_terms (en_config env) run) (\<lambda>terms.
     Inr \<lparr>eb_meta = meta, eb_data = d, eb_terms = terms\<rparr>))"

definition journal_adds :: "block_loc list \<Rightarrow> txn_frame option \<Rightarrow> txn_frame option" where
  "journal_adds locs j = map_option (fold journal_add locs) j"

definition index_entries :: "block_meta list \<Rightarrow> block_loc list \<Rightarrow> byte option list \<Rightarrow> index_entry list" where
  "index_entries metas locs parts =
     map (\<lambda>((m, l), p). \<lparr>ie_meta = m, ie_loc = l, ie_partition = p\<rparr>) (zip (zip metas locs) parts)"

definition flush_inner :: "'s engine_env \<Rightarrow> ('s, nat) act" where
  "flush_inner env eng =
     (if be_buffer eng = [] then (Inr 0, eng)
      else case and_then (txn_guard eng) (capture (be_buffer eng)) of Inl e \<Rightarrow> (Inl e, eng) | Inr j \<Rightarrow>
        let buf = sort_key (\<lambda>e. (le_level e, le_ts e)) (be_buffer eng);
            eng = (set_frame j eng)\<lparr>be_buffer := buf\<rparr>;
            runs = level_runs buf
        in case collect_r (encode_run env) runs of Inl e \<Rightarrow> (Inl e, eng) | Inr blocks \<Rightarrow>
        let (r, s) = so_put_blocks (en_ops env) (be_store eng) blocks; eng = eng\<lparr>be_store := s\<rparr>
        in case r of Inl e \<Rightarrow> (Inl e, eng) | Inr locs \<Rightarrow>
        act_bind (persist_ingest_raw_total env (sum_list (map raw_ingest_bytes buf) mod 2 ^ 64)) (\<lambda>_ eng.
          let new = index_entries (map eb_meta blocks) locs (map (\<lambda>run. Some (le_level (hd run))) runs);
              eng = (set_frame (journal_adds (map ie_loc new) j) eng)\<lparr>be_index := be_index eng @ new, be_buffer := []\<rparr>
          in (Inr (length buf), eng)) eng)"

subsection \<open>Prune and retention\<close>

definition prune :: "'s engine_env \<Rightarrow> i64 \<Rightarrow> ('s, nat) act" where
  "prune env cutoff eng =
     (case and_then (txn_guard eng) (capture (be_buffer eng)) of Inl e \<Rightarrow> (Inl e, eng) | Inr j \<Rightarrow>
      let gone = filter (\<lambda>e. bm_ts_max (ie_meta e) < cutoff) (be_index eng);
          victims = map ie_loc gone;
          eng = (set_frame j eng)\<lparr>be_buffer := filter (\<lambda>e. le_ts e \<ge> cutoff) (be_buffer eng)\<rparr>
      in if victims = [] then (Inr 0, eng)
         else let (errors, s) = so_delete_blocks (en_ops env) (be_store eng) victims; eng = eng\<lparr>be_store := s\<rparr>
              in if errors \<noteq> [] then (Inl (Invalid ''prune errors''), eng)
                 else (Inr (length victims),
                       (set_frame (map_option (fold journal_remove gone) j) eng)
                         \<lparr>be_index := filter (\<lambda>e. bm_ts_max (ie_meta e) \<ge> cutoff) (be_index eng)\<rparr>))"

definition ts_range :: "'s block_engine \<Rightarrow> i64 option \<times> i64 option" where
  "ts_range eng =
     (let mins = map (\<lambda>e. bm_ts_min (ie_meta e)) (be_index eng) @ map le_ts (be_buffer eng);
          maxs = map (\<lambda>e. bm_ts_max (ie_meta e)) (be_index eng) @ map le_ts (be_buffer eng)
      in if mins = [] then (None, None) else (Some (Min (set mins)), Some (Max (set maxs))))"

definition apply_retention :: "'s engine_env \<Rightarrow> ('s, nat) act" where
  "apply_retention env eng =
     (let retention = be_retention_native eng in
      if retention = I64 0 then (Inr 0, eng)
      else case snd (ts_range eng) of None \<Rightarrow> (Inr 0, eng) | Some high_water \<Rightarrow>
        let cutoff = i64_saturating_sub high_water retention;
            slice = max (i64_of_int (i64_int retention div 16)) (I64 1);
            floor = be_retention_floor eng
        in if floor \<noteq> I64_MIN \<and> cutoff < i64_saturating_add floor slice then (Inr 0, eng)
           else act_bind (prune env cutoff) (\<lambda>pruned eng. (Inr pruned, eng\<lparr>be_retention_floor := cutoff\<rparr>)) eng)"

definition set_retention :: "i64 option \<Rightarrow> 's block_engine \<Rightarrow> 's block_engine" where
  "set_retention native eng = eng\<lparr>be_retention_native := max (case native of None \<Rightarrow> I64 0 | Some n \<Rightarrow> n) (I64 0)\<rparr>"

text \<open>\<open>to_string\<close> of an \<open>i64\<close>.\<close>

definition i64_to_string :: "i64 \<Rightarrow> str" where
  "i64_to_string x = (if i64_int x < 0 then [0x2D] else []) @ decimal_digits (nat \<bar>i64_int x\<bar>)"

definition set_retention_persistent :: "'s engine_env \<Rightarrow> i64 \<Rightarrow> ('s, unit) act" where
  "set_retention_persistent env native =
     act_bind (save_meta env (str_lit ''retention'') (i64_to_string native)) (\<lambda>_ eng. (Inr (), set_retention (Some native) eng))"

definition set_auto_optimize_interval_persistent :: "'s engine_env \<Rightarrow> nat \<Rightarrow> ('s, unit) act" where
  "set_auto_optimize_interval_persistent env interval =
     act_bind (save_meta env (str_lit ''auto_optimize'') (decimal_digits interval))
       (\<lambda>_ eng. (Inr (), eng\<lparr>be_auto_optimize_interval := interval\<rparr>))"

subsection \<open>Optimize\<close>

text \<open>
  What a call has collected so far: blocks to add with their partitions, locations to remove, and the byte totals
  of the two phases.
\<close>

record optimize_work =
  ow_adds :: "encoded_block list"
  ow_parts :: "byte option list"
  ow_removes :: "block_loc list"
  ow_raw_in :: nat
  ow_raw_out :: nat
  ow_merge_in :: nat
  ow_merge_out :: nat

definition no_work :: optimize_work where
  "no_work = \<lparr>ow_adds = [], ow_parts = [], ow_removes = [], ow_raw_in = 0, ow_raw_out = 0, ow_merge_in = 0, ow_merge_out = 0\<rparr>"

fun read_sources :: "'s engine_env \<Rightarrow> 's \<Rightarrow> index_entry list \<Rightarrow> (log_entry list \<times> nat) res" where
  "read_sources env s [] = Inr ([], 0)"
| "read_sources env s (e # es) =
     and_then (so_read_block (en_ops env) s (ie_loc e)) (\<lambda>bs.
     and_then (decode_block (en_lib env) (en_js env) bs) (\<lambda>entries.
     and_then (read_sources env s es) (\<lambda>(more_entries, n).
     Inr (entries @ more_entries, u64_saturating_add (length bs) n))))"

definition encode_merged :: "'s engine_env \<Rightarrow> log_entry list \<Rightarrow> encoded_block res" where
  "encode_merged env entries =
     and_then (extract_terms (en_config env) entries) (\<lambda>terms.
     and_then (encode_block (en_lib env) (en_js env) entries (if list_ex is_rich entries then CODEC_RICH_TEMPLATE else CODEC_COLUMNAR_V2)
                 (bc_zstd_level (en_config env))) (\<lambda>(d, meta).
     Inr \<lparr>eb_meta = meta, eb_data = d, eb_terms = terms\<rparr>))"

definition rewrite_group :: "'s engine_env \<Rightarrow> 's \<Rightarrow> optimize_group \<Rightarrow> optimize_work \<Rightarrow> optimize_work res" where
  "rewrite_group env s g w =
     and_then (read_sources env s (og_sources g)) (\<lambda>(entries, input_bytes).
     and_then (encode_merged env (sort_key le_ts entries)) (\<lambda>block.
     let w = w\<lparr>ow_adds := ow_adds w @ [block], ow_parts := ow_parts w @ [og_partition g], ow_removes := ow_removes w @ map ie_loc (og_sources g)\<rparr>;
         output_bytes = length (eb_data block)
     in Inr (case og_kind g of
          RawCompression \<Rightarrow> w\<lparr>ow_raw_in := u64_saturating_add (ow_raw_in w) input_bytes, ow_raw_out := u64_saturating_add (ow_raw_out w) output_bytes\<rparr>
        | CompressedMerge \<Rightarrow> w\<lparr>ow_merge_in := u64_saturating_add (ow_merge_in w) input_bytes, ow_merge_out := u64_saturating_add (ow_merge_out w) output_bytes\<rparr>)))"

fun rewrite_groups :: "'s engine_env \<Rightarrow> 's \<Rightarrow> optimize_group list \<Rightarrow> optimize_work \<Rightarrow> optimize_work res" where
  "rewrite_groups env s [] w = Inr w"
| "rewrite_groups env s (g # gs) w = and_then (rewrite_group env s g w) (rewrite_groups env s gs)"

text \<open>The callback of the swap: the removed entries leave the index and enter the journal, the new ones follow.\<close>

definition swap_index :: "block_meta list \<Rightarrow> byte option list \<Rightarrow> block_loc list \<Rightarrow> block_loc list \<Rightarrow> index_state \<Rightarrow> index_state" where
  "swap_index metas parts removes locs st =
     (let (index, j) = st;
          new = index_entries metas locs parts
      in (filter (\<lambda>e. ie_loc e \<notin> set removes) index @ new,
          journal_adds (map ie_loc new) (map_option (fold journal_remove (filter (\<lambda>e. ie_loc e \<in> set removes) index)) j)))"

definition optimize_inner :: "'s engine_env \<Rightarrow> nat option \<Rightarrow> ('s, nat \<times> nat) act" where
  "optimize_inner env max_entries eng =
     (let candidates = optimize_candidates (en_config env) (be_index eng) in
      if candidates = [] then (Inr (0, 0), eng)
      else case plan_optimize (en_config env) (be_index eng) candidates of Inl e \<Rightarrow> (Inl e, eng) | Inr planned \<Rightarrow>
      if planned = [] then (Inr (0, 0), eng)
      else case rewrite_groups env (be_store eng) (fst (select_groups max_entries [] 0 planned)) no_work of Inl e \<Rightarrow> (Inl e, eng) | Inr w \<Rightarrow>
      if ow_adds w = [] then (Inr (0, 0), eng)
      else case txn_guard eng of Inl e \<Rightarrow> (Inl e, eng) | Inr j \<Rightarrow>
      let (r, s, index, j') = so_replace_blocks (en_ops env) (be_store eng) (ow_adds w) (ow_removes w)
            (swap_index (map eb_meta (ow_adds w)) (ow_parts w) (ow_removes w)) (be_index eng, j);
          eng = (set_frame j' eng)\<lparr>be_store := s, be_index := index\<rparr>
      in case r of Inl e \<Rightarrow> (Inl e, eng) | Inr _ \<Rightarrow>
         act_bind (persist_compression_totals env (ow_raw_in w) (ow_raw_out w) (ow_merge_in w) (ow_merge_out w))
           (\<lambda>_ eng. (Inr (length (ow_removes w), length (ow_adds w)), eng)) eng)"

definition purge_trigram_postings :: "'s engine_env \<Rightarrow> ('s, u64) act" where
  "purge_trigram_postings env eng =
     (let (r, s) = so_purge_term_prefix (en_ops env) (be_store eng) (str_lit ''tg:'')
      in (r, eng\<lparr>be_trigram_purge_checked := True, be_store := s\<rparr>))"

definition maybe_purge_unopted_trigrams :: "'s engine_env \<Rightarrow> ('s, unit) act" where
  "maybe_purge_unopted_trigrams env eng =
     (if bc_message_trigrams (en_config env) \<or> be_trigram_purge_checked eng then (Inr (), eng)
      else act_bind (purge_trigram_postings env) (\<lambda>_ eng. (Inr (), eng)) eng)"

definition optimize_with_budget :: "'s engine_env \<Rightarrow> nat option \<Rightarrow> ('s, nat \<times> nat) act" where
  "optimize_with_budget env max_entries =
     act_bind (maybe_purge_unopted_trigrams env) (\<lambda>_.
     act_bind (optimize_inner env max_entries) (\<lambda>out.
     act_bind (apply_retention env) (\<lambda>_ eng. (Inr out, eng))))"

definition optimize :: "'s engine_env \<Rightarrow> ('s, nat \<times> nat) act" where
  "optimize env = optimize_with_budget env None"

definition optimize_budgeted :: "'s engine_env \<Rightarrow> nat \<Rightarrow> ('s, nat \<times> nat) act" where
  "optimize_budgeted env max_entries eng =
     (if max_entries = 0 then (Inl (Invalid ''optimize entry budget must be positive''), eng)
      else optimize_with_budget env (Some max_entries) eng)"

text \<open>What the planner would do now: whether there are raw blocks, and how many merges are ready.\<close>

record block_optimize_backlog =
  ob_raw_blocks :: nat
  ob_raw_entries :: nat
  ob_merge_ready_groups :: nat
  ob_merge_ready_blocks :: nat
  ob_merge_ready_entries :: nat
  ob_merge_deferred_blocks :: nat
  ob_merge_deferred_entries :: nat

definition optimize_backlog :: "'s engine_env \<Rightarrow> 's block_engine \<Rightarrow> block_optimize_backlog res" where
  "optimize_backlog env eng =
     (let candidates = optimize_candidates (en_config env) (be_index eng) in
      and_then (plan_optimize (en_config env) (be_index eng) candidates) (\<lambda>groups.
      let raw = concat (map og_sources (filter (\<lambda>g. og_kind g = RawCompression) groups));
          merges = filter (\<lambda>g. og_kind g = CompressedMerge) groups;
          ready = concat (map og_sources merges);
          deferred = filter (\<lambda>e. \<not> is_raw_codec (bm_codec (ie_meta e)) \<and> bl_id (ie_loc e) \<notin> (\<lambda>e. bl_id (ie_loc e)) ` set ready) candidates
      in Inr \<lparr>ob_raw_blocks = length raw, ob_raw_entries = sum_list (map ie_count raw),
              ob_merge_ready_groups = length merges, ob_merge_ready_blocks = length ready,
              ob_merge_ready_entries = sum_list (map ie_count ready),
              ob_merge_deferred_blocks = length deferred, ob_merge_deferred_entries = sum_list (map ie_count deferred)\<rparr>))"

definition maybe_auto_optimize :: "'s engine_env \<Rightarrow> ('s, unit) act" where
  "maybe_auto_optimize env eng =
     (let interval = be_auto_optimize_interval eng; budget = bc_auto_optimize_budget_entries (en_config env);
          calls = Suc (be_flushes_since_auto_optimize eng);
          raw_entries = sum_list (map ie_count (filter (\<lambda>e. is_raw_codec (bm_codec (ie_meta e))) (be_index eng)))
      in if interval = 0 then (Inr (), eng)
         else if calls < interval \<and> raw_entries < budget then (Inr (), eng\<lparr>be_flushes_since_auto_optimize := calls\<rparr>)
         else let eng = eng\<lparr>be_flushes_since_auto_optimize := 0\<rparr>
              in case optimize_backlog env eng of Inl e \<Rightarrow> (Inl e, eng) | Inr backlog \<Rightarrow>
                 if ob_raw_blocks backlog = 0 \<and> ob_merge_ready_groups backlog = 0 then (Inr (), eng)
                 else act_bind (optimize_budgeted env budget) (\<lambda>_ eng. (Inr (), eng)) eng)"

definition save_message_index_meta :: "'s engine_env \<Rightarrow> str \<Rightarrow> ('s, unit) act" where
  "save_message_index_meta env v = save_meta env (str_lit ''message_index'') v"

subsection \<open>Flush, push, recovery, reindexing\<close>

definition flush :: "'s engine_env \<Rightarrow> ('s, nat) act" where
  "flush env =
     act_bind (flush_inner env) (\<lambda>out.
     act_bind (apply_retention env) (\<lambda>_.
     act_bind (maybe_auto_optimize env) (\<lambda>_ eng. (Inr out, eng))))"

definition push_entries :: "'s engine_env \<Rightarrow> log_entry list \<Rightarrow> ('s, unit) act" where
  "push_entries env es eng =
     (let eng = eng\<lparr>be_buffer := be_buffer eng @ es\<rparr> in
      if length (be_buffer eng) \<ge> bc_flush_threshold (en_config env)
      then act_bind (flush env) (\<lambda>_ eng. (Inr (), eng)) eng else (Inr (), eng))"

definition push :: "'s engine_env \<Rightarrow> log_entry \<Rightarrow> ('s, unit) act" where
  "push env e eng = (case normalize_entry e of Inl err \<Rightarrow> (Inl err, eng) | Inr e \<Rightarrow> push_entries env [e] eng)"

definition push_batch :: "'s engine_env \<Rightarrow> log_entry list \<Rightarrow> ('s, nat) act" where
  "push_batch env es eng =
     (case collect_r normalize_entry es of Inl err \<Rightarrow> (Inl err, eng)
      | Inr es \<Rightarrow> act_bind (push_entries env es) (\<lambda>_ eng. (Inr (length es), eng)) eng)"

text \<open>\<open>join\<close>.\<close>

fun join_with :: "str \<Rightarrow> str list \<Rightarrow> str" where
  "join_with sep [] = []"
| "join_with sep [s] = s"
| "join_with sep (s # ss) = s @ sep @ join_with sep ss"

text \<open>How many level terms list a block, and the last of those levels.\<close>

fun level_hits :: "'s engine_env \<Rightarrow> 's \<Rightarrow> byte list \<Rightarrow> (i64 \<Rightarrow> (nat \<times> byte) option) \<Rightarrow> (i64 \<Rightarrow> (nat \<times> byte) option) res" where
  "level_hits env s [] hits = Inr hits"
| "level_hits env s (lvl # lvls) hits =
     and_then (level_term lvl) (\<lambda>term.
     and_then (so_query_terms (en_ops env) s [term] I64_MIN I64_MAX) (\<lambda>found.
     level_hits env s lvls
       (fold (\<lambda>(loc, _) hits. hits(bl_id loc \<mapsto> (case hits (bl_id loc) of None \<Rightarrow> 1 | Some (n, _) \<Rightarrow> Suc n, lvl))) found hits)))"

definition engine_new :: "'s engine_env \<Rightarrow> 's \<Rightarrow> 's block_engine res" where
  "engine_new env s =
     and_then (so_scan (en_ops env) s) (\<lambda>scanned.
     and_then (level_hits env s [0, 1, 2, 3] (\<lambda>_. None)) (\<lambda>hits.
     Inr \<lparr>be_store = s, be_buffer = [],
          be_index = map (\<lambda>(meta, loc). \<lparr>ie_meta = meta, ie_loc = loc,
            ie_partition = (case hits (bl_id loc) of Some (n, lvl) \<Rightarrow> if n = 1 then Some lvl else None | None \<Rightarrow> None)\<rparr>) scanned,
          be_txn_active = False, be_frames = [], be_retention_native = I64 0, be_retention_floor = I64_MIN,
          be_flushes_since_auto_optimize = 0,
          be_auto_optimize_interval = bc_auto_optimize_interval_flushes (en_config env), be_trigram_purge_checked = False\<rparr>))"

fun reindex_blocks :: "'s engine_env \<Rightarrow> str list \<Rightarrow> (block_meta \<times> block_loc) list \<Rightarrow> nat \<Rightarrow> ('s, nat) act" where
  "reindex_blocks env keys [] n eng = (Inr n, eng)"
| "reindex_blocks env keys ((_, loc) # blocks) n eng =
     (case and_then (so_read_block (en_ops env) (be_store eng) loc) (\<lambda>bs.
           and_then (decode_block (en_lib env) (en_js env) bs) (\<lambda>entries. extract_terms_with (en_config env) entries keys)) of
        Inl e \<Rightarrow> (Inl e, eng)
      | Inr terms \<Rightarrow>
          let (r, s) = so_replace_terms (en_ops env) (be_store eng) loc terms; eng = eng\<lparr>be_store := s\<rparr>
          in case and_then r (\<lambda>_. so_check_cancelled (en_ops env) s) of Inl e \<Rightarrow> (Inl e, eng)
             | Inr _ \<Rightarrow> reindex_blocks env keys blocks (Suc n) eng)"

definition reindex :: "'s engine_env \<Rightarrow> str list \<Rightarrow> ('s, nat) act" where
  "reindex env keys eng =
     (case so_scan (en_ops env) (be_store eng) of Inl e \<Rightarrow> (Inl e, eng)
      | Inr blocks \<Rightarrow>
          act_bind (reindex_blocks env keys blocks 0) (\<lambda>n.
          act_bind (save_meta env (str_lit ''index_keys'') (join_with [0x2C] keys)) (\<lambda>_ eng. (Inr n, eng))) eng)"

end
