(* ===== verification/EnginePlanFacts.thy ===== *)
theory EnginePlanFacts
  imports EnginePlan "HOL-Library.Multiset"
begin

section \<open>What a compaction plan covers\<close>

text \<open>
  A plan takes no block twice, takes every raw block, merges at least two compressed blocks or none, and stays
  within a partition.
\<close>

abbreviation is_raw :: "index_entry \<Rightarrow> bool" where
  "is_raw e \<equiv> is_raw_codec (bm_codec (ie_meta e))"

definition sources_of :: "optimize_group list \<Rightarrow> index_entry list" where
  "sources_of gs = concat (map og_sources gs)"

lemma sources_of_simps [simp]: "sources_of [] = []" "sources_of (g # gs) = og_sources g @ sources_of gs" "sources_of (gs @ hs) = sources_of gs @ sources_of hs"
  by (simp_all add: sources_of_def)

subsection \<open>Raw groups\<close>

definition raw_group_ok :: "byte option \<Rightarrow> optimize_group \<Rightarrow> bool" where
  "raw_group_ok part g \<longleftrightarrow> og_sources g \<noteq> [] \<and> og_partition g = part \<and> og_kind g = RawCompression"

lemma raw_groups_cover:
  "sources_of (raw_groups cfg part current n lo hi es) = current @ es \<and> list_all (raw_group_ok part) (raw_groups cfg part current n lo hi es)"
  by (induction cfg part current n lo hi es rule: raw_groups.induct) (simp_all add: raw_group_ok_def)

lemma plan_raw_groups_cover:
  "mset (sources_of (plan_raw_groups cfg entries part)) = mset entries" "list_all (raw_group_ok part) (plan_raw_groups cfg entries part)"
  using raw_groups_cover [of cfg part "[]" 0 "I64 0" "I64 0" "sort_by_range entries"]
  by (simp_all add: plan_raw_groups_def) (simp add: sort_by_range_def)

subsection \<open>Merges\<close>

definition merge_group_ok :: "byte option \<Rightarrow> optimize_group \<Rightarrow> bool" where
  "merge_group_ok part g \<longleftrightarrow> 2 \<le> length (og_sources g) \<and> og_partition g = part \<and> og_kind g = CompressedMerge"

lemma push_compressed_cover:
  "mset (sources_of (push_compressed_group cfg sources part closed)) \<subseteq># mset sources \<and> list_all (merge_group_ok part) (push_compressed_group cfg sources part closed)"
  by (auto simp: push_compressed_group_def Let_def merge_group_ok_def)

lemma msub_add: "A \<subseteq># M \<Longrightarrow> B \<subseteq># add_mset e N \<Longrightarrow> A + B \<subseteq># add_mset e (M + N)"
  using subset_mset.add_mono [of A M B "add_mset e N"] by simp

lemma segment_groups_cover:
  "mset (sources_of (segment_groups cfg part closed limit current n es)) \<subseteq># mset (current @ es) \<and> list_all (merge_group_ok part) (segment_groups cfg part closed limit current n es)"
proof (induction cfg part closed limit current n es rule: segment_groups.induct)
  case (2 cfg part closed limit current n e es)
  show ?case
  proof (cases "current \<noteq> [] \<and> usize_saturating_add n (ie_count e) > limit")
    case True
    then show ?thesis
      using 2(1) [OF True] push_compressed_cover [of cfg current part closed] by (auto intro: msub_add)
  next
    case False
    then show ?thesis using 2(2) [OF False] by auto
  qed
qed (use push_compressed_cover in auto)

lemma plan_segment_cover:
  "mset (sources_of (plan_compressed_segment cfg es part newest)) \<subseteq># mset es \<and> list_all (merge_group_ok part) (plan_compressed_segment cfg es part newest)"
  using segment_groups_cover [of cfg part _ _ "[]" 0 "sort_key _ es"] by (simp add: plan_compressed_segment_def Let_def)

lemma compressed_segments_cover:
  "mset (sources_of (compressed_segments cfg part newest segment lo hi es)) \<subseteq># mset (segment @ es) \<and>
   list_all (merge_group_ok part) (compressed_segments cfg part newest segment lo hi es)"
proof (induction cfg part newest segment lo hi es rule: compressed_segments.induct)
  case (1 cfg part newest segment lo hi)
  then show ?case using plan_segment_cover by simp
next
  case (2 cfg part newest segment lo hi e es)
  show ?case
  proof (cases "segment = []")
    case True
    then show ?thesis using 2(1) by simp
  next
    case False
    then show ?thesis
      using 2(2,3) plan_segment_cover [of cfg segment part newest]
      by (cases "merged_span_fits lo hi (ie_meta e) (bc_merge_max_ts_span cfg)") (auto intro: msub_add)
  qed
qed

lemma plan_compressed_cover:
  "mset (sources_of (plan_compressed_groups cfg es part newest)) \<subseteq># mset es \<and> list_all (merge_group_ok part) (plan_compressed_groups cfg es part newest)"
  using compressed_segments_cover [of cfg part newest "[]" "I64 0" "I64 0" "sort_by_range es"]
  by (simp add: plan_compressed_groups_def) (simp add: sort_by_range_def)

subsection \<open>Plans\<close>

definition group_ok :: "optimize_group \<Rightarrow> bool" where
  "group_ok g \<longleftrightarrow> og_sources g \<noteq> [] \<and> (og_kind g = CompressedMerge \<longrightarrow> 2 \<le> length (og_sources g))"

lemma buckets_mset: "list_all (\<lambda>e. f e < k) es \<Longrightarrow> mset (concat (map (\<lambda>b. filter (\<lambda>e. f e = b \<and> P e) es) [0..<k])) = mset (filter P es)"
proof (induction es)
  case (Cons e es)
  have "mset (concat (map (\<lambda>b. filter (\<lambda>x. f x = b \<and> P x) (e # es)) bs)) =
      (if P e \<and> f e \<in> set bs then {#e#} else {#}) + mset (concat (map (\<lambda>b. filter (\<lambda>x. f x = b \<and> P x) es) bs))" if "distinct bs" for bs
    using that by (induction bs) auto
  then show ?case using Cons by (simp del: mset_filter upt_Suc)
qed (simp add: concat_eq_Nil_conv)

lemma raw_groups_ok: "list_all (raw_group_ok part) gs \<Longrightarrow> list_all group_ok gs"
  by (auto simp: list_all_iff raw_group_ok_def group_ok_def)

lemma merge_groups_ok: "list_all (merge_group_ok part) gs \<Longrightarrow> list_all group_ok gs"
  by (auto simp: list_all_iff merge_group_ok_def group_ok_def)

definition raw_part :: "optimize_group list \<Rightarrow> optimize_group list" where
  "raw_part gs = filter (\<lambda>g. og_kind g = RawCompression) gs"

lemma raw_part_simps [simp]:
  "raw_part (gs @ hs) = raw_part gs @ raw_part hs" "list_all (raw_group_ok part) gs \<Longrightarrow> raw_part gs = gs" "list_all (merge_group_ok part) gs \<Longrightarrow> raw_part gs = []"
  by (auto simp: raw_part_def list_all_iff raw_group_ok_def merge_group_ok_def filter_empty_conv)

lemma sources_of_perm: "mset gs = mset hs \<Longrightarrow> mset (sources_of gs) = mset (sources_of hs)"
  unfolding sources_of_def mset_concat map_map by (metis mset_map sum_mset_sum_list)

lemma length_sources: "list_all group_ok gs \<Longrightarrow> length gs \<le> length (sources_of gs)"
proof (induction gs)
  case (Cons g gs)
  then have "1 \<le> length (og_sources g)" by (cases "og_sources g") (auto simp: group_ok_def)
  then show ?case using Cons by simp
qed simp

definition bucket_plan :: "block_engine_config \<Rightarrow> i64 \<Rightarrow> index_entry list \<Rightarrow> nat \<Rightarrow> optimize_group list" where
  "bucket_plan cfg newest cands b =
     plan_raw_groups cfg (filter (\<lambda>e. bucket_index e = b \<and> is_raw e) cands) (bucket_partition b) @
     plan_compressed_groups cfg (filter (\<lambda>e. bucket_index e = b \<and> \<not> is_raw e) cands) (bucket_partition b) newest"

lemma bucket_plan_cover:
  "mset (sources_of (raw_part (bucket_plan cfg newest cands b))) = mset (filter (\<lambda>e. bucket_index e = b \<and> is_raw e) cands)"
  "mset (sources_of (bucket_plan cfg newest cands b)) \<subseteq># mset (filter (\<lambda>e. bucket_index e = b) cands)"
  "list_all group_ok (bucket_plan cfg newest cands b)"
proof -
  let ?r = "filter (\<lambda>e. bucket_index e = b \<and> is_raw e) cands" and ?c = "filter (\<lambda>e. bucket_index e = b \<and> \<not> is_raw e) cands"
  note r = plan_raw_groups_cover [where cfg = cfg and entries = ?r and part = "bucket_partition b"] and c = plan_compressed_cover [of cfg ?c "bucket_partition b" newest]
  show "mset (sources_of (raw_part (bucket_plan cfg newest cands b))) = mset ?r"
    using r(1) by (simp add: bucket_plan_def raw_part_simps(2) [OF r(2)] raw_part_simps(3) [OF conjunct2 [OF c]] del: mset_filter)
  have "mset (sources_of (bucket_plan cfg newest cands b)) \<subseteq># mset ?r + mset ?c"
    using r c by (simp add: bucket_plan_def subset_mset.add_mono del: mset_filter)
  also have "mset ?r + mset ?c = mset (filter (\<lambda>e. bucket_index e = b) cands)" by (induction cands) (simp_all del: mset_filter)
  finally show "mset (sources_of (bucket_plan cfg newest cands b)) \<subseteq># mset (filter (\<lambda>e. bucket_index e = b) cands)" .
  show "list_all group_ok (bucket_plan cfg newest cands b)"
    using raw_groups_ok [OF r(2)] merge_groups_ok [OF conjunct2 [OF c]] by (simp add: bucket_plan_def)
qed

lemma sources_of_concat: "sources_of (concat gss) = concat (map sources_of gss)"
  by (induction gss) simp_all

lemma raw_part_concat: "raw_part (concat gss) = concat (map raw_part gss)"
  by (induction gss) (simp_all add: raw_part_def)

lemma concat_msub: "(\<And>b. mset (f b) \<subseteq># mset (g b)) \<Longrightarrow> mset (concat (map f bs)) \<subseteq># mset (concat (map g bs))"
  by (induction bs) (simp_all add: subset_mset.add_mono)

lemma plan_optimize_cover:
  assumes "plan_optimize cfg index cands = Inr gs"
  shows "mset (sources_of (raw_part gs)) = mset (filter is_raw cands)" "mset (sources_of gs) \<subseteq># mset cands" "list_all group_ok gs"
    "length gs \<le> length cands" "sorted (map plan_key gs)"
proof -
  let ?plan = "concat (map (bucket_plan cfg (newest_ts index) cands) [0..<5])"
  have "bucket_plan cfg (newest_ts index) cands = (\<lambda>b. plan_raw_groups cfg (filter (\<lambda>e. bucket_index e = b \<and> is_raw e) cands) (bucket_partition b) @
      plan_compressed_groups cfg (filter (\<lambda>e. bucket_index e = b \<and> \<not> is_raw e) cands) (bucket_partition b) (newest_ts index))"
    by (simp add: bucket_plan_def fun_eq_iff)
  then have b: "list_all (\<lambda>e. bucket_index e < 5) cands" and gs: "gs = sort_key plan_key ?plan"
    using assms by (auto simp: plan_optimize_def list_all_iff list_ex_iff not_le split: if_split_asm)
  have perm: "mset gs = mset ?plan" "mset (raw_part gs) = mset (raw_part ?plan)" by (simp_all add: gs raw_part_def)
  have "mset (sources_of (raw_part ?plan)) = mset (concat (map (\<lambda>b. filter (\<lambda>e. bucket_index e = b \<and> is_raw e) cands) [0..<5]))"
    unfolding raw_part_concat sources_of_concat map_map comp_def mset_concat bucket_plan_cover(1) ..
  then show "mset (sources_of (raw_part gs)) = mset (filter is_raw cands)"
    using sources_of_perm [OF perm(2)] buckets_mset [OF b, of is_raw] by simp
  have "mset (sources_of ?plan) \<subseteq># mset (concat (map (\<lambda>b. filter (\<lambda>e. bucket_index e = b) cands) [0..<5]))"
    unfolding sources_of_concat map_map comp_def by (rule concat_msub) (rule bucket_plan_cover(2))
  then show sub: "mset (sources_of gs) \<subseteq># mset cands" using sources_of_perm [OF perm(1)] buckets_mset [OF b, of "\<lambda>_. True"] by simp
  have "list_all group_ok ?plan" using bucket_plan_cover(3) by (simp add: list_all_iff)
  then show ok: "list_all group_ok gs" by (simp add: gs list_all_iff)
  show "length gs \<le> length cands" using length_sources [OF ok] size_mset_mono [OF sub] by simp
  show "sorted (map plan_key gs)" by (simp add: gs)
qed

subsection \<open>Selection\<close>

lemma select_groups_prefix: "\<exists>k. fst (select_groups budget sel n gs) = sel @ take k gs \<and> (sel = [] \<longrightarrow> gs \<noteq> [] \<longrightarrow> 0 < k) \<and> (budget = None \<longrightarrow> length gs \<le> k)"
proof (induction gs arbitrary: sel n)
  case (Cons g gs)
  show ?case
  proof (cases "budget \<noteq> None \<and> sel \<noteq> [] \<and> usize_saturating_add n (group_count g) > the budget")
    case True
    then show ?thesis by (intro exI [of _ 0]) simp
  next
    case False
    obtain k where "fst (select_groups budget (sel @ [g]) (usize_saturating_add n (group_count g)) gs) = (sel @ [g]) @ take k gs" "budget = None \<longrightarrow> length gs \<le> k"
      using Cons.IH [of "sel @ [g]"] by blast
    then show ?thesis using False by (intro exI [of _ "Suc k"]) auto
  qed
qed simp

text \<open>Raw groups come first, so a bounded call that finds a raw block works on one.\<close>

lemma plan_raw_first:
  assumes "plan_optimize cfg index cands = Inr gs" "\<exists>e \<in> set cands. is_raw e"
  shows "\<exists>g gs'. gs = g # gs' \<and> og_kind g = RawCompression"
proof -
  have "raw_part gs \<noteq> []"
    using plan_optimize_cover(1) [OF assms(1)] assms(2) by (auto simp: filter_empty_conv dest!: mset_eq_setD)
  then obtain h where h: "h \<in> set gs" "og_kind h = RawCompression" by (auto simp: raw_part_def filter_empty_conv)
  then obtain g gs' where gs: "gs = g # gs'" by (cases gs) auto
  have "plan_key g \<le> plan_key h" using plan_optimize_cover(5) [OF assms(1)] h(1) by (auto simp: gs)
  then have "og_kind g = RawCompression" using h(2) by (cases "og_kind g") (auto simp: plan_key_def less_eq_prod_def)
  then show ?thesis using gs by blast
qed

end
