(* ===== verification/EngineTxn.thy ===== *)
theory EngineTxn
  imports EngineOps EnginePlanFacts
begin

section \<open>What a rollback restores\<close>

text \<open>
  The journal against the engine's memory: an open frame holds what is needed to get back to the buffer and the
  index of the moment it was opened, and every operation keeps it so.
\<close>

subsection \<open>Frames\<close>

definition ie_id :: "index_entry \<Rightarrow> i64" where
  "ie_id e = bl_id (ie_loc e)"

text \<open>Entries of an index have ids of their own.\<close>

definition ids_distinct :: "index_entry multiset \<Rightarrow> bool" where
  "ids_distinct ix \<longleftrightarrow> (\<forall>i. count (image_mset ie_id ix) i \<le> 1)"

lemma ids_distinct_mset: "ids_distinct (mset idx) \<longleftrightarrow> distinct (map ie_id idx)"
proof -
  have zero: "count (mset xs) i = 0 \<longleftrightarrow> i \<notin> set xs" for i and xs :: "i64 list" by (rule count_mset_0_iff)
  have "count (mset xs) i \<le> 1 \<longleftrightarrow> count (mset xs) i = (if i \<in> set xs then 1 else 0)" for i and xs :: "i64 list"
  proof (cases "i \<in> set xs")
    case True
    then have "count (mset xs) i \<noteq> 0" by (simp only: zero simp_thms)
    then have "count (mset xs) i \<le> 1 \<longleftrightarrow> count (mset xs) i = 1" by linarith
    then show ?thesis using True by (simp only: if_True)
  next
    case False
    then have "count (mset xs) i = 0" by (simp only: zero simp_thms)
    then show ?thesis using False by (simp only: if_False zero_le simp_thms)
  qed
  then have "(\<forall>i. count (mset xs) i \<le> 1) \<longleftrightarrow> distinct xs" for xs :: "i64 list" by (simp only: distinct_count_atmost_1)
  from this [of "map ie_id idx"] show ?thesis by (simp add: ids_distinct_def)
qed

lemma ids_distinct_union:
  assumes "ids_distinct (A + B)"
  shows "ids_distinct A" "ids_distinct B" "a \<in># A \<Longrightarrow> b \<in># B \<Longrightarrow> ie_id a \<noteq> ie_id b"
proof -
  have c: "count (image_mset ie_id A) i + count (image_mset ie_id B) i \<le> 1" for i using assms by (simp add: ids_distinct_def)
  show "ids_distinct A" "ids_distinct B" unfolding ids_distinct_def using c by (meson add_leD1 add_leD2)+
  assume "a \<in># A" "b \<in># B"
  then have pos: "0 < count (image_mset ie_id A) (ie_id a)" "0 < count (image_mset ie_id B) (ie_id b)" by (simp_all add: count_greater_zero_iff del: count_image_mset)
  show "ie_id a \<noteq> ie_id b"
  proof
    assume eq: "ie_id a = ie_id b"
    show False using pos(1) pos(2) [folded eq] c [of "ie_id a"] by linarith
  qed
qed

definition frame_ok :: "txn_frame \<Rightarrow> log_entry list \<Rightarrow> index_entry multiset \<Rightarrow> log_entry list \<Rightarrow> index_entry multiset \<Rightarrow> bool" where
  "frame_ok f buf ix B I \<longleftrightarrow>
     (tf_buffer_mark f = length B \<and> tf_saved f = [] \<and> take (length B) buf = B \<or> tf_buffer_mark f = 0 \<and> tf_saved f = B) \<and>
     filter_mset (\<lambda>e. ie_id e \<notin> tf_added f) ix + mset (tf_removed f) = I"

lemma frame_ok_new [simp]: "frame_ok (new_frame (length buf) sp) buf ix buf ix"
  by (simp add: frame_ok_def new_frame_def)

lemma frame_ok_undo:
  assumes "frame_ok f buf (mset idx) B I"
  shows "take (tf_buffer_mark f) buf @ tf_saved f = B"
    "mset (filter (\<lambda>e. bl_id (ie_loc e) \<notin> tf_added f) idx @ tf_removed f) = I"
  using assms by (auto simp: frame_ok_def ie_id_def mset_filter)

lemma take_whole: "take (length B) buf = B \<Longrightarrow> length B \<le> length buf"
  by (metis length_take min.cobounded1)

lemma take_prefix_trans: "take (length B) C = B \<Longrightarrow> take (length C) buf = C \<Longrightarrow> take (length B) buf = B"
  by (metis min.absorb1 take_take take_whole)

lemma frame_ok_append:
  assumes "frame_ok f buf ix B I"
  shows "frame_ok f (buf @ es) ix B I"
proof -
  have "take (length B) (buf @ es) = B" if "take (length B) buf = B" using that take_whole [OF that] by simp
  then show ?thesis using assms by (auto simp: frame_ok_def)
qed

lemma frame_ok_capture:
  assumes "frame_ok f buf ix B I"
  shows "\<exists>f'. capture_prefix buf f = Inr f' \<and> (\<forall>buf'. frame_ok f' buf' ix B I) \<and> tf_savepoint f' = tf_savepoint f"
proof (cases "tf_buffer_mark f = 0")
  case True
  then have "tf_saved f = B" using assms by (auto simp: frame_ok_def)
  then show ?thesis using True assms by (auto simp: capture_prefix_def frame_ok_def)
next
  case False
  then have m: "tf_buffer_mark f = length B" "tf_saved f = []" "take (length B) buf = B" using assms by (auto simp: frame_ok_def)
  then show ?thesis using False m take_whole [OF m(3)] assms by (auto simp: capture_prefix_def frame_ok_def)
qed

lemma journal_adds_fields:
  "tf_added (fold journal_add locs f) = tf_added f \<union> bl_id ` set locs" "tf_removed (fold journal_add locs f) = tf_removed f"
  "tf_saved (fold journal_add locs f) = tf_saved f" "tf_buffer_mark (fold journal_add locs f) = tf_buffer_mark f"
  "tf_savepoint (fold journal_add locs f) = tf_savepoint f"
  by (induction locs arbitrary: f) (auto simp: journal_add_def)

lemma frame_ok_add:
  assumes "frame_ok f buf ix B I" "\<forall>e \<in># ix. ie_id e \<notin> ie_id ` set new"
  shows "frame_ok (fold journal_add (map ie_loc new) f) buf (ix + mset new) B I"
proof -
  let ?A = "tf_added f \<union> ie_id ` set new"
  have ids: "bl_id ` set (map ie_loc new) = ie_id ` set new" by (auto simp: ie_id_def image_image)
  have "filter_mset (\<lambda>e. ie_id e \<notin> ?A) (mset new) = {#}" by (simp add: filter_empty_conv flip: mset_filter)
  moreover have "filter_mset (\<lambda>e. ie_id e \<notin> ?A) ix = filter_mset (\<lambda>e. ie_id e \<notin> tf_added f) ix"
    using assms(2) by (intro filter_mset_cong refl) auto
  ultimately have "filter_mset (\<lambda>e. ie_id e \<notin> ?A) (ix + mset new) = filter_mset (\<lambda>e. ie_id e \<notin> tf_added f) ix" by simp
  then show ?thesis using assms(1) unfolding frame_ok_def journal_adds_fields ids by (simp only: simp_thms)
qed

lemma journal_removes_fields:
  "distinct (map ie_id es) \<Longrightarrow> tf_added (fold journal_remove es f) = tf_added f - ie_id ` set es"
  "distinct (map ie_id es) \<Longrightarrow> tf_removed (fold journal_remove es f) = tf_removed f @ filter (\<lambda>e. ie_id e \<notin> tf_added f) es"
  "tf_saved (fold journal_remove es f) = tf_saved f" "tf_buffer_mark (fold journal_remove es f) = tf_buffer_mark f"
  "tf_savepoint (fold journal_remove es f) = tf_savepoint f"
proof -
  show "tf_saved (fold journal_remove es f) = tf_saved f" "tf_buffer_mark (fold journal_remove es f) = tf_buffer_mark f"
    "tf_savepoint (fold journal_remove es f) = tf_savepoint f"
    by (induction es arbitrary: f) (auto simp: journal_remove_def)
  have "tf_added (fold journal_remove es f) = tf_added f - ie_id ` set es \<and>
      tf_removed (fold journal_remove es f) = tf_removed f @ filter (\<lambda>e. ie_id e \<notin> tf_added f) es" if "distinct (map ie_id es)"
    using that
  proof (induction es arbitrary: f)
    case (Cons e es)
    have "filter (\<lambda>x. ie_id x \<notin> tf_added f - {ie_id e}) es = filter (\<lambda>x. ie_id x \<notin> tf_added f) es"
      using Cons.prems by (intro filter_cong) (auto simp: image_iff)
    then show ?case using Cons by (auto simp: journal_remove_def ie_id_def)
  qed simp
  then show "distinct (map ie_id es) \<Longrightarrow> tf_added (fold journal_remove es f) = tf_added f - ie_id ` set es"
    "distinct (map ie_id es) \<Longrightarrow> tf_removed (fold journal_remove es f) = tf_removed f @ filter (\<lambda>e. ie_id e \<notin> tf_added f) es" by blast+
qed

lemma mset_shuffle: "a + b = c \<Longrightarrow> c + r = I \<Longrightarrow> a + (r + b) = (I :: 'a multiset)"
  by (metis add.assoc add.commute)

lemma frame_ok_remove:
  assumes "frame_ok f buf (mset idx) B I" "distinct (map ie_id idx)"
  shows "frame_ok (fold journal_remove (filter P idx) f) buf (mset (filter (\<lambda>e. \<not> P e) idx)) B I"
proof -
  let ?Q = "\<lambda>e. ie_id e \<notin> tf_added f"
  have d: "distinct (map ie_id (filter P idx))" using assms(2) by (rule distinct_map_filter)
  have sep: "ie_id e \<notin> ie_id ` set (filter P idx)" if "e \<in> set idx" "\<not> P e" for e
    using assms(2) that by (auto simp: distinct_map inj_on_def)
  have "filter (\<lambda>e. ie_id e \<notin> tf_added f - ie_id ` set (filter P idx)) (filter (\<lambda>e. \<not> P e) idx) = filter ?Q (filter (\<lambda>e. \<not> P e) idx)"
    using sep by (intro filter_cong refl) auto
  then have "filter_mset (\<lambda>e. ie_id e \<notin> tf_added f - ie_id ` set (filter P idx)) (mset (filter (\<lambda>e. \<not> P e) idx)) = mset (filter ?Q (filter (\<lambda>e. \<not> P e) idx))"
    by (metis mset_filter)
  moreover have "mset (filter ?Q (filter (\<lambda>e. \<not> P e) idx)) + mset (filter ?Q (filter P idx)) = mset (filter ?Q idx)"
    by (induction idx) (simp_all del: mset_filter)
  moreover have "mset (filter ?Q idx) + mset (tf_removed f) = I" using assms(1) unfolding frame_ok_def by (metis mset_filter)
  ultimately have "filter_mset (\<lambda>e. ie_id e \<notin> tf_added f - ie_id ` set (filter P idx)) (mset (filter (\<lambda>e. \<not> P e) idx)) +
      mset (tf_removed f @ filter ?Q (filter P idx)) = I" unfolding mset_append by (metis mset_shuffle)
  then show ?thesis using assms(1) unfolding frame_ok_def journal_removes_fields(1,2) [OF d] journal_removes_fields(3,4,5) by blast
qed

lemma frame_ok_merge:
  assumes "frame_ok c buf ix Bc Ic" "frame_ok p Bc Ic Bp Ip" "ids_distinct Ic"
  shows "frame_ok (merge_txn_frame p c) buf ix Bp Ip"
proof -
  let ?p = "if tf_buffer_mark p > 0 \<and> tf_saved c \<noteq> [] then p\<lparr>tf_saved := tf_saved p @ take (tf_buffer_mark p) (tf_saved c), tf_buffer_mark := 0\<rparr> else p"
  have Ic: "Ic = filter_mset (\<lambda>e. ie_id e \<notin> tf_added c) ix + mset (tf_removed c)" using assms(1) by (simp add: frame_ok_def)
  have d: "distinct (map ie_id (tf_removed c))" using ids_distinct_union(2) [OF assms(3) [unfolded Ic]] by (simp only: ids_distinct_mset)
  have sep: "ie_id e \<notin> ie_id ` set (tf_removed c)" if "e \<in># ix" "ie_id e \<notin> tf_added c" for e
    using ids_distinct_union(3) [OF assms(3) [unfolded Ic], of e] that by auto
  have p: "tf_added ?p = tf_added p" "tf_removed ?p = tf_removed p" by simp_all
  have "filter_mset (\<lambda>e. ie_id e \<notin> (tf_added p - ie_id ` set (tf_removed c)) \<union> tf_added c) ix =
      filter_mset (\<lambda>e. ie_id e \<notin> tf_added p) (filter_mset (\<lambda>e. ie_id e \<notin> tf_added c) ix)"
    unfolding filter_filter_mset using sep by (intro filter_mset_cong refl) auto
  then have "filter_mset (\<lambda>e. ie_id e \<notin> (tf_added p - ie_id ` set (tf_removed c)) \<union> tf_added c) ix +
      (mset (tf_removed p) + mset (filter (\<lambda>e. ie_id e \<notin> tf_added p) (tf_removed c))) = Ip"
    using assms(2) by (simp add: frame_ok_def Ic ac_simps)
  moreover have "tf_buffer_mark ?p = length Bp \<and> tf_saved ?p = [] \<and> take (length Bp) buf = Bp \<or> tf_buffer_mark ?p = 0 \<and> tf_saved ?p = Bp"
    using assms(1,2) take_prefix_trans [of Bp Bc buf] by (auto simp: frame_ok_def)
  ultimately show ?thesis
    unfolding frame_ok_def merge_txn_frame_def Let_def
    by (simp add: journal_removes_fields(1,2) [OF d] journal_removes_fields(3,4,5) p)
qed

subsection \<open>Steps of the engine's memory\<close>

text \<open>Buffer, index, whether a transaction is active, and the frames.\<close>

type_synonym memory = "log_entry list \<times> index_entry list \<times> bool \<times> txn_frame list"

definition memory_of :: "'s block_engine \<Rightarrow> memory" where
  "memory_of eng = (be_buffer eng, be_index eng, be_txn_active eng, be_frames eng)"

definition top_frame :: "bool \<Rightarrow> txn_frame list \<Rightarrow> txn_frame option res" where
  "top_frame a fr = (if \<not> a then Inr None else if fr = [] then Inl (Panic ''active journal has an undo frame'') else Inr (Some (last fr)))"

definition put_frame :: "txn_frame option \<Rightarrow> txn_frame list \<Rightarrow> txn_frame list" where
  "put_frame j fr = (case j of None \<Rightarrow> fr | Some f \<Rightarrow> butlast fr @ [f])"

lemma txn_guard_memory: "txn_guard eng = top_frame (be_txn_active eng) (be_frames eng)"
  by (simp add: txn_guard_def top_frame_def)

lemma set_frame_fields [simp]:
  "be_frames (set_frame j eng) = put_frame j (be_frames eng)" "be_buffer (set_frame j eng) = be_buffer eng" "be_index (set_frame j eng) = be_index eng"
  "be_txn_active (set_frame j eng) = be_txn_active eng" "be_store (set_frame j eng) = be_store eng"
  "be_retention_native (set_frame j eng) = be_retention_native eng" "be_retention_floor (set_frame j eng) = be_retention_floor eng"
  by (simp_all add: set_frame_def put_frame_def split: option.split)

text \<open>A step keeps the innermost frame good for the moment it was opened at, and touches no other frame.\<close>

fun mem_journaled :: "memory \<Rightarrow> memory \<Rightarrow> bool" where
  "mem_journaled (b, i, a, fr) (b', i', a', fr') \<longleftrightarrow> a' = a \<and> (\<not> a \<longrightarrow> fr' = fr) \<and>
     (a \<longrightarrow> fr = [] \<longrightarrow> fr' = []) \<and>
     (\<forall>fs f B I. a \<longrightarrow> fr = fs @ [f] \<longrightarrow> frame_ok f b (mset i) B I \<longrightarrow>
        (\<exists>f'. fr' = fs @ [f'] \<and> tf_savepoint f' = tf_savepoint f \<and> frame_ok f' b' (mset i') B I))"

lemma mem_journaled_refl [simp]: "mem_journaled m m"
  by (cases m) auto

lemma mem_journaled_trans: "mem_journaled m m1 \<Longrightarrow> mem_journaled m1 m2 \<Longrightarrow> mem_journaled m m2"
proof -
  assume 1: "mem_journaled m m1" and 2: "mem_journaled m1 m2"
  obtain b i a fr where m: "m = (b, i, a, fr)" by (rule prod_cases4)
  obtain b1 i1 a1 fr1 where m1: "m1 = (b1, i1, a1, fr1)" by (rule prod_cases4)
  obtain b2 i2 a2 fr2 where m2: "m2 = (b2, i2, a2, fr2)" by (rule prod_cases4)
  have "\<exists>f'. fr2 = fs @ [f'] \<and> tf_savepoint f' = tf_savepoint f \<and> frame_ok f' b2 (mset i2) B I"
    if h: "a" "fr = fs @ [f]" "frame_ok f b (mset i) B I" for fs f B I
  proof -
    obtain f1 where f1: "fr1 = fs @ [f1]" "tf_savepoint f1 = tf_savepoint f" "frame_ok f1 b1 (mset i1) B I" using 1 h unfolding m m1 by auto
    have "a1" using 1 h(1) by (simp add: m m1)
    then obtain f2 where "fr2 = fs @ [f2]" "tf_savepoint f2 = tf_savepoint f1" "frame_ok f2 b2 (mset i2) B I" using 2 f1(1,3) unfolding m1 m2 by auto
    then show ?thesis using f1(2) by auto
  qed
  moreover have "a2 = a \<and> (\<not> a \<longrightarrow> fr2 = fr) \<and> (a \<longrightarrow> fr = [] \<longrightarrow> fr2 = [])" using 1 2 unfolding m m1 m2 by simp
  ultimately show ?thesis unfolding m m2 mem_journaled.simps by blast
qed

lemma mem_journaledI:
  assumes "top_frame a fr = Inr j" "j = None \<Longrightarrow> fr' = fr"
    and "\<And>f B I. j = Some f \<Longrightarrow> frame_ok f b (mset i) B I \<Longrightarrow>
      \<exists>f'. fr' = butlast fr @ [f'] \<and> tf_savepoint f' = tf_savepoint f \<and> frame_ok f' b' (mset i') B I"
  shows "mem_journaled (b, i, a, fr) (b', i', a, fr')"
  using assms by (auto simp: top_frame_def split: if_split_asm)

lemma put_same: "top_frame a fr = Inr (Some f) \<Longrightarrow> butlast fr @ [f] = fr"
  by (auto simp: top_frame_def split: if_split_asm)

lemma top_put: "top_frame a fr = Inr j \<Longrightarrow> (j = None \<longleftrightarrow> j' = None) \<Longrightarrow> top_frame a (put_frame j' fr) = Inr j'"
  by (auto simp: top_frame_def put_frame_def split: if_split_asm option.split)

lemma put_put: "(j1 = None \<longleftrightarrow> j2 = None) \<Longrightarrow> put_frame j2 (put_frame j1 fr) = put_frame j2 fr"
  by (cases j1; cases j2) (simp_all add: put_frame_def)

lemma captureE:
  assumes "and_then (top_frame a fr) (capture b) = Inr j"
  shows "\<exists>j0. top_frame a fr = Inr j0 \<and> (j0 = None \<longleftrightarrow> j = None) \<and> (\<forall>f. j = Some f \<longrightarrow> tf_buffer_mark f = 0)"
proof -
  obtain j0 where j0: "top_frame a fr = Inr j0" "capture b j0 = Inr j" using assms by auto
  then show ?thesis by (cases j0) (auto simp: capture_def capture_prefix_def split: if_split_asm)
qed

lemma mem_capture:
  assumes "and_then (top_frame a fr) (capture b) = Inr j"
  shows "mem_journaled (b, i, a, fr) (b', i, a, put_frame j fr)"
proof -
  obtain j0 where j0: "top_frame a fr = Inr j0" "capture b j0 = Inr j" using assms by auto
  show ?thesis
  proof (rule mem_journaledI [OF j0(1)])
    show "put_frame j fr = fr" if "j0 = None" using that j0(2) by (auto simp: capture_def put_frame_def)
    fix f B I assume f: "j0 = Some f" "frame_ok f b (mset i) B I"
    then obtain f' where "capture_prefix b f = Inr f'" "\<forall>buf'. frame_ok f' buf' (mset i) B I" "tf_savepoint f' = tf_savepoint f"
      using frame_ok_capture by blast
    then show "\<exists>f'. put_frame j fr = butlast fr @ [f'] \<and> tf_savepoint f' = tf_savepoint f \<and> frame_ok f' b' (mset i) B I"
      using f(1) j0(2) by (auto simp: capture_def put_frame_def)
  qed
qed

lemma mem_unmarked:
  assumes "top_frame a fr = Inr j" "\<forall>f. j = Some f \<longrightarrow> tf_buffer_mark f = 0"
  shows "mem_journaled (b, i, a, fr) (b', i, a, fr)"
proof (rule mem_journaledI [OF assms(1)])
  fix f B I assume f: "j = Some f" "frame_ok f b (mset i) B I"
  then have "frame_ok f b' (mset i) B I" using assms(2) by (auto simp: frame_ok_def)
  then show "\<exists>f'. fr = butlast fr @ [f'] \<and> tf_savepoint f' = tf_savepoint f \<and> frame_ok f' b' (mset i) B I"
    using put_same [OF assms(1) [unfolded f(1)]] by metis
qed simp

lemma mem_append: "mem_journaled (b, i, a, fr) (b @ es, i, a, fr)"
  by (auto intro: frame_ok_append)

lemma mem_add:
  assumes "top_frame a fr = Inr j" "ie_id ` set i \<inter> ie_id ` set new = {}"
  shows "mem_journaled (b, i, a, fr) (b, i @ new, a, put_frame (journal_adds (map ie_loc new) j) fr)"
proof (rule mem_journaledI [OF assms(1)])
  fix f B I assume f: "j = Some f" "frame_ok f b (mset i) B I"
  have "frame_ok (fold journal_add (map ie_loc new) f) b (mset i + mset new) B I" using assms(2) by (intro frame_ok_add [OF f(2)]) auto
  then show "\<exists>f'. put_frame (journal_adds (map ie_loc new) j) fr = butlast fr @ [f'] \<and> tf_savepoint f' = tf_savepoint f \<and> frame_ok f' b (mset (i @ new)) B I"
    using f(1) by (auto simp: put_frame_def journal_adds_def journal_adds_fields(5))
qed (simp add: put_frame_def journal_adds_def)

lemma mem_remove:
  assumes "top_frame a fr = Inr j" "distinct (map ie_id i)"
  shows "mem_journaled (b, i, a, fr) (b, filter (\<lambda>e. \<not> P e) i, a, put_frame (map_option (fold journal_remove (filter P i)) j) fr)"
proof (rule mem_journaledI [OF assms(1)])
  fix f B I assume f: "j = Some f" "frame_ok f b (mset i) B I"
  then show "\<exists>f'. put_frame (map_option (fold journal_remove (filter P i)) j) fr = butlast fr @ [f'] \<and> tf_savepoint f' = tf_savepoint f \<and>
      frame_ok f' b (mset (filter (\<lambda>e. \<not> P e) i)) B I"
    using frame_ok_remove [OF f(2) assms(2), of P] by (auto simp: put_frame_def journal_removes_fields(5) simp del: mset_filter)
qed (simp add: put_frame_def)

declare mem_journaled.simps [simp del]

end
