(* ===== verification/EngineSafe.thy ===== *)
theory EngineSafe
  imports EngineTxn StoreFacts
begin

section \<open>The engine over a store\<close>

text \<open>
  What the engine relies on a store for: new blocks get ids that are not in use, deletes and replacements remove exactly
  what they are told to, and everything else leaves the blocks alone. On such a store every operation of the
  engine keeps its index a list of stored blocks and its journal good.
\<close>

definition backed :: "('s \<Rightarrow> bool) \<Rightarrow> ('s \<Rightarrow> nat \<Rightarrow> bool) \<Rightarrow> ('s \<Rightarrow> i64 set) \<Rightarrow> nat \<Rightarrow> 's block_engine \<Rightarrow> bool" where
  "backed good room ids n eng \<longleftrightarrow> good (be_store eng) \<and> room (be_store eng) n \<and> distinct (map ie_id (be_index eng)) \<and>
     ie_id ` set (be_index eng) \<subseteq> ids (be_store eng)"

lemma backed_cong:
  "be_store eng' = be_store eng \<Longrightarrow> be_index eng' = be_index eng \<Longrightarrow> backed good room ids n eng' = backed good room ids n eng"
  by (simp add: backed_def)

lemma memory_of_simps [simp]: "memory_of eng = (be_buffer eng, be_index eng, be_txn_active eng, be_frames eng)"
  by (simp add: memory_of_def)

lemma length_level_runs: "length (level_runs es) \<le> length es"
proof (induction es rule: level_runs.induct)
  case (2 e es)
  then show ?case using length_dropWhile_le [of "\<lambda>x. le_level x = le_level e" es] by simp
qed simp

lemma index_entries_locs: "length metas = length locs \<Longrightarrow> length parts = length locs \<Longrightarrow> map ie_loc (index_entries metas locs parts) = locs"
  by (auto simp: index_entries_def intro: nth_equalityI)

lemma index_entries_ids: "length metas = length locs \<Longrightarrow> length parts = length locs \<Longrightarrow> map ie_id (index_entries metas locs parts) = map bl_id locs"
  using arg_cong [OF index_entries_locs, of metas locs parts "map bl_id"] by (simp add: ie_id_def [abs_def] comp_def)

lemma act_bindE:
  assumes "act_bind m f eng = (r, eng')"
  obtains e where "m eng = (Inl e, eng')" "r = Inl e" | x eng1 where "m eng = (Inr x, eng1)" "f x eng1 = (r, eng')"
  using assms by (auto simp: act_bind_def split: prod.split_asm sum.split_asm)

lemma rewrite_groups_work:
  "rewrite_groups env s gs w = Inr w' \<Longrightarrow> length (ow_adds w') = length (ow_adds w) + length gs \<and>
     length (ow_parts w') = length (ow_parts w) + length gs \<and> ow_removes w' = ow_removes w @ map ie_loc (sources_of gs)"
proof (induction gs arbitrary: w)
  case (Cons g gs)
  then obtain w1 where w1: "rewrite_group env s g w = Inr w1" "rewrite_groups env s gs w1 = Inr w'" by auto
  have "length (ow_adds w1) = Suc (length (ow_adds w))" "length (ow_parts w1) = Suc (length (ow_parts w))"
      "ow_removes w1 = ow_removes w @ map ie_loc (og_sources g)"
    using w1(1) by (cases "og_kind g"; auto simp: rewrite_group_def Let_def)+
  then show ?case using Cons.IH [OF w1(2)] by simp
qed simp

lemma swapped_sets:
  "K \<inter> R = {} \<Longrightarrow> R \<subseteq> G \<Longrightarrow> G \<subseteq> I \<Longrightarrow> K \<subseteq> I \<Longrightarrow> L \<inter> I = {} \<Longrightarrow> K \<union> L \<subseteq> (I \<union> L) - R"
  by blast

lemma disjoint_subset_right: "R \<subseteq> G \<Longrightarrow> K \<inter> G = {} \<Longrightarrow> K \<inter> R = {}"
  by blast

text \<open>What a call of \<open>optimize\<close> has collected when it swaps.\<close>

lemma optimize_work_ok:
  assumes "plan_optimize cfg index (optimize_candidates cfg index) = Inr planned"
    and "rewrite_groups env s (fst (select_groups budget [] 0 planned)) no_work = Inr w"
  shows "length (ow_adds w) \<le> length index" "length (ow_parts w) = length (ow_adds w)" "set (ow_removes w) \<subseteq> ie_loc ` set index"
proof -
  obtain k where k: "fst (select_groups budget [] 0 planned) = take k planned"
    using select_groups_prefix [of budget "[]" 0 planned] by auto
  note w = rewrite_groups_work [OF assms(2) [unfolded k]] and plan = plan_optimize_cover [OF assms(1)]
  have "length (optimize_candidates cfg index) \<le> length index" by (simp add: optimize_candidates_def)
  then show "length (ow_adds w) \<le> length index" using w plan(4) by (simp add: no_work_def)
  show "length (ow_parts w) = length (ow_adds w)" using w by (simp add: no_work_def)
  have "set (sources_of (take k planned)) \<subseteq> set (sources_of planned)" using set_take_subset [of k planned] by (auto simp: sources_of_def)
  also have "\<dots> \<subseteq> set (optimize_candidates cfg index)" using set_mset_mono [OF plan(2)] by simp
  also have "\<dots> \<subseteq> set index" by (auto simp: optimize_candidates_def)
  finally show "set (ow_removes w) \<subseteq> ie_loc ` set index" using w by (auto simp: no_work_def)
qed

locale id_store =
  fixes env :: "'s engine_env"
    and good :: "'s \<Rightarrow> bool"
    and room :: "'s \<Rightarrow> nat \<Rightarrow> bool"
    and ids :: "'s \<Rightarrow> i64 set"
  assumes room_mono: "room s m \<Longrightarrow> n \<le> m \<Longrightarrow> room s n"
    and put_law: "good s \<Longrightarrow> room s (length bs + n) \<Longrightarrow> so_put_blocks (en_ops env) s bs = (r, s') \<Longrightarrow>
      good s' \<and> room s' n \<and> (case r of Inl _ \<Rightarrow> ids s \<subseteq> ids s' | Inr locs \<Rightarrow> length locs = length bs \<and> distinct (map bl_id locs) \<and>
        bl_id ` set locs \<inter> ids s = {} \<and> ids s' = ids s \<union> bl_id ` set locs)"
    and replace_law: "good s \<Longrightarrow> room s (length bs + n) \<Longrightarrow> so_replace_blocks (en_ops env) s bs rem cb st = (r, s', st') \<Longrightarrow>
      good s' \<and> room s' n \<and> (case r of Inl _ \<Rightarrow> ids s \<subseteq> ids s' \<and> st' = st | Inr locs \<Rightarrow> length locs = length bs \<and> distinct (map bl_id locs) \<and>
        bl_id ` set locs \<inter> ids s = {} \<and> ids s' = (ids s \<union> bl_id ` set locs) - bl_id ` set rem \<and> st' = cb locs st)"
    and delete_law: "good s \<Longrightarrow> room s n \<Longrightarrow> so_delete_blocks (en_ops env) s locs = (es, s') \<Longrightarrow>
      good s' \<and> room s' n \<and> ids s' = ids s - bl_id ` set locs \<and> (bl_id ` set locs \<subseteq> ids s \<longrightarrow> es = [])"
    and meta_law: "good s \<Longrightarrow> room s n \<Longrightarrow> so_save_meta (en_ops env) s k v = (u, s') \<Longrightarrow> good s' \<and> room s' n \<and> ids s' = ids s"
    and terms_law: "good s \<Longrightarrow> room s n \<Longrightarrow> so_replace_terms (en_ops env) s loc ts = (u, s') \<Longrightarrow> good s' \<and> room s' n \<and> ids s' = ids s"
    and purge_law: "good s \<Longrightarrow> room s n \<Longrightarrow> so_purge_term_prefix (en_ops env) s pre = (p, s') \<Longrightarrow> good s' \<and> room s' n \<and> ids s' = ids s"
begin

lemma save_meta_ok:
  assumes "backed good room ids n eng" "save_meta env k v eng = (r, eng')"
  shows "backed good room ids n eng' \<and> ids (be_store eng') = ids (be_store eng) \<and> memory_of eng' = memory_of eng"
proof -
  obtain u s' where m: "so_save_meta (en_ops env) (be_store eng) k v = (u, s')" by fastforce
  show ?thesis using assms meta_law [OF _ _ m, of n] by (auto simp: save_meta_def m backed_def image_subset_iff)
qed

lemma persist_ok:
  assumes "backed good room ids n eng"
  shows "persist_ingest_raw_total env k eng = (r, eng') \<Longrightarrow> backed good room ids n eng' \<and> ids (be_store eng') = ids (be_store eng) \<and> memory_of eng' = memory_of eng"
    and "persist_compression_totals env x y z w eng = (r, eng') \<Longrightarrow> backed good room ids n eng' \<and> ids (be_store eng') = ids (be_store eng) \<and> memory_of eng' = memory_of eng"
  using assms save_meta_ok [OF assms]
  by (auto simp: persist_ingest_raw_total_def persist_compression_totals_def split: if_split_asm sum.split_asm prod.split_asm)

lemma prune_ok:
  assumes "backed good room ids n eng" "prune env cutoff eng = (r, eng')"
  shows "backed good room ids n eng' \<and> mem_journaled (memory_of eng) (memory_of eng') \<and> length (be_index eng') \<le> length (be_index eng)"
proof (cases "and_then (txn_guard eng) (capture (be_buffer eng))")
  case (Inl e)
  then show ?thesis using assms by (simp add: prune_def)
next
  case (Inr j)
  let ?gone = "\<lambda>e. bm_ts_max (ie_meta e) < cutoff"
  let ?victims = "map ie_loc (filter ?gone (be_index eng))"
  let ?buf = "filter (\<lambda>e. le_ts e \<ge> cutoff) (be_buffer eng)"
  have cap: "and_then (top_frame (be_txn_active eng) (be_frames eng)) (capture (be_buffer eng)) = Inr j" using Inr by (simp add: txn_guard_memory)
  have 1: "mem_journaled (memory_of eng) (?buf, be_index eng, be_txn_active eng, put_frame j (be_frames eng))"
    using mem_capture [OF cap] by simp
  show ?thesis
  proof (cases "?victims = []")
    case True
    then have eng': "eng' = (set_frame j eng)\<lparr>be_buffer := ?buf\<rparr>" using assms(2) Inr by (simp add: prune_def Let_def)
    show ?thesis using 1 backed_cong [of eng' eng] assms(1) unfolding eng' by simp
  next
    case False
    obtain es s' where d: "so_delete_blocks (en_ops env) (be_store eng) ?victims = (es, s')" by fastforce
    have sub: "bl_id ` set ?victims \<subseteq> ids (be_store eng)" using assms(1) by (auto simp: backed_def ie_id_def)
    note law = delete_law [OF _ _ d, of n]
    have es: "es = []" and s': "good s'" "room s' n" "ids s' = ids (be_store eng) - bl_id ` set ?victims" using law sub assms(1) by (auto simp: backed_def)
    have eng': "eng' = (set_frame (map_option (fold journal_remove (filter ?gone (be_index eng))) j) ((set_frame j eng)\<lparr>be_buffer := ?buf, be_store := s'\<rparr>))
        \<lparr>be_index := filter (\<lambda>e. bm_ts_max (ie_meta e) \<ge> cutoff) (be_index eng)\<rparr>"
      using assms(2) Inr False d es by (simp add: prune_def Let_def)
    obtain j0 where j0: "top_frame (be_txn_active eng) (be_frames eng) = Inr j0" "j0 = None \<longleftrightarrow> j = None" using captureE [OF cap] by blast
    have dist: "distinct (map ie_id (be_index eng))" using assms(1) by (simp add: backed_def)
    have keep: "(\<lambda>e. bm_ts_max (ie_meta e) \<ge> cutoff) = (\<lambda>e. \<not> ?gone e)" by auto
    have 2: "mem_journaled (?buf, be_index eng, be_txn_active eng, put_frame j (be_frames eng)) (memory_of eng')"
      using mem_remove [OF top_put [OF j0] dist, of ?buf ?gone] unfolding eng' keep by simp
    have "ie_id ` set (filter (\<lambda>e. \<not> ?gone e) (be_index eng)) \<subseteq> ids s'"
      using assms(1) dist unfolding s'(3) backed_def by (auto simp: ie_id_def distinct_map inj_on_def)
    then have "backed good room ids n eng'" using s'(1,2) dist unfolding eng' keep by (simp add: backed_def distinct_map_filter)
    then show ?thesis using mem_journaled_trans [OF 1 2] eng' by simp
  qed
qed

lemma retention_ok:
  assumes "backed good room ids n eng" "apply_retention env eng = (r, eng')"
  shows "backed good room ids n eng' \<and> mem_journaled (memory_of eng) (memory_of eng') \<and> length (be_index eng') \<le> length (be_index eng)"
proof (cases "eng' = eng")
  case False
  then obtain c r1 e1 where "prune env c eng = (r1, e1)" "eng' = e1 \<or> eng' = e1\<lparr>be_retention_floor := c\<rparr>"
    using assms(2) by (auto simp: apply_retention_def Let_def act_bind_def split: if_split_asm option.split_asm prod.split_asm sum.split_asm)
  then show ?thesis using prune_ok [OF assms(1), of c r1 e1] by (auto simp: backed_def image_subset_iff)
qed (use assms in simp)

lemma backed_room: "backed good room ids m eng \<Longrightarrow> n \<le> m \<Longrightarrow> backed good room ids n eng"
  using room_mono by (auto simp: backed_def)

lemma store_step:
  assumes "backed good room ids m eng" "good s'" "room s' n" "ids (be_store eng) \<subseteq> ids s'"
  shows "backed good room ids n (eng\<lparr>be_store := s'\<rparr>)"
  using assms by (auto simp: backed_def)

lemma add_new_ok:
  assumes "backed good room ids n eng" "top_frame (be_txn_active eng) (be_frames eng) = Inr j" "\<forall>f. j = Some f \<longrightarrow> tf_buffer_mark f = 0"
    and "distinct (map ie_id new)" "ie_id ` set new \<inter> ie_id ` set (be_index eng) = {}" "ie_id ` set new \<subseteq> ids (be_store eng)"
    and eng': "eng' = (set_frame (journal_adds (map ie_loc new) j) eng)\<lparr>be_index := be_index eng @ new, be_buffer := []\<rparr>"
  shows "backed good room ids n eng' \<and> mem_journaled (memory_of eng) (memory_of eng')"
proof -
  let ?j = "journal_adds (map ie_loc new) j" and ?fr = "be_frames eng"
  have "mem_journaled (memory_of eng) (be_buffer eng, be_index eng @ new, be_txn_active eng, put_frame ?j ?fr)"
    using mem_add [OF assms(2), of "be_index eng" new] assms(5) by (simp add: Int_commute)
  moreover have "mem_journaled (be_buffer eng, be_index eng @ new, be_txn_active eng, put_frame ?j ?fr) (memory_of eng')"
  proof -
    have "\<forall>f. ?j = Some f \<longrightarrow> tf_buffer_mark f = 0" "j = None \<longleftrightarrow> ?j = None" using assms(3) by (auto simp: journal_adds_def journal_adds_fields)
    then show ?thesis using mem_unmarked [OF top_put [OF assms(2), of ?j], of "be_buffer eng" "be_index eng @ new" "[]"] by (simp add: eng')
  qed
  moreover have "backed good room ids n eng'" using assms(1,4,5,6) by (auto simp: eng' backed_def)
  ultimately show ?thesis using mem_journaled_trans by blast
qed

lemma flush_tail_ok:
  assumes "backed good room ids n eng" "top_frame (be_txn_active eng) (be_frames eng) = Inr j" "\<forall>f. j = Some f \<longrightarrow> tf_buffer_mark f = 0"
    and new: "distinct (map ie_id new)" "ie_id ` set new \<inter> ie_id ` set (be_index eng) = {}" "ie_id ` set new \<subseteq> ids (be_store eng)"
    and act: "act_bind (persist_ingest_raw_total env k) (\<lambda>_ eng.
          (Inr m, (set_frame (journal_adds (map ie_loc new) j) eng)\<lparr>be_index := be_index eng @ new, be_buffer := []\<rparr>)) eng = (r, eng')"
  shows "backed good room ids n eng' \<and> mem_journaled (memory_of eng) (memory_of eng') \<and> length (be_index eng') \<le> length (be_index eng) + length new"
  using act
proof (cases rule: act_bindE)
  case (1 e)
  then show ?thesis using persist_ok(1) [OF assms(1) 1(1)] by simp
next
  case (2 x eng3)
  have p: "backed good room ids n eng3" "ids (be_store eng3) = ids (be_store eng)" "memory_of eng3 = memory_of eng"
    using persist_ok(1) [OF assms(1) 2(1)] by blast+
  then have m: "be_txn_active eng3 = be_txn_active eng" "be_frames eng3 = be_frames eng" "be_index eng3 = be_index eng" by simp_all
  show ?thesis using add_new_ok [OF p(1), of j new eng'] assms(2,3) new p m 2(2) by auto
qed

lemma flush_inner_ok:
  assumes "backed good room ids (length (be_buffer eng) + n) eng" "flush_inner env eng = (r, eng')"
  shows "backed good room ids n eng' \<and> mem_journaled (memory_of eng) (memory_of eng') \<and>
    length (be_index eng') \<le> length (be_index eng) + length (be_buffer eng)"
proof (cases "be_buffer eng = [] \<or> (\<exists>e. and_then (txn_guard eng) (capture (be_buffer eng)) = Inl e)")
  case True
  then have "eng' = eng" using assms(2) by (elim disjE exE; cases "be_buffer eng = []") (simp_all add: flush_inner_def)
  then show ?thesis using assms(1) backed_room by auto
next
  case False
  then obtain j where ne: "be_buffer eng \<noteq> []" and j: "and_then (txn_guard eng) (capture (be_buffer eng)) = Inr j" by (metis sum.exhaust)
  let ?buf = "sort_key (\<lambda>e. (le_level e, le_ts e)) (be_buffer eng)"
  define eng1 where "eng1 = (set_frame j eng)\<lparr>be_buffer := ?buf\<rparr>"
  have cap: "and_then (top_frame (be_txn_active eng) (be_frames eng)) (capture (be_buffer eng)) = Inr j" using j by (simp add: txn_guard_memory)
  have 1: "mem_journaled (memory_of eng) (memory_of eng1)" using mem_capture [OF cap] by (simp add: eng1_def)
  obtain j0 where j0: "top_frame (be_txn_active eng) (be_frames eng) = Inr j0" "j0 = None \<longleftrightarrow> j = None" and um: "\<forall>f. j = Some f \<longrightarrow> tf_buffer_mark f = 0"
    using captureE [OF cap] by blast
  have top: "top_frame (be_txn_active eng1) (be_frames eng1) = Inr j" using top_put [OF j0] by (simp add: eng1_def)
  have b1: "backed good room ids (length (be_buffer eng) + n) eng1" using assms(1) by (simp add: eng1_def backed_def)
  have i1: "be_index eng1 = be_index eng" "be_store eng1 = be_store eng" by (simp_all add: eng1_def)
  show ?thesis
  proof (cases "collect_r (encode_run env) (level_runs ?buf)")
    case (Inl e)
    then have "eng' = eng1" using assms(2) ne j by (simp add: flush_inner_def Let_def eng1_def)
    then show ?thesis using 1 b1 backed_room i1 by auto
  next
    case blocks: (Inr blocks)
    obtain r1 s1 where put: "so_put_blocks (en_ops env) (be_store eng) blocks = (r1, s1)" by fastforce
    have lb: "length blocks = length (level_runs ?buf)" "length blocks \<le> length (be_buffer eng)"
      using collect_r_length [OF blocks] length_level_runs [of ?buf] by simp_all
    then have gr: "good (be_store eng)" "room (be_store eng) (length blocks + n)" using assms(1) room_mono [of _ _ "length blocks + n"] by (auto simp: backed_def)
    note law = put_law [OF gr put]
    define eng2 where "eng2 = eng1\<lparr>be_store := s1\<rparr>"
    have b2: "backed good room ids n eng2" unfolding eng2_def by (rule store_step [OF b1]) (use law i1 in \<open>auto split: sum.split_asm\<close>)
    have m2: "memory_of eng2 = memory_of eng1" "be_index eng2 = be_index eng" "be_store eng2 = s1" by (simp_all add: eng2_def i1)
    show ?thesis
    proof (cases r1)
      case (Inl e)
      then have "eng' = eng2" using assms(2) ne j blocks put by (simp add: flush_inner_def Let_def eng1_def eng2_def)
      then show ?thesis using 1 b2 m2 by simp
    next
      case (Inr locs)
      let ?new = "index_entries (map eb_meta blocks) locs (map (\<lambda>run. Some (le_level (hd run))) (level_runs ?buf))"
      have ids: "map ie_id ?new = map bl_id locs" using law Inr lb by (intro index_entries_ids) auto
      have set_ids: "ie_id ` set ?new = bl_id ` set locs" using arg_cong [OF ids, of set] by simp
      have len: "length ?new = length blocks" using arg_cong [OF ids, of length] law Inr by simp
      have "backed good room ids n eng' \<and> mem_journaled (memory_of eng2) (memory_of eng') \<and> length (be_index eng') \<le> length (be_index eng2) + length ?new"
      proof (rule flush_tail_ok [OF b2])
        show "top_frame (be_txn_active eng2) (be_frames eng2) = Inr j" using top by (simp add: eng2_def)
        show "distinct (map ie_id ?new)" using ids law Inr by simp
        show "ie_id ` set ?new \<inter> ie_id ` set (be_index eng2) = {}" using law Inr assms(1) unfolding set_ids m2(2) by (auto simp: backed_def)
        show "ie_id ` set ?new \<subseteq> ids (be_store eng2)" using law Inr unfolding set_ids m2(3) by simp
        show "act_bind (persist_ingest_raw_total env (sum_list (map raw_ingest_bytes ?buf) mod 2 ^ 64)) (\<lambda>_ eng.
            (Inr (length ?buf), (set_frame (journal_adds (map ie_loc ?new) j) eng)\<lparr>be_index := be_index eng @ ?new, be_buffer := []\<rparr>)) eng2 = (r, eng')"
          using assms(2) ne j blocks put Inr by (simp add: flush_inner_def Let_def eng1_def eng2_def)
      qed (use um in simp)
      then show ?thesis using mem_journaled_trans [OF 1, of "memory_of eng'"] m2 len lb(2) by auto
    qed
  qed
qed

lemma swap_ok:
  assumes "backed good room ids m eng" "good s'" "room s' n" "top_frame (be_txn_active eng) (be_frames eng) = Inr j"
    and rem: "set rem \<subseteq> ie_loc ` set (be_index eng)"
    and locs: "length metas = length locs" "length parts = length locs" "distinct (map bl_id locs)" "bl_id ` set locs \<inter> ids (be_store eng) = {}"
    and s': "ids s' = (ids (be_store eng) \<union> bl_id ` set locs) - bl_id ` set rem"
    and sw: "swap_index metas parts rem locs (be_index eng, j) = (index, j')"
    and eng': "eng' = (set_frame j' eng)\<lparr>be_store := s', be_index := index\<rparr>"
  shows "backed good room ids n eng' \<and> mem_journaled (memory_of eng) (memory_of eng')"
proof -
  let ?P = "\<lambda>e. ie_loc e \<in> set rem" and ?a = "be_txn_active eng" and ?fr = "be_frames eng" and ?b = "be_buffer eng"
  let ?new = "index_entries metas locs parts" and ?kept = "filter (\<lambda>e. \<not> ?P e) (be_index eng)"
  let ?j1 = "map_option (fold journal_remove (filter ?P (be_index eng))) j"
  have index: "index = ?kept @ ?new" and j': "j' = journal_adds (map ie_loc ?new) ?j1" using sw unfolding swap_index_def Let_def prod.case prod.inject by blast+
  have ids: "map ie_id ?new = map bl_id locs" using locs by (intro index_entries_ids) auto
  have set_ids: "ie_id ` set ?new = bl_id ` set locs" using arg_cong [OF ids, of set] by simp
  have old: "distinct (map ie_id (be_index eng))" "ie_id ` set (be_index eng) \<subseteq> ids (be_store eng)" using assms(1) by (auto simp: backed_def)
  have sep: "ie_id ` set ?kept \<inter> ie_id ` set ?new = {}" using old(2) locs(4) unfolding set_ids by auto
  have 1: "mem_journaled (memory_of eng) (?b, ?kept, ?a, put_frame ?j1 ?fr)" using mem_remove [OF assms(4) old(1), of ?b ?P] by simp
  have 2: "mem_journaled (?b, ?kept, ?a, put_frame ?j1 ?fr) (?b, ?kept @ ?new, ?a, put_frame j' (put_frame ?j1 ?fr))"
    unfolding j' by (rule mem_add [OF top_put [OF assms(4)] sep]) simp
  have "put_frame j' (put_frame ?j1 ?fr) = put_frame j' ?fr" unfolding j' journal_adds_def by (rule put_put) simp
  then have jr: "mem_journaled (memory_of eng) (memory_of eng')" using mem_journaled_trans [OF 1 2] unfolding eng' index by simp
  have gone: "bl_id ` set rem \<subseteq> ie_id ` {e \<in> set (be_index eng). ?P e}"
  proof (rule image_subsetI)
    fix l assume "l \<in> set rem"
    then obtain e where "e \<in> set (be_index eng)" "l = ie_loc e" using rem by blast
    then show "bl_id l \<in> ie_id ` {e \<in> set (be_index eng). ?P e}" using \<open>l \<in> set rem\<close> by (auto simp: ie_id_def)
  qed
  moreover have "ie_id ` set ?kept \<inter> ie_id ` {e \<in> set (be_index eng). ?P e} = {}"
  proof -
    have "set ?kept \<inter> {e \<in> set (be_index eng). ?P e} = {}" by auto
    then show ?thesis using inj_on_image_Int [of ie_id "set (be_index eng)" "set ?kept" "{e \<in> set (be_index eng). ?P e}"] old(1)
      by (simp add: distinct_map)
  qed
  ultimately have kept: "ie_id ` set ?kept \<inter> bl_id ` set rem = {}" by (rule disjoint_subset_right)
  have "ie_id ` {e \<in> set (be_index eng). ?P e} \<subseteq> ids (be_store eng)" using old(2) by (auto simp: image_subset_iff)
  moreover have "ie_id ` set ?kept \<subseteq> ids (be_store eng)" using old(2) by (auto simp: image_subset_iff)
  ultimately have sub: "ie_id ` set ?kept \<union> bl_id ` set locs \<subseteq> ids s'" unfolding s' using swapped_sets [OF kept gone _ _ locs(4)] by simp
  have "distinct (map ie_id (?kept @ ?new))" using sep ids locs(3) distinct_map_filter [OF old(1)] unfolding set_ids by (simp add: set_ids)
  moreover have "ie_id ` set (?kept @ ?new) \<subseteq> ids s'" using sub unfolding set_append image_Un set_ids .
  ultimately have "backed good room ids n eng'" using assms(2,3) unfolding backed_def eng' index by simp
  then show ?thesis using jr ..
qed

lemma optimize_inner_ok:
  assumes "backed good room ids (length (be_index eng) + n) eng" "optimize_inner env budget eng = (r, eng')"
  shows "backed good room ids n eng' \<and> mem_journaled (memory_of eng) (memory_of eng')"
proof (cases "eng' = eng")
  case True
  then show ?thesis using assms(1) backed_room by auto
next
  case False
  let ?cands = "optimize_candidates (en_config env) (be_index eng)"
  obtain planned w j where plan: "plan_optimize (en_config env) (be_index eng) ?cands = Inr planned"
      and w: "rewrite_groups env (be_store eng) (fst (select_groups budget [] 0 planned)) no_work = Inr w"
      and j: "txn_guard eng = Inr j" and ne: "?cands \<noteq> []" "planned \<noteq> []" "ow_adds w \<noteq> []"
    using assms(2) False unfolding optimize_inner_def Let_def by (auto split: if_split_asm sum.split_asm)
  note work = optimize_work_ok [OF plan w]
  have top: "top_frame (be_txn_active eng) (be_frames eng) = Inr j" using j by (simp add: txn_guard_memory)
  have put_j: "put_frame j (be_frames eng) = be_frames eng" using top put_same by (cases j) (auto simp: put_frame_def)
  obtain r1 s1 index j' where sw: "so_replace_blocks (en_ops env) (be_store eng) (ow_adds w) (ow_removes w)
      (swap_index (map eb_meta (ow_adds w)) (ow_parts w) (ow_removes w)) (be_index eng, j) = (r1, s1, index, j')" by (metis prod_cases4)
  let ?eng1 = "(set_frame j' eng)\<lparr>be_store := s1, be_index := index\<rparr>"
  have gr: "good (be_store eng)" "room (be_store eng) (length (ow_adds w) + n)"
    using assms(1) work(1) room_mono [of _ _ "length (ow_adds w) + n"] by (auto simp: backed_def)
  note law = replace_law [OF gr sw]
  have ok: "backed good room ids n ?eng1 \<and> mem_journaled (memory_of eng) (memory_of ?eng1)"
  proof (cases r1)
    case (Inl e)
    then show ?thesis using law assms(1) put_j by (auto simp: backed_def)
  next
    case (Inr locs)
    then have l: "length locs = length (ow_adds w)" "distinct (map bl_id locs)" "bl_id ` set locs \<inter> ids (be_store eng) = {}"
        "ids s1 = (ids (be_store eng) \<union> bl_id ` set locs) - bl_id ` set (ow_removes w)"
        "swap_index (map eb_meta (ow_adds w)) (ow_parts w) (ow_removes w) locs (be_index eng, j) = (index, j')" "good s1" "room s1 n"
      using law by simp_all
    show ?thesis
      by (rule swap_ok [OF assms(1) l(6,7) top work(3) _ _ l(2,3,4,5) refl]) (simp_all add: l(1) work(2))
  qed
  have "eng' = ?eng1 \<or> (\<exists>r. persist_compression_totals env (ow_raw_in w) (ow_raw_out w) (ow_merge_in w) (ow_merge_out w) ?eng1 = (r, eng'))"
    using assms(2) plan w j ne sw unfolding optimize_inner_def by (auto simp: Let_def split: sum.split_asm elim!: act_bindE)
  then show ?thesis using ok persist_ok(2) [of n ?eng1] by (metis (no_types, lifting))
qed

lemma purge_ok:
  assumes "backed good room ids n eng" "maybe_purge_unopted_trigrams env eng = (r, eng')"
  shows "backed good room ids n eng' \<and> memory_of eng' = memory_of eng"
proof -
  obtain u s' where p: "so_purge_term_prefix (en_ops env) (be_store eng) (str_lit ''tg:'') = (u, s')" by fastforce
  have "eng' = eng \<or> eng' = eng\<lparr>be_trigram_purge_checked := True, be_store := s'\<rparr>"
    using assms(2) p by (auto simp: maybe_purge_unopted_trigrams_def act_bind_def purge_trigram_postings_def split: if_split_asm sum.split_asm)
  then show ?thesis using assms(1) purge_law [OF _ _ p, of n] by (auto simp: backed_def image_subset_iff)
qed

lemma optimize_ok:
  assumes "backed good room ids (length (be_index eng) + n) eng" "optimize_with_budget env budget eng = (r, eng')"
  shows "backed good room ids n eng' \<and> mem_journaled (memory_of eng) (memory_of eng')"
  using assms(2) unfolding optimize_with_budget_def
proof (cases rule: act_bindE)
  case (1 e)
  then show ?thesis using purge_ok [OF assms(1) 1(1)] backed_room by auto
next
  case (2 u eng1)
  then have p: "backed good room ids (length (be_index eng1) + n) eng1" "memory_of eng1 = memory_of eng" using purge_ok [OF assms(1) 2(1)] by auto
  from 2(2) show ?thesis
  proof (cases rule: act_bindE)
    case (1 e)
    then show ?thesis using optimize_inner_ok [OF p(1) 1(1)] p(2) by simp
  next
    case o: (2 out eng2)
    then have b: "backed good room ids n eng2" "mem_journaled (memory_of eng) (memory_of eng2)" using optimize_inner_ok [OF p(1) o(1)] p(2) by auto
    obtain r3 eng3 where "apply_retention env eng2 = (r3, eng3)" "eng' = eng3" using o(2) by (auto elim!: act_bindE)
    then show ?thesis using retention_ok [OF b(1), of r3 eng3] mem_journaled_trans [OF b(2)] by blast
  qed
qed

lemma auto_optimize_ok:
  assumes "backed good room ids (length (be_index eng) + n) eng" "maybe_auto_optimize env eng = (r, eng')"
  shows "backed good room ids n eng' \<and> mem_journaled (memory_of eng) (memory_of eng')"
proof -
  let ?eng0 = "eng\<lparr>be_flushes_since_auto_optimize := 0\<rparr>"
  consider "memory_of eng' = memory_of eng" "be_store eng' = be_store eng"
    | budget r1 where "optimize_with_budget env (Some budget) ?eng0 = (r1, eng')"
    using assms(2) by (auto simp: maybe_auto_optimize_def optimize_budgeted_def Let_def split: if_split_asm sum.split_asm elim!: act_bindE)
  then show ?thesis
  proof cases
    case 1
    then show ?thesis using backed_room [OF assms(1), of n] by (auto simp: backed_def)
  next
    case 2
    show ?thesis using optimize_ok [OF _ 2, of n] assms(1) by (simp add: backed_def)
  qed
qed

lemma flush_ok:
  assumes "backed good room ids (2 * length (be_buffer eng) + length (be_index eng) + n) eng" "flush env eng = (r, eng')"
  shows "backed good room ids n eng' \<and> mem_journaled (memory_of eng) (memory_of eng')"
proof -
  let ?m = "length (be_buffer eng) + length (be_index eng) + n"
  obtain r1 eng1 where f: "flush_inner env eng = (r1, eng1)" by fastforce
  have 1: "backed good room ids ?m eng1" "mem_journaled (memory_of eng) (memory_of eng1)" "length (be_index eng1) \<le> length (be_index eng) + length (be_buffer eng)"
    using flush_inner_ok [OF _ f, of ?m] assms(1) by (simp_all add: mult_2 add.assoc)
  show ?thesis
  proof (cases "eng' = eng1")
    case True
    then show ?thesis using 1 backed_room [of ?m eng1 n] by simp
  next
    case False
    obtain r2 eng2 where a: "apply_retention env eng1 = (r2, eng2)" by fastforce
    note 2 = retention_ok [OF 1(1) a]
    then have j2: "mem_journaled (memory_of eng) (memory_of eng2)" and b2: "backed good room ids (length (be_index eng2) + n) eng2"
      using mem_journaled_trans [OF 1(2)] 1(3) backed_room [of ?m eng2] by auto
    have "eng' = eng2 \<or> (\<exists>r. maybe_auto_optimize env eng2 = (r, eng'))"
      using assms(2) f a False by (auto simp: flush_def elim!: act_bindE)
    then show ?thesis using auto_optimize_ok [OF b2] j2 mem_journaled_trans [OF j2] backed_room [OF b2, of n] by auto
  qed
qed

lemma push_entries_ok:
  assumes "backed good room ids (2 * (length (be_buffer eng) + length es) + length (be_index eng) + n) eng" "push_entries env es eng = (r, eng')"
  shows "backed good room ids n eng' \<and> mem_journaled (memory_of eng) (memory_of eng')"
proof -
  let ?eng1 = "eng\<lparr>be_buffer := be_buffer eng @ es\<rparr>"
  have 1: "mem_journaled (memory_of eng) (memory_of ?eng1)" by (simp add: mem_append)
  have b: "backed good room ids (2 * length (be_buffer ?eng1) + length (be_index ?eng1) + n) ?eng1" using assms(1) by (simp add: backed_def)
  have "eng' = ?eng1 \<or> (\<exists>r. flush env ?eng1 = (r, eng'))" using assms(2) by (auto simp: push_entries_def Let_def split: if_split_asm elim!: act_bindE)
  then show ?thesis using 1 flush_ok [OF b] mem_journaled_trans [OF 1] backed_room [OF b, of n] by auto
qed

lemma reindex_blocks_ok:
  "backed good room ids n eng \<Longrightarrow> reindex_blocks env keys blocks k eng = (r, eng') \<Longrightarrow> backed good room ids n eng' \<and> memory_of eng' = memory_of eng"
proof (induction blocks arbitrary: k eng)
  case (Cons b blocks)
  obtain meta loc where b: "b = (meta, loc)" by fastforce
  let ?terms = "and_then (so_read_block (en_ops env) (be_store eng) loc) (\<lambda>bs.
      and_then (decode_block (en_lib env) (en_js env) bs) (\<lambda>entries. extract_terms_with (en_config env) entries keys))"
  show ?case
  proof (cases ?terms)
    case (Inl e)
    then show ?thesis using Cons.prems b by simp
  next
    case (Inr terms)
    obtain u s' where t: "so_replace_terms (en_ops env) (be_store eng) loc terms = (u, s')" by fastforce
    have b1: "backed good room ids n (eng\<lparr>be_store := s'\<rparr>)" using Cons.prems(1) terms_law [OF _ _ t, of n] by (auto simp: backed_def)
    consider "eng' = eng\<lparr>be_store := s'\<rparr>" | "reindex_blocks env keys blocks (Suc k) (eng\<lparr>be_store := s'\<rparr>) = (r, eng')"
      using Cons.prems(2) Inr t unfolding b by (auto simp: Let_def split: sum.split_asm)
    then show ?thesis using b1 Cons.IH [OF b1] by cases auto
  qed
qed simp

lemma reindex_ok:
  assumes "backed good room ids n eng" "reindex env keys eng = (r, eng')"
  shows "backed good room ids n eng' \<and> memory_of eng' = memory_of eng"
proof -
  consider "eng' = eng" | blocks r1 where "reindex_blocks env keys blocks 0 eng = (r1, eng')"
    | blocks r1 eng1 v r2 where "reindex_blocks env keys blocks 0 eng = (r1, eng1)" "save_meta env (str_lit ''index_keys'') v eng1 = (r2, eng')"
    using assms(2) by (auto simp: reindex_def split: sum.split_asm elim!: act_bindE)
  then show ?thesis
  proof cases
    case (3 blocks r1 eng1)
    have "backed good room ids n eng1" "memory_of eng1 = memory_of eng" using reindex_blocks_ok [OF assms(1) 3(1)] by blast+
    then show ?thesis using save_meta_ok [OF _ 3(2)] by simp
  qed (use assms(1) reindex_blocks_ok [OF assms(1)] in blast)+
qed

end

end
