(* ===== verification/EngineMem.thy ===== *)
theory EngineMem
  imports EngineSafe
begin

section \<open>The engine over the in-memory store\<close>

text \<open>
  The contract of \<open>EngineSafe\<close> holds of \<open>MemBlockStore\<close>, with any libraries and any configuration.
\<close>

definition mem_env :: "codec_lib \<Rightarrow> json_lib \<Rightarrow> (str \<Rightarrow> str) \<Rightarrow> block_engine_config \<Rightarrow> mem_inner engine_env" where
  "mem_env lib js lower cfg = \<lparr>en_lib = lib, en_js = js, en_lower = lower, en_ops = mem_ops, en_config = cfg\<rparr>"

lemma mem_env_simps [simp]:
  "en_lib (mem_env lib js lower cfg) = lib" "en_js (mem_env lib js lower cfg) = js" "en_lower (mem_env lib js lower cfg) = lower"
  "en_ops (mem_env lib js lower cfg) = mem_ops" "en_config (mem_env lib js lower cfg) = cfg"
  by (simp_all add: mem_env_def)

lemma insert_all_ids:
  "mem_wf s \<Longrightarrow> has_room s (length bs + n) \<Longrightarrow> insert_all s bs = (locs, s') \<Longrightarrow>
     mem_wf s' \<and> has_room s' n \<and> length locs = length bs \<and> distinct (map bl_id locs) \<and>
     bl_id ` set locs \<inter> block_ids s = {} \<and> block_ids s' = block_ids s \<union> bl_id ` set locs"
proof (induction bs arbitrary: s locs)
  case (Cons b bs)
  obtain loc s1 where i: "insert_one s b = (loc, s1)" by (cases "insert_one s b")
  obtain ls where l: "insert_all s1 bs = (ls, s')" "locs = loc # ls" using Cons.prems(3) i by (auto simp: Let_def split: prod.split_asm)
  have room: "has_room s (Suc (length bs + n))" using Cons.prems(2) by simp
  note one = insert_one_wf [OF Cons.prems(1) room i] and fresh = next_id_fresh(2) [OF Cons.prems(1) room]
  have loc: "bl_id loc = next_id s" using insert_one_loc [OF i] by simp
  from Cons.IH [OF one(1,2) l(1)] show ?case using fresh unfolding l(2) one(3) by (auto simp: loc image_iff)
qed simp

lemma mem_put_law:
  "mem_wf s \<Longrightarrow> has_room s (length bs + n) \<Longrightarrow> so_put_blocks mem_ops s bs = (r, s') \<Longrightarrow>
     \<exists>locs. r = Inr locs \<and> insert_all s bs = (locs, s')"
  by (auto simp: mem_ops_def insert_all_put prod_eq_iff)

lemma mem_present: "bt_get (mi_blocks s) i \<noteq> None \<longleftrightarrow> i \<in> block_ids s"
  by (simp add: block_ids_def map_of_eq_None_iff)

lemma remove_ids_room [simp]: "has_room (remove_ids xs s) n = has_room s n"
  by (simp add: has_room_def remove_ids_def)

lemma mem_delete_law:
  assumes "mem_wf s" "has_room s n" "so_delete_blocks mem_ops s locs = (es, s')"
  shows "mem_wf s' \<and> has_room s' n \<and> block_ids s' = block_ids s - bl_id ` set locs \<and> (bl_id ` set locs \<subseteq> block_ids s \<longrightarrow> es = [])"
proof -
  have s': "s' = remove_ids (map bl_id (filter (\<lambda>l. bl_id l \<in> block_ids s) locs)) s" "es = map (\<lambda>_. Invalid ''MemBlockStore: no block with id'') (filter (\<lambda>l. bl_id l \<notin> block_ids s) locs)"
    using assms(3) unfolding mem_ops_def mem_delete_blocks_def Let_def by (simp_all add: mem_present [symmetric])
  have "bl_id ` set locs \<subseteq> block_ids s \<longrightarrow> es = []" unfolding s' by (auto simp: filter_empty_conv)
  moreover have "block_ids s - set (map bl_id (filter (\<lambda>l. bl_id l \<in> block_ids s) locs)) = block_ids s - bl_id ` set locs" by auto
  ultimately show ?thesis using assms(2) remove_ids_wf(1,2) [OF assms(1)] unfolding s'(1) by simp
qed

interpretation mem_engine: id_store "mem_env lib js lower cfg" mem_wf has_room block_ids for lib js lower cfg
proof (unfold_locales, goal_cases)
  case (1 s m n)
  then show ?case by (simp add: has_room_def)
next
  case (2 s bs n r s')
  then obtain locs where "r = Inr locs" "insert_all s bs = (locs, s')" using mem_put_law [OF 2(1,2) 2(3) [unfolded mem_env_simps]] by blast
  then show ?case using insert_all_ids [OF 2(1,2), of locs s'] by simp
next
  case (3 s bs n rem cb st r s' st')
  obtain locs s1 where i: "insert_all s bs = (locs, s1)" by fastforce
  have r: "r = Inr locs" "s' = remove_ids (map bl_id rem) s1" "st' = cb locs st"
    using 3(3) i by (simp_all add: mem_ops_def mem_replace_blocks_def)
  have ok: "mem_wf s1" "has_room s1 n" "length locs = length bs" "distinct (map bl_id locs)" "bl_id ` set locs \<inter> block_ids s = {}"
      "block_ids s1 = block_ids s \<union> bl_id ` set locs"
    using insert_all_ids [OF 3(1,2) i] by - (elim conjE, assumption)+
  have ids: "block_ids s' = block_ids s \<union> bl_id ` set locs - bl_id ` set rem" unfolding r(2) remove_ids_wf(2) [OF ok(1)] ok(6) set_map ..
  have "mem_wf s'" "has_room s' n" using remove_ids_wf(1) [OF ok(1)] ok(2) unfolding r(2) by simp_all
  then show ?case unfolding r(1) sum.case by (intro conjI ok(3,4,5) ids r(3))
next
  case (4 s n locs es s')
  show ?case by (rule mem_delete_law [OF 4(1,2) 4(3) [unfolded mem_env_simps]])
next
  case (5 s n k v u s')
  then have "s' = mem_save_meta s k v" by (simp add: mem_ops_def)
  then show ?case using 5(1,2) by (simp add: mem_save_meta_def mem_wf_def has_room_def block_ids_def)
next
  case (6 s n loc ts u s')
  then have t: "mem_replace_terms s loc ts = (u, s')" by (simp add: mem_ops_def)
  then have "mi_next_id s' = mi_next_id s" by (auto simp: mem_replace_terms_def split: if_split_asm)
  then show ?case using replace_terms_abs [OF 6(1) t] 6(2) by (simp add: has_room_def)
next
  case (7 s n pre p s')
  then obtain k where t: "mem_purge_term_prefix s pre = (k, s')" by (auto simp: mem_ops_def apfst_def map_prod_def split: prod.split_asm)
  then have "mi_next_id s' = mi_next_id s" by (auto simp: mem_purge_term_prefix_def Let_def)
  then show ?case using purge_abs [OF 7(1) t] 7(2) by (simp add: has_room_def)
qed

end
