(* ===== verification/EngineRun.thy ===== *)
theory EngineRun
  imports EngineMem
begin

section \<open>Transactions of the host\<close>

text \<open>
  The engine inside a transaction of its host, as the callbacks of the virtual table drive it: operations, savepoints,
  releases and rollbacks to a savepoint in any order. The blocks of the store are rows of the host, so that a rollback gives the store
  back as it was; the engine has to give back its buffer and its index by itself.
\<close>

subsection \<open>Operations\<close>

datatype engine_op =
    OpPush log_entry | OpPushBatch "log_entry list" | OpFlush | OpOptimize | OpOptimizeBudgeted nat | OpPrune i64 | OpApplyRetention
  | OpSetRetention "i64 option" | OpSetRetentionPersistent i64 | OpSetAutoOptimize nat | OpReindex "str list" | OpPurgeTrigrams
  | OpSaveMessageIndex str

fun run_op :: "'s engine_env \<Rightarrow> engine_op \<Rightarrow> 's block_engine \<Rightarrow> 's block_engine" where
  "run_op env (OpPush e) eng = snd (push env e eng)"
| "run_op env (OpPushBatch es) eng = snd (push_batch env es eng)"
| "run_op env OpFlush eng = snd (flush env eng)"
| "run_op env OpOptimize eng = snd (optimize env eng)"
| "run_op env (OpOptimizeBudgeted n) eng = snd (optimize_budgeted env n eng)"
| "run_op env (OpPrune cutoff) eng = snd (prune env cutoff eng)"
| "run_op env OpApplyRetention eng = snd (apply_retention env eng)"
| "run_op env (OpSetRetention native) eng = set_retention native eng"
| "run_op env (OpSetRetentionPersistent native) eng = snd (set_retention_persistent env native eng)"
| "run_op env (OpSetAutoOptimize interval) eng = snd (set_auto_optimize_interval_persistent env interval eng)"
| "run_op env (OpReindex keys) eng = snd (reindex env keys eng)"
| "run_op env OpPurgeTrigrams eng = snd (purge_trigram_postings env eng)"
| "run_op env (OpSaveMessageIndex v) eng = snd (save_message_index_meta env v eng)"

fun pushed :: "engine_op \<Rightarrow> nat" where
  "pushed (OpPush e) = 1"
| "pushed (OpPushBatch es) = length es"
| "pushed _ = 0"

text \<open>How many blocks an operation may write at most.\<close>

definition op_room :: "engine_op \<Rightarrow> 's block_engine \<Rightarrow> nat" where
  "op_room op eng = 2 * (length (be_buffer eng) + pushed op) + length (be_index eng)"

context id_store
begin

lemma optimize_budgeted_ok:
  assumes "backed good room ids (length (be_index eng) + n) eng" "optimize_budgeted env k eng = (r, eng')"
  shows "backed good room ids n eng' \<and> mem_journaled (memory_of eng) (memory_of eng')"
proof (cases "k = 0")
  case True
  then show ?thesis using assms backed_room [OF assms(1), of n] by (simp add: optimize_budgeted_def)
next
  case False
  then show ?thesis using optimize_ok [OF assms(1)] assms(2) by (simp add: optimize_budgeted_def)
qed

lemma settings_ok:
  assumes "backed good room ids n eng"
  shows "set_retention_persistent env v eng = (r, eng') \<Longrightarrow> backed good room ids n eng' \<and> memory_of eng' = memory_of eng"
    and "set_auto_optimize_interval_persistent env k eng = (r, eng') \<Longrightarrow> backed good room ids n eng' \<and> memory_of eng' = memory_of eng"
    and "purge_trigram_postings env eng = (r2, eng') \<Longrightarrow> backed good room ids n eng' \<and> memory_of eng' = memory_of eng"
proof -
  have saved: "backed good room ids n eng' \<and> memory_of eng' = memory_of eng"
    if "save_meta env k v eng = (r1, eng1)" "be_store eng' = be_store eng1" "memory_of eng' = memory_of eng1" for k v r1 eng1
    using save_meta_ok [OF assms that(1)] that(2,3) backed_cong [of eng' eng1] by simp
  show "backed good room ids n eng' \<and> memory_of eng' = memory_of eng" if "set_retention_persistent env v eng = (r, eng')"
    using that unfolding set_retention_persistent_def by (cases rule: act_bindE) (erule saved; auto simp: set_retention_def)+
  show "backed good room ids n eng' \<and> memory_of eng' = memory_of eng" if "set_auto_optimize_interval_persistent env k eng = (r, eng')"
    using that unfolding set_auto_optimize_interval_persistent_def by (cases rule: act_bindE) (erule saved; auto)+
  show "backed good room ids n eng' \<and> memory_of eng' = memory_of eng" if p: "purge_trigram_postings env eng = (r2, eng')"
  proof -
    obtain u s' where l: "so_purge_term_prefix (en_ops env) (be_store eng) (str_lit ''tg:'') = (u, s')" by fastforce
    then have "eng' = eng\<lparr>be_trigram_purge_checked := True, be_store := s'\<rparr>" using p by (simp add: purge_trigram_postings_def)
    then show ?thesis using assms purge_law [OF _ _ l, of n] by (auto simp: backed_def image_subset_iff)
  qed
qed

lemma push_ok:
  assumes "backed good room ids (2 * (length (be_buffer eng) + 1) + length (be_index eng) + n) eng" "push env e eng = (r, eng')"
  shows "backed good room ids n eng' \<and> mem_journaled (memory_of eng) (memory_of eng')"
proof (cases "normalize_entry e")
  case (Inl err)
  then show ?thesis using assms backed_room [OF assms(1), of n] by (simp add: push_def)
next
  case (Inr e')
  then show ?thesis using push_entries_ok [of eng "[e']" n r eng'] assms by (simp add: push_def)
qed

lemma push_batch_ok:
  assumes "backed good room ids (2 * (length (be_buffer eng) + length es) + length (be_index eng) + n) eng" "push_batch env es eng = (r, eng')"
  shows "backed good room ids n eng' \<and> mem_journaled (memory_of eng) (memory_of eng')"
proof (cases "collect_r normalize_entry es")
  case (Inl err)
  then show ?thesis using assms backed_room [OF assms(1), of n] by (simp add: push_batch_def)
next
  case (Inr es')
  then obtain r1 where "push_entries env es' eng = (r1, eng')" using assms(2) by (auto simp: push_batch_def elim!: act_bindE)
  then show ?thesis using push_entries_ok [of eng es' n r1 eng'] assms(1) collect_r_length [OF Inr] by simp
qed

lemma run_op_ok:
  assumes "backed good room ids (op_room op eng + n) eng"
  shows "backed good room ids n (run_op env op eng) \<and> mem_journaled (memory_of eng) (memory_of (run_op env op eng))"
proof -
  have b: "backed good room ids m eng" if "m \<le> op_room op eng + n" for m using assms that by (rule backed_room)
  have i: "backed good room ids (length (be_index eng) + n) eng" and f: "backed good room ids (2 * length (be_buffer eng) + length (be_index eng) + n) eng"
    and b0: "backed good room ids n eng" by (rule b, simp add: op_room_def)+
  show ?thesis
  proof (cases op)
    case (OpPush e)
    then show ?thesis using push_ok [of eng n e, OF _ prod.collapse [symmetric]] assms by (simp add: op_room_def)
  next
    case (OpPushBatch es)
    then show ?thesis using push_batch_ok [of eng es n, OF _ prod.collapse [symmetric]] assms by (simp add: op_room_def)
  next
    case OpFlush
    then show ?thesis using flush_ok [OF f prod.collapse [symmetric]] by simp
  next
    case OpOptimize
    then show ?thesis using optimize_ok [OF i prod.collapse [symmetric], of None] by (simp add: optimize_def)
  next
    case (OpOptimizeBudgeted k)
    then show ?thesis using optimize_budgeted_ok [OF i prod.collapse [symmetric], of k] by simp
  next
    case (OpPrune cutoff)
    then show ?thesis using prune_ok [OF b0 prod.collapse [symmetric], of cutoff] by simp
  next
    case OpApplyRetention
    then show ?thesis using retention_ok [OF b0 prod.collapse [symmetric]] by simp
  next
    case (OpSetRetention native)
    then show ?thesis using b0 by (simp add: set_retention_def backed_def)
  next
    case (OpSetRetentionPersistent native)
    then show ?thesis using settings_ok(1) [OF b0 prod.collapse [symmetric], of native] by simp
  next
    case (OpSetAutoOptimize interval)
    then show ?thesis using settings_ok(2) [OF b0 prod.collapse [symmetric], of interval] by simp
  next
    case (OpReindex keys)
    then show ?thesis using reindex_ok [OF b0 prod.collapse [symmetric], of keys] by simp
  next
    case OpPurgeTrigrams
    then show ?thesis using settings_ok(3) [OF b0 prod.collapse [symmetric]] by simp
  next
    case (OpSaveMessageIndex v)
    then show ?thesis using save_meta_ok [OF b0 prod.collapse [symmetric], of "str_lit ''message_index''" v] by (simp add: save_message_index_meta_def)
  qed
qed

end

subsection \<open>Runs\<close>

text \<open>
  The open savepoints, the transaction itself first, each with the engine of the moment it was opened. The host gives
  a savepoint an id that is not in use, and on a rollback to it the store is the one of that moment.
\<close>

type_synonym 's marks = "(int option \<times> 's block_engine) list"

inductive txn_step :: "'s engine_env \<Rightarrow> ('s \<Rightarrow> nat \<Rightarrow> bool) \<Rightarrow> 's block_engine \<times> 's marks \<Rightarrow> 's block_engine \<times> 's marks \<Rightarrow> bool" for env room where
  Operation: "room (be_store eng) (op_room op eng) \<Longrightarrow> txn_step env room (eng, ms) (run_op env op eng, ms)"
| Savepoint: "Some sp \<notin> fst ` set ms \<Longrightarrow> txn_step env room (eng, ms) (txn_savepoint sp eng, ms @ [(Some sp, eng)])"
| Release: "Some sp \<in> fst ` set ms \<Longrightarrow> txn_step env room (eng, ms) (txn_release sp eng, takeWhile (\<lambda>m. fst m \<noteq> Some sp) ms)"
| Rollback_To: "dropWhile (\<lambda>m. fst m \<noteq> Some sp) ms = (Some sp, moment) # inner \<Longrightarrow>
    txn_step env room (eng, ms) ((txn_rollback_to sp eng)\<lparr>be_store := be_store moment\<rparr>, takeWhile (\<lambda>m. fst m \<noteq> Some sp) ms @ [(Some sp, moment)])"

inductive_cases txn_stepE: "txn_step env room (eng, ms) st"

text \<open>Each frame leads from the moment of the next mark, or from now, back to the moment of its own.\<close>

definition moment_of :: "'s marks \<Rightarrow> log_entry list \<times> index_entry multiset \<Rightarrow> log_entry list \<times> index_entry multiset" where
  "moment_of ms now = (case ms of [] \<Rightarrow> now | m # _ \<Rightarrow> (be_buffer (snd m), mset (be_index (snd m))))"

fun chain_ok :: "txn_frame list \<Rightarrow> 's marks \<Rightarrow> log_entry list \<times> index_entry multiset \<Rightarrow> bool" where
  "chain_ok [] ms now \<longleftrightarrow> ms = []"
| "chain_ok (f # fs) [] now \<longleftrightarrow> False"
| "chain_ok (f # fs) (m # ms) now \<longleftrightarrow>
     frame_ok f (fst (moment_of ms now)) (snd (moment_of ms now)) (be_buffer (snd m)) (mset (be_index (snd m))) \<and> chain_ok fs ms now"

lemma moment_of_simps [simp]:
  "moment_of [] now = now" "moment_of (m # ms) now = (be_buffer (snd m), mset (be_index (snd m)))"
  "moment_of (ms @ ns) now = moment_of ms (moment_of ns now)"
  by (simp_all add: moment_of_def split: list.split)

lemma chain_append: "length fs = length ms \<Longrightarrow> chain_ok (fs @ gs) (ms @ ns) now \<longleftrightarrow> chain_ok fs ms (moment_of ns now) \<and> chain_ok gs ns now"
  by (induction fs ms rule: list_induct2) auto

lemma chain_length: "chain_ok fs ms now \<Longrightarrow> length fs = length ms"
  by (induction fs ms now rule: chain_ok.induct) auto

lemma merge_savepoint [simp]: "tf_savepoint (merge_txn_frame p c) = tf_savepoint p"
  by (simp add: merge_txn_frame_def Let_def journal_removes_fields(5))

lemma chain_merge:
  "chain_ok (p # cs) (m # ms) now \<Longrightarrow> \<forall>m' \<in> set ms. ids_distinct (mset (be_index (snd m'))) \<Longrightarrow>
     frame_ok (foldl merge_txn_frame p cs) (fst now) (snd now) (be_buffer (snd m)) (mset (be_index (snd m))) \<and>
     tf_savepoint (foldl merge_txn_frame p cs) = tf_savepoint p"
proof (induction cs arbitrary: p ms)
  case (Cons c cs)
  then obtain m1 ms1 where ms: "ms = m1 # ms1" by (cases ms) auto
  have "frame_ok (merge_txn_frame p c) (fst (moment_of ms1 now)) (snd (moment_of ms1 now)) (be_buffer (snd m)) (mset (be_index (snd m)))"
    using Cons.prems frame_ok_merge [of c _ _ "be_buffer (snd m1)" "mset (be_index (snd m1))" p] by (simp add: ms)
  then have "chain_ok (merge_txn_frame p c # cs) (m # ms1) now" using Cons.prems(1) by (simp add: ms)
  from Cons.IH [OF this] show ?case using Cons.prems(2) by (simp add: ms)
qed (auto dest: chain_length)

lemma rollback_frame_fields [simp]:
  "be_store (rollback_txn_frame f eng) = be_store eng" "be_frames (rollback_txn_frame f eng) = be_frames eng"
  "be_txn_active (rollback_txn_frame f eng) = be_txn_active eng"
  by (simp_all add: rollback_txn_frame_def)

lemma rollback_frames_fields [simp]:
  "be_store (foldr rollback_txn_frame fs eng) = be_store eng" "be_frames (foldr rollback_txn_frame fs eng) = be_frames eng"
  "be_txn_active (foldr rollback_txn_frame fs eng) = be_txn_active eng"
  by (induction fs) simp_all

lemma chain_rollback:
  "chain_ok fs ms (be_buffer eng, mset (be_index eng)) \<Longrightarrow>
     (be_buffer (foldr rollback_txn_frame fs eng), mset (be_index (foldr rollback_txn_frame fs eng))) = moment_of ms (be_buffer eng, mset (be_index eng))"
proof (induction fs arbitrary: ms)
  case (Cons f fs)
  then obtain m ms1 where ms: "ms = m # ms1" by (cases ms) auto
  let ?eng = "foldr rollback_txn_frame fs eng"
  have "(be_buffer ?eng, mset (be_index ?eng)) = moment_of ms1 (be_buffer eng, mset (be_index eng))" using Cons by (simp add: ms)
  then have "frame_ok f (be_buffer ?eng) (mset (be_index ?eng)) (be_buffer (snd m)) (mset (be_index (snd m)))"
    using Cons.prems unfolding ms chain_ok.simps by (metis fst_conv snd_conv)
  from frame_ok_undo [OF this] show ?case by (simp add: ms rollback_txn_frame_def [of f ?eng])
qed simp

definition stack_ok :: "('s \<Rightarrow> bool) \<Rightarrow> ('s \<Rightarrow> nat \<Rightarrow> bool) \<Rightarrow> ('s \<Rightarrow> i64 set) \<Rightarrow> 's block_engine \<times> 's marks \<Rightarrow> bool" where
  "stack_ok good room ids st \<longleftrightarrow>
     (let (eng, ms) = st in
      be_txn_active eng \<and> (\<exists>eng0 ms'. ms = (None, eng0) # ms') \<and> distinct (map fst ms) \<and> map tf_savepoint (be_frames eng) = map fst ms \<and>
      (\<forall>m \<in> set ms. backed good room ids 0 (snd m)) \<and> backed good room ids 0 eng \<and>
      chain_ok (be_frames eng) ms (be_buffer eng, mset (be_index eng)))"

lemma split_marks:
  assumes "map tf_savepoint fs = map fst ms"
  shows "map tf_savepoint (takeWhile (\<lambda>f. tf_savepoint f \<noteq> sp) fs) = map fst (takeWhile (\<lambda>m. fst m \<noteq> sp) ms)"
    "map tf_savepoint (dropWhile (\<lambda>f. tf_savepoint f \<noteq> sp) fs) = map fst (dropWhile (\<lambda>m. fst m \<noteq> sp) ms)"
proof -
  have "takeWhile (\<lambda>x. x \<noteq> sp) (map tf_savepoint fs) = takeWhile (\<lambda>x. x \<noteq> sp) (map fst ms)"
    "dropWhile (\<lambda>x. x \<noteq> sp) (map tf_savepoint fs) = dropWhile (\<lambda>x. x \<noteq> sp) (map fst ms)" using assms by simp_all
  then show "map tf_savepoint (takeWhile (\<lambda>f. tf_savepoint f \<noteq> sp) fs) = map fst (takeWhile (\<lambda>m. fst m \<noteq> sp) ms)"
    "map tf_savepoint (dropWhile (\<lambda>f. tf_savepoint f \<noteq> sp) fs) = map fst (dropWhile (\<lambda>m. fst m \<noteq> sp) ms)"
    by (simp_all add: takeWhile_map dropWhile_map comp_def)
qed

text \<open>The frames and marks outside a savepoint, and those from it on.\<close>

lemma split_chain:
  assumes "map tf_savepoint fs = map fst ms" "chain_ok fs ms now"
  shows "chain_ok (fst (split_frames sp fs)) (takeWhile (\<lambda>m. fst m \<noteq> Some sp) ms) (moment_of (dropWhile (\<lambda>m. fst m \<noteq> Some sp) ms) now)"
    "chain_ok (snd (split_frames sp fs)) (dropWhile (\<lambda>m. fst m \<noteq> Some sp) ms) now"
proof -
  note sp = split_marks [OF assms(1), of "Some sp"]
  have "length (fst (split_frames sp fs)) = length (takeWhile (\<lambda>m. fst m \<noteq> Some sp) ms)"
    using arg_cong [OF sp(1), of length] by (simp add: split_frames_def)
  from chain_append [OF this, of "snd (split_frames sp fs)" "dropWhile (\<lambda>m. fst m \<noteq> Some sp) ms" now]
  show "chain_ok (fst (split_frames sp fs)) (takeWhile (\<lambda>m. fst m \<noteq> Some sp) ms) (moment_of (dropWhile (\<lambda>m. fst m \<noteq> Some sp) ms) now)"
    "chain_ok (snd (split_frames sp fs)) (dropWhile (\<lambda>m. fst m \<noteq> Some sp) ms) now"
    using assms(2) by (simp_all add: split_frames_def)
qed

lemma chain_snoc:
  "chain_ok fs ms (be_buffer (snd m), mset (be_index (snd m))) \<Longrightarrow> frame_ok f (fst now) (snd now) (be_buffer (snd m)) (mset (be_index (snd m))) \<Longrightarrow>
     chain_ok (fs @ [f]) (ms @ [m]) now"
  using chain_append [OF chain_length, of fs ms "(be_buffer (snd m), mset (be_index (snd m)))" "[f]" "[m]" now] by simp

lemma backed_mset:
  assumes "backed good room ids n eng" "be_store eng' = be_store eng" "mset (be_index eng') = mset (be_index eng)"
  shows "backed good room ids n eng'"
proof -
  have "distinct (map ie_id (be_index eng'))" using assms(1,3) by (simp add: backed_def flip: ids_distinct_mset)
  then show ?thesis using assms mset_eq_setD [OF assms(3)] by (simp add: backed_def)
qed

lemma takeWhile_distinct: "distinct (map f xs) \<Longrightarrow> distinct (map f (takeWhile P xs))"
  by (metis distinct_take take_map takeWhile_eq_take)

context id_store
begin

lemma operation_stack:
  assumes "stack_ok good room ids (eng, ms)" "room (be_store eng) (op_room op eng)"
  shows "stack_ok good room ids (run_op env op eng, ms)"
proof -
  let ?eng' = "run_op env op eng"
  have ms: "be_txn_active eng" "map tf_savepoint (be_frames eng) = map fst ms" "ms \<noteq> []" "chain_ok (be_frames eng) ms (be_buffer eng, mset (be_index eng))"
    using assms(1) by (auto simp: stack_ok_def)
  have "backed good room ids (op_room op eng + 0) eng" using assms by (simp add: stack_ok_def backed_def)
  note ok = run_op_ok [OF this]
  from ms(2,3) have "be_frames eng \<noteq> []" by auto
  then obtain fs f where fr: "be_frames eng = fs @ [f]" by (metis append_butlast_last_id)
  obtain ns m where ns: "ms = ns @ [m]" using ms(3) by (metis append_butlast_last_id)
  have len: "length fs = length ns" using arg_cong [OF ms(2), of length] by (simp add: fr ns)
  have c: "chain_ok fs ns (be_buffer (snd m), mset (be_index (snd m)))" "frame_ok f (be_buffer eng) (mset (be_index eng)) (be_buffer (snd m)) (mset (be_index (snd m)))"
    using ms(4) chain_append [OF len, of "[f]" "[m]"] by (simp_all add: fr ns)
  obtain f' where f': "be_frames ?eng' = fs @ [f']" "tf_savepoint f' = tf_savepoint f"
      "frame_ok f' (be_buffer ?eng') (mset (be_index ?eng')) (be_buffer (snd m)) (mset (be_index (snd m)))" "be_txn_active ?eng'"
    using ok ms(1) c(2) by (auto simp: mem_journaled.simps fr)
  have "chain_ok (be_frames ?eng') ms (be_buffer ?eng', mset (be_index ?eng'))" unfolding f'(1) ns by (rule chain_snoc [OF c(1)]) (simp add: f'(3))
  then show ?thesis using assms(1) ok f' by (auto simp: stack_ok_def fr)
qed

lemma savepoint_stack:
  assumes "stack_ok good room ids (eng, ms)" "Some sp \<notin> fst ` set ms"
  shows "stack_ok good room ids (txn_savepoint sp eng, ms @ [(Some sp, eng)])"
proof -
  let ?eng' = "txn_savepoint sp eng"
  have st: "be_txn_active eng" "chain_ok (be_frames eng) ms (be_buffer eng, mset (be_index eng))" using assms(1) by (auto simp: stack_ok_def)
  have eng': "?eng' = eng\<lparr>be_frames := be_frames eng @ [new_frame (length (be_buffer eng)) (Some sp)]\<rparr>" using st(1) by (simp add: txn_savepoint_def reset_txn_frame_def)
  have "chain_ok (be_frames ?eng') (ms @ [(Some sp, eng)]) (be_buffer eng, mset (be_index eng))"
    unfolding eng' using chain_snoc [of "be_frames eng" ms "(Some sp, eng)"] st(2) by simp
  then show ?thesis using assms unfolding eng' by (auto simp: stack_ok_def new_frame_def backed_def)
qed

lemma release_stack:
  assumes "stack_ok good room ids (eng, ms)" "Some sp \<in> fst ` set ms"
  shows "stack_ok good room ids (txn_release sp eng, takeWhile (\<lambda>m. fst m \<noteq> Some sp) ms)"
proof -
  let ?mo = "takeWhile (\<lambda>m. fst m \<noteq> Some sp) ms" and ?mr = "dropWhile (\<lambda>m. fst m \<noteq> Some sp) ms" and ?now = "(be_buffer eng, mset (be_index eng))"
  obtain outer rel where sf: "split_frames sp (be_frames eng) = (outer, rel)" by fastforce
  obtain eng0 ms' where st: "map tf_savepoint (be_frames eng) = map fst ms" "chain_ok (be_frames eng) ms ?now" "ms = (None, eng0) # ms'"
      "\<forall>m \<in> set ms. backed good room ids 0 (snd m)" using assms(1) by (auto simp: stack_ok_def)
  note ch = split_chain [OF st(1,2), of sp, unfolded sf fst_conv snd_conv]
  have sv: "map tf_savepoint outer = map fst ?mo" using split_marks(1) [OF st(1), of "Some sp"] sf by (simp add: split_frames_def)
  have mr: "?mr \<noteq> []" using assms(2) by (force simp: dropWhile_eq_Nil_conv)
  have mo: "?mo = (None, eng0) # takeWhile (\<lambda>m. fst m \<noteq> Some sp) ms'" by (simp add: st(3))
  have ne: "rel \<noteq> []" "outer \<noteq> []" using chain_length [OF ch(2)] mr chain_length [OF ch(1)] mo by (simp_all only: length_greater_0_conv [symmetric]) simp
  obtain os p where os: "outer = os @ [p]" using ne(2) by (metis append_butlast_last_id)
  obtain ns m where ns: "?mo = ns @ [m]" using mo by (metis append_butlast_last_id list.discI)
  have len: "length os = length ns" using chain_length [OF ch(1)] by (simp add: os ns)
  have c: "chain_ok os ns (be_buffer (snd m), mset (be_index (snd m)))" "chain_ok (p # rel) (m # ?mr) ?now"
    using ch chain_append [OF len, of "[p]" "[m]"] unfolding os ns by simp_all
  have "ids_distinct (mset (be_index (snd m')))" if "m' \<in> set ?mr" for m'
    using st(4) set_dropWhileD [OF that] by (auto simp: ids_distinct_mset backed_def)
  note mg = chain_merge [OF c(2) ballI [OF this]]
  then have mg: "frame_ok (foldl merge_txn_frame p rel) (be_buffer eng) (mset (be_index eng)) (be_buffer (snd m)) (mset (be_index (snd m)))"
      "tf_savepoint (foldl merge_txn_frame p rel) = tf_savepoint p" by auto
  have eng': "txn_release sp eng = eng\<lparr>be_frames := os @ [foldl merge_txn_frame p rel]\<rparr>" using ne by (simp add: txn_release_def sf os)
  have "chain_ok (os @ [foldl merge_txn_frame p rel]) ?mo ?now" unfolding ns by (rule chain_snoc [OF c(1)]) (simp add: mg(1))
  moreover have "map tf_savepoint (os @ [foldl merge_txn_frame p rel]) = map fst ?mo" using sv mg(2) by (simp add: os)
  moreover have "\<forall>m \<in> set ?mo. backed good room ids 0 (snd m)" using st(4) set_takeWhileD by fast
  moreover have "distinct (map fst ?mo)" using assms(1) by (intro takeWhile_distinct) (simp add: stack_ok_def)
  ultimately show ?thesis using assms(1) mo unfolding eng' by (simp add: stack_ok_def backed_def)
qed

lemma rollback_stack:
  assumes "stack_ok good room ids (eng, ms)" and mr: "dropWhile (\<lambda>m. fst m \<noteq> Some sp) ms = (Some sp, moment) # inner"
  shows "be_buffer (txn_rollback_to sp eng) = be_buffer moment" "mset (be_index (txn_rollback_to sp eng)) = mset (be_index moment)"
    "stack_ok good room ids ((txn_rollback_to sp eng)\<lparr>be_store := be_store moment\<rparr>, takeWhile (\<lambda>m. fst m \<noteq> Some sp) ms @ [(Some sp, moment)])"
proof -
  let ?mo = "takeWhile (\<lambda>m. fst m \<noteq> Some sp) ms" and ?now = "(be_buffer eng, mset (be_index eng))"
  obtain outer undone where sf: "split_frames sp (be_frames eng) = (outer, undone)" by fastforce
  obtain eng0 ms' where st: "map tf_savepoint (be_frames eng) = map fst ms" "chain_ok (be_frames eng) ms ?now" "ms = (None, eng0) # ms'"
      "\<forall>m \<in> set ms. backed good room ids 0 (snd m)" "be_txn_active eng" "distinct (map fst ms)" using assms(1) by (auto simp: stack_ok_def)
  note ch = split_chain [OF st(1,2), of sp, unfolded sf fst_conv snd_conv mr]
  have sv: "map tf_savepoint outer = map fst ?mo" using split_marks(1) [OF st(1), of "Some sp"] sf by (simp add: split_frames_def)
  have ne: "undone \<noteq> []" using chain_length [OF ch(2)] by auto
  let ?e = "foldr rollback_txn_frame undone eng"
  have b: "be_buffer ?e = be_buffer moment" "mset (be_index ?e) = mset (be_index moment)" using chain_rollback [OF ch(2)] by simp_all
  have eng': "txn_rollback_to sp eng = ?e\<lparr>be_frames := outer @ [new_frame (length (be_buffer ?e)) (Some sp)]\<rparr>"
    using ne by (simp add: txn_rollback_to_def sf Let_def reset_txn_frame_def)
  show "be_buffer (txn_rollback_to sp eng) = be_buffer moment" "mset (be_index (txn_rollback_to sp eng)) = mset (be_index moment)"
    using b unfolding eng' by simp_all
  have ms: "ms = ?mo @ (Some sp, moment) # inner" using takeWhile_dropWhile_id [of "\<lambda>m. fst m \<noteq> Some sp" ms] unfolding mr by simp
  have "(Some sp, moment) \<in> set ms" using arg_cong [OF ms, of set] by simp
  then have bm: "backed good room ids 0 moment" using st(4) by fastforce
  have "distinct (map fst (?mo @ (Some sp, moment) # inner))" using st(6) by (simp only: ms [symmetric])
  then have d: "distinct (map fst (?mo @ [(Some sp, moment)]))" by simp
  have "chain_ok (outer @ [new_frame (length (be_buffer ?e)) (Some sp)]) (?mo @ [(Some sp, moment)]) (be_buffer ?e, mset (be_index ?e))"
    by (rule chain_snoc) (use ch(1) b frame_ok_new [of "be_buffer ?e" "Some sp"] in auto)
  moreover have "\<forall>m \<in> set (?mo @ [(Some sp, moment)]). backed good room ids 0 (snd m)" using st(4) bm set_takeWhileD by fastforce
  moreover have "backed good room ids 0 (?e\<lparr>be_frames := outer @ [new_frame (length (be_buffer ?e)) (Some sp)], be_store := be_store moment\<rparr>)"
    by (rule backed_mset [OF bm]) (simp_all add: b)
  ultimately show "stack_ok good room ids ((txn_rollback_to sp eng)\<lparr>be_store := be_store moment\<rparr>, ?mo @ [(Some sp, moment)])"
    using st(3,5) sv d unfolding eng' by (simp add: stack_ok_def new_frame_def)
qed

lemma run_stack:
  assumes "(txn_step env room)\<^sup>*\<^sup>* st st'" "stack_ok good room ids st"
  shows "stack_ok good room ids st'"
  using assms
proof (induction rule: rtranclp_induct)
  case (step st1 st2)
  then show ?case
    by (cases st1) (auto elim!: txn_stepE intro: operation_stack savepoint_stack release_stack rollback_stack(3))
qed simp

lemma begin_stack: "backed good room ids 0 eng \<Longrightarrow> stack_ok good room ids (txn_begin eng, [(None, eng)])"
  by (simp add: stack_ok_def txn_begin_def reset_txn_frame_def backed_def) (simp add: new_frame_def)

lemma run_first:
  "(txn_step env room)\<^sup>*\<^sup>* (eng0, m # ms0) (eng, ms) \<Longrightarrow> fst m = None \<Longrightarrow> \<exists>ms'. ms = m # ms'"
proof (induction "(eng, ms)" arbitrary: eng ms rule: rtranclp_induct)
  case (step st1)
  obtain eng1 ms1 where st1: "st1 = (eng1, ms1)" by fastforce
  then obtain ms' where "ms1 = m # ms'" using step by blast
  then show ?case using step(2,4) unfolding st1 by (auto elim!: txn_stepE)
qed simp

lemma rollback_ok:
  assumes "backed good room ids 0 eng0" "(txn_step env room)\<^sup>*\<^sup>* (txn_begin eng0, [(None, eng0)]) (eng, ms)"
  shows "be_buffer (txn_rollback eng) = be_buffer eng0" "mset (be_index (txn_rollback eng)) = mset (be_index eng0)"
    "\<not> be_txn_active (txn_rollback eng)"
    "(Some sp, moment) \<in> set ms \<Longrightarrow> be_buffer (txn_rollback_to sp eng) = be_buffer moment \<and> mset (be_index (txn_rollback_to sp eng)) = mset (be_index moment)"
    "backed good room ids 0 eng"
proof -
  have ok: "stack_ok good room ids (eng, ms)" using run_stack [OF assms(2) begin_stack [OF assms(1)]] .
  then have st: "be_txn_active eng" "chain_ok (be_frames eng) ms (be_buffer eng, mset (be_index eng))" "distinct (map fst ms)" by (auto simp: stack_ok_def)
  obtain ms' where ms: "ms = (None, eng0) # ms'" using run_first [OF assms(2)] by auto
  show "be_buffer (txn_rollback eng) = be_buffer eng0" "mset (be_index (txn_rollback eng)) = mset (be_index eng0)" "\<not> be_txn_active (txn_rollback eng)"
    using chain_rollback [OF st(2)] st(1) by (simp_all add: txn_rollback_def ms)
  show "backed good room ids 0 eng" using ok by (simp add: stack_ok_def)
  assume m: "(Some sp, moment) \<in> set ms"
  obtain m' inner where mr: "dropWhile (\<lambda>m. fst m \<noteq> Some sp) ms = m' # inner" using m by (cases "dropWhile (\<lambda>m. fst m \<noteq> Some sp) ms") (force simp: dropWhile_eq_Nil_conv)+
  then have "m' \<in> set ms" "fst m' = Some sp" using hd_dropWhile [of "\<lambda>m. fst m \<noteq> Some sp" ms] set_dropWhileD [of m' "\<lambda>m. fst m \<noteq> Some sp" ms] by auto
  then have "m' = (Some sp, moment)" using m st(3) by (metis distinct_map fst_conv inj_onD)
  then show "be_buffer (txn_rollback_to sp eng) = be_buffer moment \<and> mset (be_index (txn_rollback_to sp eng)) = mset (be_index moment)"
    using rollback_stack(1,2) [OF ok, of sp moment inner] mr by simp
qed

end

end
