(* ===== verification/EngineDrain.thy ===== *)
theory EngineDrain
  imports EngineRun BlockClaims
begin

section \<open>Compaction makes progress\<close>

text \<open>
  A successful call of \<open>optimize\<close> rewrites raw blocks while there are any, whatever its budget, and never leaves a new
  one.
\<close>

definition raw_blocks :: "'s block_engine \<Rightarrow> nat" where
  "raw_blocks eng = length (filter is_raw (be_index eng))"

lemma encode_merged_codec:
  assumes "encode_merged env es = Inr b"
  shows "\<not> is_raw_codec (bm_codec (eb_meta b))"
proof -
  let ?codec = "if list_ex is_rich es then CODEC_RICH_TEMPLATE else CODEC_COLUMNAR_V2"
  obtain d meta where "encode_block (en_lib env) (en_js env) es ?codec (bc_zstd_level (en_config env)) = Inr (d, meta)" "eb_meta b = meta"
    using assms by (auto simp: encode_merged_def)
  then show ?thesis by (auto elim!: encode_blockE dest!: encode_columns_codec simp: is_raw_codec_def codec_ids split: if_split_asm)
qed

lemma rewrite_groups_codec:
  "rewrite_groups env s gs w = Inr w' \<Longrightarrow> \<forall>b \<in> set (ow_adds w). \<not> is_raw_codec (bm_codec (eb_meta b)) \<Longrightarrow>
     \<forall>b \<in> set (ow_adds w'). \<not> is_raw_codec (bm_codec (eb_meta b))"
proof (induction gs arbitrary: w)
  case (Cons g gs)
  then obtain w1 where w1: "rewrite_group env s g w = Inr w1" "rewrite_groups env s gs w1 = Inr w'" by auto
  obtain es b where "encode_merged env es = Inr b" "ow_adds w1 = ow_adds w @ [b]"
    using w1(1) by (cases "og_kind g"; auto simp: rewrite_group_def Let_def)
  then show ?case using Cons.IH [OF w1(2)] Cons.prems(2) encode_merged_codec by auto
qed simp

lemma index_entries_metas: "set (map ie_meta (index_entries metas locs parts)) \<subseteq> set metas"
  by (auto simp: index_entries_def dest!: set_zip_leftD)

text \<open>What a successful call did to the index.\<close>

definition rewritten :: "'s engine_env \<Rightarrow> nat option \<Rightarrow> 's block_engine \<Rightarrow> optimize_group list \<Rightarrow> optimize_work \<Rightarrow> bool" where
  "rewritten env budget eng gs w \<longleftrightarrow>
     (\<exists>planned k. plan_optimize (en_config env) (be_index eng) (optimize_candidates (en_config env) (be_index eng)) = Inr planned \<and>
        planned \<noteq> [] \<and> gs = take k planned \<and> 0 < k \<and> (budget = None \<longrightarrow> length planned \<le> k)) \<and>
     rewrite_groups env (be_store eng) gs no_work = Inr w"

lemma raw_candidates: "filter is_raw (optimize_candidates cfg index) = filter is_raw index"
  by (auto simp: optimize_candidates_def intro: filter_cong)

lemma optimize_innerE:
  assumes "optimize_inner env budget eng = (Inr out, eng')"
  obtains (idle) "eng' = eng" "filter is_raw (be_index eng) = []"
  | (work) gs w j locs s1 st where "rewritten env budget eng gs w" "txn_guard eng = Inr j"
      "so_replace_blocks (en_ops env) (be_store eng) (ow_adds w) (ow_removes w)
        (swap_index (map eb_meta (ow_adds w)) (ow_parts w) (ow_removes w)) (be_index eng, j) = (Inr locs, s1, st)"
      "act_bind (persist_compression_totals env (ow_raw_in w) (ow_raw_out w) (ow_merge_in w) (ow_merge_out w))
         (\<lambda>_ eng. (Inr (length (ow_removes w), length (ow_adds w)), eng)) ((set_frame (snd st) eng)\<lparr>be_store := s1, be_index := fst st\<rparr>) = (Inr out, eng')"
proof -
  let ?cands = "optimize_candidates (en_config env) (be_index eng)"
  have raw: "filter is_raw (be_index eng) = []" if "?cands = [] \<or> plan_optimize (en_config env) (be_index eng) ?cands = Inr []"
    using that plan_optimize_cover(1) [of "en_config env" "be_index eng" ?cands "[]"] raw_candidates [of "en_config env" "be_index eng"]
    by (auto simp: raw_part_def simp del: mset_filter)
  show thesis
  proof (cases "?cands = [] \<or> plan_optimize (en_config env) (be_index eng) ?cands = Inr []")
    case True
    then have "eng' = eng" using assms by (auto simp: optimize_inner_def Let_def split: if_split_asm)
    then show thesis using raw [OF True] idle by blast
  next
    case False
    then obtain planned w where plan: "plan_optimize (en_config env) (be_index eng) ?cands = Inr planned" "planned \<noteq> []"
        and w: "rewrite_groups env (be_store eng) (fst (select_groups budget [] 0 planned)) no_work = Inr w"
      using assms by (auto simp: optimize_inner_def Let_def split: if_split_asm sum.split_asm)
    obtain k where k: "fst (select_groups budget [] 0 planned) = take k planned" "0 < k" "budget = None \<longrightarrow> length planned \<le> k"
      using select_groups_prefix [of budget "[]" 0 planned] plan(2) by auto
    have rw: "rewritten env budget eng (take k planned) w" using plan k w unfolding rewritten_def by auto
    have "length (ow_adds w) = length (take k planned)" using rewrite_groups_work [OF w] k(1) by (simp add: no_work_def)
    then have ne: "ow_adds w \<noteq> []" using k(2) plan(2) by (cases planned) (auto simp: min_def split: if_split_asm)
    obtain j where j: "txn_guard eng = Inr j" using assms False plan w ne by (auto simp: optimize_inner_def Let_def split: sum.split_asm)
    obtain r1 s1 index j' where sw: "so_replace_blocks (en_ops env) (be_store eng) (ow_adds w) (ow_removes w)
        (swap_index (map eb_meta (ow_adds w)) (ow_parts w) (ow_removes w)) (be_index eng, j) = (r1, s1, index, j')" by (metis prod_cases4)
    then obtain locs where locs: "r1 = Inr locs" using assms False plan w ne j by (auto simp: optimize_inner_def Let_def split: sum.split_asm)
    show thesis by (rule work [OF rw j sw [unfolded locs]]) (use assms False plan w ne j sw locs in \<open>simp add: optimize_inner_def Let_def\<close>)
  qed
qed

text \<open>The sources of a rewrite: all of them from the index, a raw one if there is any, all raw ones without a budget.\<close>

lemma rewritten_sources:
  assumes "rewritten env budget eng gs w"
  shows "ow_removes w = map ie_loc (sources_of gs)" "length (ow_adds w) = length gs" "length (ow_parts w) = length gs"
    "mset (sources_of gs) \<subseteq># mset (be_index eng)" "length gs \<le> length (sources_of gs)"
    "\<exists>e \<in> set (be_index eng). is_raw e \<Longrightarrow> \<exists>e \<in> set (sources_of gs). is_raw e"
    "budget = None \<Longrightarrow> e \<in> set (be_index eng) \<Longrightarrow> is_raw e \<Longrightarrow> e \<in> set (sources_of gs)"
    "\<forall>b \<in> set (ow_adds w). \<not> is_raw_codec (bm_codec (eb_meta b))"
proof -
  let ?cfg = "en_config env" let ?cands = "optimize_candidates ?cfg (be_index eng)"
  obtain planned k where plan: "plan_optimize ?cfg (be_index eng) ?cands = Inr planned" "planned \<noteq> []" "gs = take k planned" "0 < k"
      "budget = None \<longrightarrow> length planned \<le> k" and w: "rewrite_groups env (be_store eng) gs no_work = Inr w" using assms by (auto simp: rewritten_def)
  note cov = plan_optimize_cover [OF plan(1)] and work = rewrite_groups_work [OF w]
  show "ow_removes w = map ie_loc (sources_of gs)" "length (ow_adds w) = length gs" "length (ow_parts w) = length gs" using work by (simp_all add: no_work_def)
  show "\<forall>b \<in> set (ow_adds w). \<not> is_raw_codec (bm_codec (eb_meta b))" using rewrite_groups_codec [OF w] by (simp add: no_work_def)
  have "mset (sources_of gs) \<subseteq># mset (sources_of gs) + mset (sources_of (drop k planned))" by simp
  also have "\<dots> = mset (sources_of planned)" unfolding plan(3) by (metis append_take_drop_id mset_append sources_of_simps(3))
  also have "\<dots> \<subseteq># mset ?cands" by (rule cov(2))
  also have "\<dots> \<subseteq># mset (be_index eng)" by (simp add: optimize_candidates_def)
  finally show "mset (sources_of gs) \<subseteq># mset (be_index eng)" .
  have "list_all group_ok gs" using cov(3) set_take_subset [of k planned] unfolding plan(3) by (auto simp: list_all_iff)
  then show "length gs \<le> length (sources_of gs)" by (rule length_sources)
  have raw: "set (sources_of (raw_part planned)) = {e \<in> set (be_index eng). is_raw e}"
    using mset_eq_setD [OF cov(1)] raw_candidates [of ?cfg "be_index eng"] by (metis set_filter)
  show "\<exists>e \<in> set (sources_of gs). is_raw e" if "\<exists>e \<in> set (be_index eng). is_raw e"
  proof -
    have "\<exists>e \<in> set ?cands. is_raw e" using that by (auto simp: optimize_candidates_def)
    from plan_raw_first [OF plan(1) this] obtain g gs' where g: "planned = g # gs'" "og_kind g = RawCompression" by blast
    then have "g \<in> set gs" using plan(3,4) by (cases k) auto
    moreover have "set (og_sources g) \<subseteq> {e \<in> set (be_index eng). is_raw e}" unfolding raw [symmetric] using g by (simp add: raw_part_def)
    moreover have "og_sources g \<noteq> []" using cov(3) g(1) by (simp add: group_ok_def)
    ultimately show ?thesis by (fastforce simp: sources_of_def dest: hd_in_set)
  qed
  show "e \<in> set (sources_of gs)" if "budget = None" "e \<in> set (be_index eng)" "is_raw e"
  proof -
    have "e \<in> set (sources_of (raw_part planned))" using that raw by blast
    moreover have "gs = planned" using plan(3,5) that(1) by simp
    ultimately show ?thesis by (auto simp: sources_of_def raw_part_def)
  qed
qed

lemma rewritten_kept:
  assumes "rewritten env budget eng gs w"
  shows "length (filter (\<lambda>e. ie_loc e \<notin> set (ow_removes w)) (be_index eng)) + length gs \<le> length (be_index eng)"
proof -
  let ?P = "\<lambda>e. ie_loc e \<in> set (ow_removes w)"
  note src = rewritten_sources [OF assms]
  have "filter_mset ?P (mset (sources_of gs)) = mset (sources_of gs)" unfolding src(1) by (simp add: filter_mset_eq_conv)
  then have "mset (sources_of gs) \<subseteq># mset (filter ?P (be_index eng))" using multiset_filter_mono [OF src(4), of ?P] by simp
  then have "length (sources_of gs) \<le> length (filter ?P (be_index eng))" by (metis size_mset size_mset_mono)
  then show ?thesis using src(5) sum_length_filter_compl [of ?P "be_index eng"] by simp
qed

lemma filter_filter_le: "length (filter P (filter Q xs)) \<le> length (filter P xs)"
  by (induction xs) auto

lemma prune_raw:
  assumes "prune env cutoff eng = (r, eng')"
  shows "raw_blocks eng' \<le> raw_blocks eng \<and> length (be_index eng') \<le> length (be_index eng)"
proof -
  have "be_index eng' = be_index eng \<or> be_index eng' = filter (\<lambda>e. bm_ts_max (ie_meta e) \<ge> cutoff) (be_index eng)"
    using assms by (auto simp: prune_def Let_def split: sum.split_asm if_split_asm prod.split_asm)
  then show ?thesis by (auto simp: raw_blocks_def filter_filter_le simp del: filter_filter)
qed

lemma retention_raw:
  assumes "apply_retention env eng = (r, eng')"
  shows "raw_blocks eng' \<le> raw_blocks eng \<and> length (be_index eng') \<le> length (be_index eng)"
proof -
  consider "eng' = eng" | c r1 e1 where "prune env c eng = (r1, e1)" "be_index eng' = be_index e1"
    using assms by (auto simp: apply_retention_def Let_def act_bind_def split: if_split_asm option.split_asm prod.split_asm sum.split_asm)
  then show ?thesis using prune_raw by cases (fastforce simp: raw_blocks_def)+
qed

lemma persist_index:
  "persist_compression_totals env a b c d eng = (r, eng') \<Longrightarrow> be_index eng' = be_index eng \<and> be_buffer eng' = be_buffer eng"
  by (auto simp: persist_compression_totals_def save_meta_def split: if_split_asm sum.split_asm prod.split_asm)

lemma fewer_raw:
  assumes "e \<in> set xs" "P e" "\<not> Q e"
  shows "length (filter P (filter Q xs)) < length (filter P xs)"
  using assms
proof (induction xs)
  case (Cons x xs)
  then show ?case using filter_filter_le [of P Q xs] by (auto simp del: filter_filter)
qed simp

context id_store
begin

lemma optimize_inner_raw:
  assumes "backed good room ids (length (be_index eng) + n) eng" "optimize_inner env budget eng = (Inr out, eng')"
  shows "length (be_index eng') \<le> length (be_index eng) \<and> (raw_blocks eng' < raw_blocks eng \<or> raw_blocks eng' = 0) \<and>
    (budget = None \<longrightarrow> raw_blocks eng' = 0)"
  using assms(2)
proof (cases rule: optimize_innerE)
  case idle
  then show ?thesis by (simp add: raw_blocks_def)
next
  case (work gs w j locs s1 st)
  note src = rewritten_sources [OF work(1)]
  let ?kept = "filter (\<lambda>e. ie_loc e \<notin> set (ow_removes w)) (be_index eng)" and ?new = "index_entries (map eb_meta (ow_adds w)) locs (ow_parts w)"
  have "length (ow_adds w) \<le> length (be_index eng)" using rewritten_kept [OF work(1)] src(2) by simp
  then have gr: "good (be_store eng)" "room (be_store eng) (length (ow_adds w) + n)"
    using assms(1) room_mono [of _ _ "length (ow_adds w) + n"] by (auto simp: backed_def)
  have law: "good s1" "room s1 n" "st = swap_index (map eb_meta (ow_adds w)) (ow_parts w) (ow_removes w) locs (be_index eng, j)" "length locs = length (ow_adds w)"
    using replace_law [OF gr, of "ow_removes w"] work(3) by (cases st; fastforce)+
  have "be_index eng' = fst st" using work(4) by (auto elim!: act_bindE dest!: persist_index)
  then have idx: "be_index eng' = ?kept @ ?new" by (simp add: law(3) swap_index_def Let_def)
  have new: "length ?new = length gs" using law(4) src(2,3) by (simp add: index_entries_def)
  have "\<not> is_raw e" if "e \<in> set ?new" for e using index_entries_metas [of "map eb_meta (ow_adds w)" locs "ow_parts w"] src(8) that by fastforce
  then have raw: "raw_blocks eng' = length (filter is_raw ?kept)" unfolding raw_blocks_def idx by (simp add: filter_empty_conv)
  have "raw_blocks eng' < raw_blocks eng \<or> raw_blocks eng' = 0"
  proof (cases "\<exists>e \<in> set (be_index eng). is_raw e")
    case True
    then obtain e where e: "e \<in> set (sources_of gs)" "is_raw e" using src(6) by blast
    then have "e \<in> set (be_index eng)" "ie_loc e \<in> set (ow_removes w)" using set_mset_mono [OF src(4)] src(1) by auto
    then show ?thesis using fewer_raw [of e "be_index eng" is_raw "\<lambda>e. ie_loc e \<notin> set (ow_removes w)"] e(2) unfolding raw raw_blocks_def [of eng] by blast
  next
    case False
    then show ?thesis unfolding raw by (auto simp: filter_empty_conv)
  qed
  moreover have "raw_blocks eng' = 0" if "budget = None" unfolding raw using src(1) src(7) [OF that] by (auto simp: filter_empty_conv)
  ultimately show ?thesis using rewritten_kept [OF work(1)] new unfolding idx by simp
qed

lemma optimize_raw:
  assumes "backed good room ids (length (be_index eng) + n) eng" "optimize_with_budget env budget eng = (Inr out, eng')"
  shows "length (be_index eng') \<le> length (be_index eng) \<and> (raw_blocks eng' < raw_blocks eng \<or> raw_blocks eng' = 0) \<and>
    (budget = None \<longrightarrow> raw_blocks eng' = 0)"
proof -
  obtain u eng1 eng2 r3 where o: "maybe_purge_unopted_trigrams env eng = (Inr u, eng1)" "optimize_inner env budget eng1 = (Inr out, eng2)"
      "apply_retention env eng2 = (r3, eng')"
    using assms(2) unfolding optimize_with_budget_def by (auto elim!: act_bindE)
  note p = purge_ok [OF assms(1) o(1)]
  then have i: "be_index eng1 = be_index eng" by simp
  have "backed good room ids (length (be_index eng1) + n) eng1" using p i by simp
  from optimize_inner_raw [OF this o(2)] retention_raw [OF o(3)] show ?thesis unfolding raw_blocks_def i by linarith
qed

end

subsection \<open>Calls that succeed\<close>

text \<open>Every group of the plan can be read and encoded.\<close>

definition rewritable :: "'s engine_env \<Rightarrow> 's block_engine \<Rightarrow> bool" where
  "rewritable env eng \<longleftrightarrow>
     (case plan_optimize (en_config env) (be_index eng) (optimize_candidates (en_config env) (be_index eng)) of
        Inl _ \<Rightarrow> False
      | Inr planned \<Rightarrow> list_all (\<lambda>g. \<not> isl (and_then (read_sources env (be_store eng) (og_sources g)) (\<lambda>(entries, _).
          encode_merged env (sort_key le_ts entries)))) planned)"

lemma read_sources_cong:
  "so_read_block (en_ops env) s' = so_read_block (en_ops env) s \<Longrightarrow> read_sources env s' es = read_sources env s es"
  by (induction es) simp_all

lemma rewritable_cong:
  assumes "so_read_block (en_ops env) (be_store eng') = so_read_block (en_ops env) (be_store eng)" "be_index eng' = be_index eng"
  shows "rewritable env eng' = rewritable env eng"
  unfolding rewritable_def assms(2) read_sources_cong [OF assms(1)] by (rule refl)

lemma rewrite_group_succeeds:
  assumes "\<not> isl (and_then (read_sources env s (og_sources g)) (\<lambda>(entries, _). encode_merged env (sort_key le_ts entries)))"
  shows "\<exists>w'. rewrite_group env s g w = Inr w'"
proof -
  obtain entries n where r: "read_sources env s (og_sources g) = Inr (entries, n)" using assms by (cases "read_sources env s (og_sources g)") auto
  then obtain b where "encode_merged env (sort_key le_ts entries) = Inr b" using assms by (cases "encode_merged env (sort_key le_ts entries)") auto
  then show ?thesis using r by (simp add: rewrite_group_def Let_def)
qed

lemma rewrite_groups_succeed:
  "list_all (\<lambda>g. \<not> isl (and_then (read_sources env s (og_sources g)) (\<lambda>(entries, _). encode_merged env (sort_key le_ts entries)))) gs \<Longrightarrow>
     \<exists>w'. rewrite_groups env s gs w = Inr w'"
proof (induction gs arbitrary: w)
  case (Cons g gs)
  then show ?case using rewrite_group_succeeds [of env s g w] by fastforce
qed simp

text \<open>A store that does not fail while it has room.\<close>

locale live_store = id_store +
  assumes replace_live: "good s \<Longrightarrow> room s (length bs) \<Longrightarrow> \<exists>locs s' st'. so_replace_blocks (en_ops env) s bs rem cb st = (Inr locs, s', st')"
    and meta_live: "\<exists>s'. so_save_meta (en_ops env) s k v = (Inr (), s')"
    and load_live: "\<exists>v. so_load_meta (en_ops env) s k = Inr v"
    and purge_live: "\<exists>n s'. so_purge_term_prefix (en_ops env) s pre = (Inr n, s') \<and> so_read_block (en_ops env) s' = so_read_block (en_ops env) s"
begin

lemma persist_live: "\<exists>eng'. persist_compression_totals env a b c d eng = (Inr (), eng')"
proof -
  obtain v where "so_load_meta (en_ops env) (be_store eng) (str_lit ''compression_totals'') = Inr v" using load_live by blast
  then obtain x y where l: "load_compression_totals env (be_store eng) = Inr (x, y)" by (cases v) (auto simp: load_compression_totals_def Let_def)
  have "\<exists>eng'. save_meta env k w eng = (Inr (), eng')" for k w using meta_live [of "be_store eng" k w] by (auto simp: save_meta_def)
  then show ?thesis using l by (simp add: persist_compression_totals_def)
qed

lemma prune_live:
  assumes "backed good room ids n eng" "\<not> be_txn_active eng"
  shows "\<exists>k eng'. prune env cutoff eng = (Inr k, eng')"
proof -
  let ?victims = "map ie_loc (filter (\<lambda>e. bm_ts_max (ie_meta e) < cutoff) (be_index eng))"
  obtain es s' where d: "so_delete_blocks (en_ops env) (be_store eng) ?victims = (es, s')" by fastforce
  have "bl_id ` set ?victims \<subseteq> ids (be_store eng)" using assms(1) by (auto simp: backed_def ie_id_def)
  then have "es = []" using delete_law [OF _ _ d, of n] assms(1) by (simp add: backed_def)
  then show ?thesis using assms(2) d by (simp add: prune_def txn_guard_def capture_def set_frame_def Let_def)
qed

lemma retention_live:
  assumes "backed good room ids n eng" "\<not> be_txn_active eng"
  shows "\<exists>k eng'. apply_retention env eng = (Inr k, eng')"
proof -
  have p: "\<exists>k eng'. act_bind (prune env c) (\<lambda>p eng. (Inr p, eng\<lparr>be_retention_floor := c\<rparr>)) eng = (Inr k, eng')" for c
  proof -
    obtain k eng1 where "prune env c eng = (Inr k, eng1)" using prune_live [OF assms, of c] by blast
    then show ?thesis by (simp add: act_bind_def)
  qed
  show ?thesis unfolding apply_retention_def Let_def by (cases "snd (ts_range eng)") (simp_all add: p)
qed

lemma optimize_inner_live:
  assumes "backed good room ids (length (be_index eng) + n) eng" "\<not> be_txn_active eng" "rewritable env eng"
  shows "\<exists>out eng'. optimize_inner env budget eng = (Inr out, eng')"
proof -
  let ?cands = "optimize_candidates (en_config env) (be_index eng)"
  obtain planned where plan: "plan_optimize (en_config env) (be_index eng) ?cands = Inr planned"
      and gs: "list_all (\<lambda>g. \<not> isl (and_then (read_sources env (be_store eng) (og_sources g)) (\<lambda>(entries, _). encode_merged env (sort_key le_ts entries)))) planned"
    using assms(3) by (auto simp: rewritable_def split: sum.split_asm)
  obtain k where k: "fst (select_groups budget [] 0 planned) = take k planned" using select_groups_prefix [of budget "[]" 0 planned] by auto
  have "list_all (\<lambda>g. \<not> isl (and_then (read_sources env (be_store eng) (og_sources g)) (\<lambda>(entries, _). encode_merged env (sort_key le_ts entries)))) (take k planned)"
    using gs set_take_subset [of k planned] by (auto simp: list_all_iff)
  from rewrite_groups_succeed [OF this] obtain w where w: "rewrite_groups env (be_store eng) (fst (select_groups budget [] 0 planned)) no_work = Inr w"
    unfolding k by blast
  have "good (be_store eng)" "room (be_store eng) (length (ow_adds w))"
    using assms(1) room_mono [of _ _ "length (ow_adds w)"] optimize_work_ok(1) [OF plan w] by (auto simp: backed_def)
  from replace_live [OF this, of "ow_removes w" "swap_index (map eb_meta (ow_adds w)) (ow_parts w) (ow_removes w)" "(be_index eng, None)"]
  obtain locs s1 index j' where sw: "so_replace_blocks (en_ops env) (be_store eng) (ow_adds w) (ow_removes w)
      (swap_index (map eb_meta (ow_adds w)) (ow_parts w) (ow_removes w)) (be_index eng, None) = (Inr locs, s1, index, j')" by auto
  obtain eng2 where p: "persist_compression_totals env (ow_raw_in w) (ow_raw_out w) (ow_merge_in w) (ow_merge_out w)
      ((set_frame j' eng)\<lparr>be_store := s1, be_index := index\<rparr>) = (Inr (), eng2)" using persist_live by blast
  show ?thesis unfolding optimize_inner_def Let_def using plan w sw assms(2) by (simp add: txn_guard_def act_bind_def p)
qed

lemma optimize_live:
  assumes "backed good room ids (length (be_index eng)) eng" "\<not> be_txn_active eng" "rewritable env eng"
  shows "\<exists>out eng'. optimize_with_budget env budget eng = (Inr out, eng')"
proof -
  obtain k s' where pl: "so_purge_term_prefix (en_ops env) (be_store eng) (str_lit ''tg:'') = (Inr k, s')"
      "so_read_block (en_ops env) s' = so_read_block (en_ops env) (be_store eng)" using purge_live by blast
  obtain eng1 where p: "maybe_purge_unopted_trigrams env eng = (Inr (), eng1)"
      "so_read_block (en_ops env) (be_store eng1) = so_read_block (en_ops env) (be_store eng)"
    using pl by (cases "bc_message_trigrams (en_config env) \<or> be_trigram_purge_checked eng")
      (auto simp: maybe_purge_unopted_trigrams_def purge_trigram_postings_def act_bind_def)
  note q = purge_ok [OF assms(1) p(1)]
  then have m: "be_index eng1 = be_index eng" "be_txn_active eng1 = be_txn_active eng" by simp_all
  have b1: "backed good room ids (length (be_index eng1) + 0) eng1" using q m(1) by simp
  have "rewritable env eng1" using assms(3) rewritable_cong [OF p(2) m(1)] by simp
  then obtain out eng2 where o: "optimize_inner env budget eng1 = (Inr out, eng2)"
    using optimize_inner_live [OF b1, of budget] m(2) assms(2) by auto
  note b2 = optimize_inner_ok [OF b1 o]
  have "\<not> be_txn_active eng2" using b2 m(2) assms(2) by (simp add: mem_journaled.simps)
  then obtain n3 eng3 where r: "apply_retention env eng2 = (Inr n3, eng3)" using retention_live [of 0 eng2] b2 by blast
  show ?thesis by (simp add: optimize_with_budget_def act_bind_def p(1) o r)
qed

end

interpretation mem_live: live_store "mem_env lib js lower cfg" mem_wf has_room block_ids for lib js lower cfg
proof (unfold_locales, goal_cases)
  case (1 s bs rem cb st)
  then show ?case by (cases "insert_all s bs") (simp add: mem_ops_def mem_replace_blocks_def Let_def)
next
  case (4 s pre)
  then show ?case by (simp add: mem_ops_def mem_purge_term_prefix_def mem_read_block_def fun_eq_iff Let_def)
qed (simp_all add: mem_ops_def)

end
