(* ===== verification/EngineClaims.thy ===== *)
theory EngineClaims
  imports EngineDrain StoreClaims CodecFacts
begin

section \<open>What the block engine promises\<close>

text \<open>
  The properties of the engine over the in-memory store, from the moment it is opened: its index names readable blocks
  only, a rollback gives back what it had, and compaction rewrites the raw blocks.
\<close>

subsection \<open>Runs of operations\<close>

inductive op_step :: "'s engine_env \<Rightarrow> ('s \<Rightarrow> nat \<Rightarrow> bool) \<Rightarrow> 's block_engine \<Rightarrow> 's block_engine \<Rightarrow> bool" for env room where
  step: "room (be_store eng) (op_room op eng) \<Longrightarrow> op_step env room eng (run_op env op eng)"

inductive_cases op_stepE: "op_step env room eng eng'"

context id_store
begin

lemma op_steps_ok:
  assumes "(op_step env room)\<^sup>*\<^sup>* eng0 eng" "backed good room ids 0 eng0"
  shows "backed good room ids 0 eng \<and> be_txn_active eng = be_txn_active eng0"
  using assms
proof (induction rule: rtranclp_induct)
  case (step eng1 eng2)
  then obtain op where op: "eng2 = run_op env op eng1" "room (be_store eng1) (op_room op eng1)" by (auto elim: op_stepE)
  then have "backed good room ids (op_room op eng1 + 0) eng1" using step by (simp add: backed_def)
  from run_op_ok [OF this] show ?case using step op(1) by (simp add: mem_journaled.simps)
qed simp

end

text \<open>An engine of the in-memory store after its opening and any operations, each with ids left for its blocks.\<close>

definition engine_reachable :: "mem_inner engine_env \<Rightarrow> mem_inner block_engine \<Rightarrow> bool" where
  "engine_reachable env eng \<longleftrightarrow>
     (\<exists>s eng0. store_reachable s \<and> engine_new env s = Inr eng0 \<and> (op_step env has_room)\<^sup>*\<^sup>* eng0 eng)"

lemma opened_ok:
  assumes "mem_wf s" "engine_new (mem_env lib js lower cfg) s = Inr eng"
  shows "backed mem_wf has_room block_ids 0 eng \<and> \<not> be_txn_active eng"
proof -
  have e: "be_store eng = s" "map ie_id (be_index eng) = map (\<lambda>(_, loc). bl_id loc) (mem_scan s)" "\<not> be_txn_active eng"
    using assms(2) by (auto simp: engine_new_def mem_ops_def ie_id_def comp_def split_beta)
  have m: "mset (map (\<lambda>(_, loc). bl_id loc) (mem_scan s)) = mset (map fst (mi_blocks s))"
    by (simp add: mem_scan_def image_mset.compositionality comp_def split_beta)
  have "distinct (map fst (mi_blocks s))" using assms(1) bt_wf_distinct by (auto simp: mem_wf_def)
  then have "distinct (map ie_id (be_index eng))" unfolding e(2) mset_eq_imp_distinct_iff [OF m] .
  moreover have "ie_id ` set (be_index eng) = block_ids s"
    using mset_eq_setD [OF m] e(2) unfolding block_ids_def list.set_map [symmetric] by (simp only:)
  moreover have "has_room s 0" using sint_lt [of "i64_bits (mi_next_id s)"] by (simp add: has_room_def i64_int_def)
  ultimately show ?thesis using assms(1) e(1,3) by (simp add: backed_def)
qed

lemma reachable_engine_ok:
  assumes "engine_reachable (mem_env lib js lower cfg) eng"
  shows "backed mem_wf has_room block_ids 0 eng" "\<not> be_txn_active eng"
proof -
  obtain s eng0 where e: "store_reachable s" "engine_new (mem_env lib js lower cfg) s = Inr eng0" "(op_step (mem_env lib js lower cfg) has_room)\<^sup>*\<^sup>* eng0 eng"
    using assms by (auto simp: engine_reachable_def)
  have "mem_wf s" using reachable_ok [OF e(1)] by (simp add: store_ok_def)
  note o = opened_ok [OF this e(2)]
  from mem_engine.op_steps_ok [OF e(3)] o show "backed mem_wf has_room block_ids 0 eng" "\<not> be_txn_active eng" by blast+
qed

subsection \<open>An example\<close>

text \<open>A store with one raw block of the example entry, opened.\<close>

abbreviation example_env :: "mem_inner engine_env" where
  "example_env \<equiv> mem_env stored_lib stored_json id default_config"

definition example_index :: "block_meta \<Rightarrow> index_entry" where
  "example_index meta = \<lparr>ie_meta = meta, ie_loc = \<lparr>bl_id = I64 1\<rparr>, ie_partition = None\<rparr>"

definition example_store :: "block_meta \<Rightarrow> bytes \<Rightarrow> mem_inner" where
  "example_store meta b = snd (insert_all mem_new [\<lparr>eb_meta = meta, eb_data = b, eb_terms = []\<rparr>])"

definition example_engine :: "block_meta \<Rightarrow> bytes \<Rightarrow> mem_inner block_engine" where
  "example_engine meta b = \<lparr>be_store = example_store meta b, be_buffer = [], be_index = [example_index meta], be_txn_active = False, be_frames = [],
     be_retention_native = I64 0, be_retention_floor = I64_MIN, be_flushes_since_auto_optimize = 0, be_auto_optimize_interval = 30,
     be_trigram_purge_checked = False\<rparr>"

lemma example_store_parts [simp]:
  "mi_next_id (example_store meta b) = I64 1" "mi_blocks (example_store meta b) = [(I64 1, meta, b)]" "mi_terms (example_store meta b) = []"
  by (simp_all add: example_store_def insert_one_def mem_new_def i64_wrapping_add_def Let_def)

lemma example_store_reachable: "store_reachable (example_store meta b)"
proof (rule store_reachable.step [OF store_reachable.start])
  show "mem_step mem_new (OpPutAll [\<lparr>eb_meta = meta, eb_data = b, eb_terms = []\<rparr>]) (example_store meta b)"
    by (rule mem_step.put_all, simp add: has_room_def mem_new_def i64_int_def) (simp only: insert_all_put example_store_def)
qed

lemma example_opened: "engine_new example_env (example_store meta b) = Inr (example_engine meta b)"
proof -
  have "mem_query_terms (example_store meta b) [t] lo hi = []" for t lo hi
    by (simp add: mem_query_terms_def intersect_terms_def posting_def)
  moreover have "mem_scan (example_store meta b) = [(meta, \<lparr>bl_id = I64 1\<rparr>)]" by (simp add: mem_scan_def)
  ultimately show ?thesis
    by (simp add: engine_new_def mem_ops_def level_term_def level_name_def LEVEL_NAMES_def index_r_def example_engine_def example_index_def default_config_def)
qed

lemma example_reachable: "engine_reachable example_env (example_engine meta b)"
  using example_store_reachable example_opened unfolding engine_reachable_def by blast

lemma example_merge: "\<exists>blk. encode_merged example_env [example_entry] = Inr blk"
proof -
  let ?m = "le_metadata example_entry"
  obtain c3 where c3: "encode_pairs_column stored_lib [?m] (md_rec ?m) 7 = Inr c3" "length c3 \<le> U32_MAX"
    using stored_encode_str_one [of "str_lit ''a''" 7]
    by (auto simp: encode_pairs_column_def key_column_def key_present_def key_dense_def canonical_pairs_iff
        bt_wf_def key_bytes_def btree_set_def str_lit_def machine_limits SHRED_MAX_KEYS_def to_bytes_def Let_def
        binary_search_def bsearch_loop.simps bitmap_len_def)
  have raw: "serialize_metadata [example_entry] = Inr (md_rec ?m)" using example_metadata [of 1] by simp
  obtain c2 where c2: "and_then (encode_str stored_lib [str_lit ''x42''] (length [str_lit ''x42'']) 7) to_bytes = Inr c2" "length c2 \<le> U32_MAX"
    using stored_str_column [of "[str_lit ''x42'']" 7] by (auto simp: machine_limits str_lit_def simp del: to_bytes_Inr)
  obtain c0 where c0: "and_then (encode_i64 stored_lib [I64 5] 7) to_bytes = Inr c0" "length c0 \<le> U32_MAX"
    using stored_i64_column [of "[I64 5]" 7] by (auto simp: machine_limits simp del: to_bytes_Inr)
  obtain c1 where c1: "and_then (encode_u8 stored_lib [1] 7) to_bytes = Inr c1" "length c1 \<le> U32_MAX"
    using stored_u8_column [of "[1]" 7] by (auto simp: machine_limits simp del: to_bytes_Inr)
  have "encode_messages stored_lib [str_lit ''x42''] CODEC_COLUMNAR_V2 7 = Inr (CODEC_COLUMNAR_V2, c2)"
    unfolding encode_messages_def c2(1) by (simp add: codec_ids)
  then have "encode_columns stored_lib [example_entry] CODEC_COLUMNAR_V2 7 (md_rec ?m) = Inr (CODEC_COLUMNAR_V2, [c0, c1, c2, c3])"
    using c0(1) c1(1) c3(1) by (auto simp: encode_columns_def typed_codec_def Let_def simp del: to_bytes_Inr)
  moreover have "\<exists>lens. collect_r column_len [c0, c1, c2, c3] = Inr lens" using c0(2) c1(2) c2(2) c3(2) by (simp add: column_len_def)
  ultimately have "\<exists>d meta. encode_block stored_lib stored_json [example_entry] CODEC_COLUMNAR_V2 7 = Inr (d, meta)"
    using raw by (auto simp: encode_block_def Let_def known_codec_def rich_codec_def codec_ids machine_limits)
  moreover have "\<exists>ts. extract_terms default_config [example_entry] = Inr ts"
    by (simp add: extract_terms_def extract_terms_with_def level_term_def level_name_def LEVEL_NAMES_def index_r_def Let_def)
  ultimately show ?thesis by (auto simp: encode_merged_def default_config_def)
qed

lemma example_rewritable:
  assumes "decode_block stored_lib stored_json b = Inr [example_entry]"
  shows "rewritable example_env (example_engine meta b)"
proof -
  let ?eng = "example_engine meta b" and ?e = "example_index meta"
  let ?cands = "optimize_candidates default_config [?e]"
  have idx: "be_index ?eng = [?e]" "be_store ?eng = example_store meta b" by (simp_all add: example_engine_def)
  have "bucket_index ?e = 4" by (simp add: bucket_index_def example_index_def)
  then have "\<not> list_ex (\<lambda>e. bucket_index e \<ge> 5) ?cands" by (auto simp: optimize_candidates_def list_ex_iff)
  then obtain planned where plan: "plan_optimize default_config [?e] ?cands = Inr planned" unfolding plan_optimize_def by (simp only: if_False)
  note cov = plan_optimize_cover [OF plan]
  have one: "M = {#} \<or> M = {#x#}" if "M \<subseteq># {#x#}" for M and x :: index_entry
    using that by (cases M) (auto simp: insert_subset_eq_iff)
  have "og_sources g = [?e]" if "g \<in> set planned" for g
  proof -
    have "mset (og_sources g) \<subseteq># mset (sources_of planned)" using that by (auto simp: sources_of_def dest!: split_list)
    also have "\<dots> \<subseteq># {#?e#}" using cov(2) by (rule subset_mset.trans) (simp add: optimize_candidates_def)
    finally have "mset (og_sources g) = {#} \<or> mset (og_sources g) = {#?e#}" by (rule one)
    moreover have "og_sources g \<noteq> []" using cov(3) that by (auto simp: list_all_iff group_ok_def)
    ultimately show ?thesis by auto
  qed
  moreover have "\<exists>n. read_sources example_env (example_store meta b) [?e] = Inr ([example_entry], n)"
    using assms by (simp add: mem_ops_def mem_read_block_def example_index_def)
  ultimately show ?thesis using plan example_merge idx by (auto simp: rewritable_def list_all_iff)
qed

subsection \<open>Properties\<close>

text \<open>
  C39. Whatever operations the engine has run since it was opened, on failure paths too, its index lists distinct blocks
  that the store can read. The store is the in-memory one, opened in any reachable state, and every operation starts
  with enough ids below 2^63 left for the blocks it may write.
\<close>

theorem engine_index_readable:
  assumes "engine_reachable (mem_env lib js lower cfg) eng"
  shows "distinct (map (\<lambda>e. bl_id (ie_loc e)) (be_index eng)) \<and>
    list_all (\<lambda>e. \<not> isl (mem_read_block (be_store eng) (ie_loc e))) (be_index eng)"
proof -
  have b: "distinct (map ie_id (be_index eng))" "ie_id ` set (be_index eng) \<subseteq> block_ids (be_store eng)"
    using reachable_engine_ok(1) [OF assms] by (simp_all add: backed_def)
  have "\<not> isl (mem_read_block (be_store eng) (ie_loc e))" if "e \<in> set (be_index eng)" for e
  proof -
    have "bl_id (ie_loc e) \<in> block_ids (be_store eng)" using b(2) that by (auto simp: ie_id_def)
    then have "bt_get (mi_blocks (be_store eng)) (bl_id (ie_loc e)) \<noteq> None" unfolding mem_present .
    then show ?thesis by (auto simp: mem_read_block_def)
  qed
  then show ?thesis using b(1) by (simp add: list_all_iff ie_id_def [abs_def])
qed

theorem engine_index_readable_witness:
  "\<exists>eng. engine_reachable example_env eng \<and> length (be_index eng) = 1 \<and>
     list_all (\<lambda>e. \<not> isl (mem_read_block (be_store eng) (ie_loc e))) (be_index eng)"
proof -
  obtain b meta where "encode_block stored_lib stored_json [example_entry] CODEC_RAW 7 = Inr (b, meta)" by (rule example_written)
  let ?eng = "example_engine meta b"
  have "length (be_index ?eng) = 1" by (simp add: example_engine_def)
  then show ?thesis using engine_index_readable [OF example_reachable [of meta b]] example_reachable [of meta b] by blast
qed

text \<open>
  C38. Rolling a transaction back gives the engine its buffer and its index back, whatever operations, savepoints,
  releases and rollbacks to savepoints ran in between and whether the operations succeeded or failed: the buffer entry
  by entry, the index up to the order of its entries. Rolling back to an open savepoint gives back those of the moment
  it was opened. The in-memory store stands for the rows of the host, which the host itself puts back on a rollback; the host
  does not reuse the id of an open savepoint, and every operation starts with ids left for its blocks.
\<close>

theorem rollback_restores:
  assumes "engine_reachable (mem_env lib js lower cfg) eng0"
    and "(txn_step (mem_env lib js lower cfg) has_room)\<^sup>*\<^sup>* (txn_begin eng0, [(None, eng0)]) (eng, ms)"
  shows "be_buffer (txn_rollback eng) = be_buffer eng0 \<and> mset (be_index (txn_rollback eng)) = mset (be_index eng0) \<and>
    \<not> be_txn_active (txn_rollback eng) \<and>
    (\<forall>sp moment. (Some sp, moment) \<in> set ms \<longrightarrow> be_buffer (txn_rollback_to sp eng) = be_buffer moment \<and>
       mset (be_index (txn_rollback_to sp eng)) = mset (be_index moment))"
  using mem_engine.rollback_ok [OF reachable_engine_ok(1) [OF assms(1)] assms(2)] by blast

lemma example_push: "run_op example_env (OpPush example_entry) (txn_begin (example_engine meta b)) =
    (txn_begin (example_engine meta b))\<lparr>be_buffer := [example_entry]\<rparr>"
proof -
  have "normalize_entry example_entry = Inr example_entry"
    by (simp add: normalize_entry_def normalize_rich_entry_def normalize_metadata_def example_entry_def)
  then show ?thesis by (simp add: push_def push_entries_def txn_begin_def example_engine_def default_config_def)
qed

theorem rollback_restores_witness:
  "\<exists>eng0 eng ms. engine_reachable example_env eng0 \<and> (txn_step example_env has_room)\<^sup>*\<^sup>* (txn_begin eng0, [(None, eng0)]) (eng, ms) \<and>
     be_buffer eng = [example_entry] \<and> be_buffer (txn_rollback eng) = [] \<and> length (be_index (txn_rollback eng)) = 1"
proof -
  obtain b meta where "encode_block stored_lib stored_json [example_entry] CODEC_RAW 7 = Inr (b, meta)" by (rule example_written)
  let ?old = "example_engine meta b" and ?eng = "(txn_begin (example_engine meta b))\<lparr>be_buffer := [example_entry]\<rparr>"
  have "has_room (be_store (txn_begin ?old)) (op_room (OpPush example_entry) (txn_begin ?old))"
    by (simp add: has_room_def op_room_def txn_begin_def example_engine_def i64_int_def)
  from txn_step.Operation [where env = example_env and room = has_room, OF this, of "[(None, ?old)]"]
  have run: "(txn_step example_env has_room)\<^sup>*\<^sup>* (txn_begin ?old, [(None, ?old)]) (?eng, [(None, ?old)])"
    unfolding example_push by (rule r_into_rtranclp)
  have "be_buffer ?old = []" "length (be_index ?old) = 1" by (simp_all add: example_engine_def)
  then have "be_buffer (txn_rollback ?eng) = []" "length (be_index (txn_rollback ?eng)) = 1"
    using rollback_restores [OF example_reachable run] by (metis size_mset)+
  moreover have "be_buffer ?eng = [example_entry]" by simp
  ultimately show ?thesis using example_reachable run by blast
qed

text \<open>
  C40. Compaction makes progress. Outside a transaction, when every group of the plan can be read and encoded again and
  there are ids left for the new blocks, \<open>optimize\<close> succeeds and leaves no raw block, and a call with a positive budget
  succeeds and leaves fewer raw blocks than there were, or none.
\<close>

theorem compaction_progresses:
  assumes "engine_reachable (mem_env lib js lower cfg) eng" "has_room (be_store eng) (length (be_index eng))"
    and "rewritable (mem_env lib js lower cfg) eng" "0 < budget"
  shows "(\<exists>out eng'. optimize (mem_env lib js lower cfg) eng = (Inr out, eng') \<and> raw_blocks eng' = 0) \<and>
    (\<exists>out eng'. optimize_budgeted (mem_env lib js lower cfg) budget eng = (Inr out, eng') \<and>
       (raw_blocks eng' < raw_blocks eng \<or> raw_blocks eng' = 0))"
proof -
  note ok = reachable_engine_ok [OF assms(1)]
  have b: "backed mem_wf has_room block_ids (length (be_index eng)) eng" using ok(1) assms(2) by (simp add: backed_def)
  have live: "\<exists>out eng'. optimize_with_budget (mem_env lib js lower cfg) bud eng = (Inr out, eng')" for bud
    by (rule mem_live.optimize_live [OF b ok(2) assms(3)])
  have raw: "(raw_blocks eng' < raw_blocks eng \<or> raw_blocks eng' = 0) \<and> (bud = None \<longrightarrow> raw_blocks eng' = 0)"
    if "optimize_with_budget (mem_env lib js lower cfg) bud eng = (Inr out, eng')" for bud out eng'
    using mem_engine.optimize_raw [of eng 0, OF _ that] b by simp
  show ?thesis
  proof
    show "\<exists>out eng'. optimize (mem_env lib js lower cfg) eng = (Inr out, eng') \<and> raw_blocks eng' = 0"
      using live [of None] raw [of None] unfolding optimize_def by blast
    have "optimize_budgeted (mem_env lib js lower cfg) budget eng = optimize_with_budget (mem_env lib js lower cfg) (Some budget) eng"
      using assms(4) by (simp add: optimize_budgeted_def)
    then show "\<exists>out eng'. optimize_budgeted (mem_env lib js lower cfg) budget eng = (Inr out, eng') \<and>
       (raw_blocks eng' < raw_blocks eng \<or> raw_blocks eng' = 0)"
      using live [of "Some budget"] raw [of "Some budget"] by metis
  qed
qed

theorem compaction_progresses_witness:
  "\<exists>eng. engine_reachable example_env eng \<and> raw_blocks eng = 1 \<and>
     (\<exists>out eng'. optimize example_env eng = (Inr out, eng') \<and> raw_blocks eng' = 0)"
proof -
  obtain b meta where b: "encode_block stored_lib stored_json [example_entry] CODEC_RAW 7 = Inr (b, meta)"
    "decode_block stored_lib stored_json b = Inr [example_entry]" by (rule example_written)
  let ?eng = "example_engine meta b"
  have "bm_codec meta = CODEC_RAW" using b(1) by (rule encode_blockE) (auto simp: encode_columns_def typed_codec_def codec_ids Let_def is_raw_codec_def split: if_split_asm)
  then have "raw_blocks ?eng = 1" by (simp add: raw_blocks_def example_engine_def example_index_def is_raw_codec_def)
  moreover have "has_room (be_store ?eng) (length (be_index ?eng))" by (simp add: has_room_def example_engine_def i64_int_def)
  ultimately show ?thesis using compaction_progresses [OF example_reachable _ example_rewritable [OF b(2)], where budget = 1] example_reachable by fastforce
qed

end
