(* ===== verification/Float64.thy ===== *)
theory Float64
  imports Text
begin

section \<open>Floating point on bit patterns\<close>

text \<open>
  The operations of \<open>f64\<close> the sources use, on IEEE 754 binary64 bit patterns: classification, comparison,
  \<open>min\<close>, \<open>max\<close>, addition and \<open>str::parse\<close>, rounded to nearest, ties to even.
\<close>

definition f64_magnitude :: "f64 \<Rightarrow> nat" where
  "f64_magnitude x = unat x mod 2 ^ 63"

definition f64_negative :: "f64 \<Rightarrow> bool" where
  "f64_negative x \<longleftrightarrow> 2 ^ 63 \<le> unat x"

definition F64_INF :: nat where "F64_INF = 0x7FF0000000000000"

definition f64_is_nan :: "f64 \<Rightarrow> bool" where
  "f64_is_nan x \<longleftrightarrow> F64_INF < f64_magnitude x"

definition f64_is_infinite :: "f64 \<Rightarrow> bool" where
  "f64_is_infinite x \<longleftrightarrow> f64_magnitude x = F64_INF"

definition f64_pack :: "bool \<Rightarrow> nat \<Rightarrow> f64" where
  "f64_pack neg m = of_nat ((if neg then 2 ^ 63 else 0) + m)"

text \<open>Patterns that are not NaN compare as their signed magnitudes; the two zeros are equal.\<close>

definition f64_key :: "f64 \<Rightarrow> int" where
  "f64_key x = (if f64_negative x then - int (f64_magnitude x) else int (f64_magnitude x))"

definition f64_lt :: "f64 \<Rightarrow> f64 \<Rightarrow> bool" where
  "f64_lt x y \<longleftrightarrow> \<not> f64_is_nan x \<and> \<not> f64_is_nan y \<and> f64_key x < f64_key y"

definition f64_min :: "f64 \<Rightarrow> f64 \<Rightarrow> f64" where
  "f64_min x y = (if f64_is_nan x then y else if f64_lt y x then y else x)"

definition f64_max :: "f64 \<Rightarrow> f64 \<Rightarrow> f64" where
  "f64_max x y = (if f64_is_nan x then y else if f64_lt x y then y else x)"

subsection \<open>Rounding\<close>

fun nat_log2 :: "nat \<Rightarrow> nat" where
  "nat_log2 n = (if n \<le> 1 then 0 else Suc (nat_log2 (n div 2)))"

declare nat_log2.simps [simp del]

definition div_nearest_even :: "nat \<Rightarrow> nat \<Rightarrow> nat" where
  "div_nearest_even a b =
     (let q = a div b; r = a mod b in if b < 2 * r \<or> (2 * r = b \<and> odd q) then Suc q else q)"

text \<open>The exponent \<open>k\<close> with \<open>2 ^ k \<le> p / q < 2 ^ (k + 1)\<close>.\<close>

definition ratio_log2 :: "nat \<Rightarrow> nat \<Rightarrow> int" where
  "ratio_log2 p q =
     (let k = int (nat_log2 p) - int (nat_log2 q)
      in if q * 2 ^ nat k \<le> p * 2 ^ nat (- k) then k else k - 1)"

text \<open>
  The magnitude of the pattern nearest to \<open>p / q\<close>: the significand is rounded at the weight of its last bit,
  and a carry out of it runs into the exponent, up to the pattern of infinity.
\<close>

definition f64_round_ratio :: "nat \<Rightarrow> nat \<Rightarrow> nat" where
  "f64_round_ratio p q =
     (if p = 0 then 0
      else let k = max (ratio_log2 p q) (- 1022); ulp = k - 52;
               m = div_nearest_even (p * 2 ^ nat (- ulp)) (q * 2 ^ nat ulp)
           in min F64_INF (nat (k + 1022) * 2 ^ 52 + m))"

subsection \<open>Addition\<close>

text \<open>A finite pattern is a multiple of the smallest subnormal, \<open>2 ^ -1074\<close>.\<close>

definition f64_units :: "f64 \<Rightarrow> int" where
  "f64_units x =
     (let m = f64_magnitude x; e = m div 2 ^ 52; f = m mod 2 ^ 52;
          u = (if e = 0 then f else (2 ^ 52 + f) * 2 ^ (e - 1))
      in if f64_negative x then - int u else int u)"

text \<open>
  Of the results that Rust leaves open, a NaN operand is returned made quiet, the first one first. An exact
  zero is negative only when both operands are.
\<close>

definition f64_quiet :: "f64 \<Rightarrow> f64" where
  "f64_quiet x = (if unat x div 2 ^ 51 mod 2 = 0 then x + 2 ^ 51 else x)"

definition f64_add :: "f64 \<Rightarrow> f64 \<Rightarrow> f64" where
  "f64_add x y =
     (if f64_is_nan x then f64_quiet x else if f64_is_nan y then f64_quiet y
      else if f64_is_infinite x \<and> f64_is_infinite y \<and> f64_negative x \<noteq> f64_negative y then 0x7FF8000000000000
      else if f64_is_infinite x then x else if f64_is_infinite y then y
      else let s = f64_units x + f64_units y
           in if s = 0 then f64_pack (f64_negative x \<and> f64_negative y) 0
              else f64_pack (s < 0) (f64_round_ratio (nat \<bar>s\<bar>) (2 ^ 1074)))"
subsection \<open>Parsing\<close>

text \<open>
  \<open>s.parse::<f64>()\<close>: an optional sign, then \<open>inf\<close>, \<open>infinity\<close> or \<open>nan\<close> in any case, or digits with an optional
  point and an optional exponent. The exponent stops growing once it has passed \<open>0x10000\<close>, as in the
  standard library; magnitudes out of reach are infinite or zero without computing the power.
\<close>

definition split_sign :: "str \<Rightarrow> bool \<times> str" where
  "split_sign s = (if s \<noteq> [] \<and> hd s = 0x2D then (True, tl s) else if s \<noteq> [] \<and> hd s = 0x2B then (False, tl s) else (False, s))"

definition exponent_val :: "bytes \<Rightarrow> int" where
  "exponent_val ds = fold (\<lambda>d e. if e < 0x10000 then 10 * e + int (digit_val d) else e) ds 0"

definition parse_exponent :: "str \<Rightarrow> int option" where
  "parse_exponent s =
     (if s = [] then Some 0
      else if to_ascii_lowercase (hd s) \<noteq> 0x65 then None
      else let (neg, ds) = split_sign (tl s) in
        if ds = [] \<or> \<not> list_all is_ascii_digit ds then None
        else Some (if neg then - exponent_val ds else exponent_val ds))"

definition f64_of_decimal :: "bytes \<Rightarrow> int \<Rightarrow> nat" where
  "f64_of_decimal ds e =
     (let ds = dropWhile (\<lambda>d. d = 0x30) ds; top = int (length ds) + e in
      if ds = [] \<or> top < - 400 then 0
      else if 310 < top then F64_INF
      else f64_round_ratio (decimal_val 0 ds * 10 ^ nat e) (10 ^ nat (- e)))"

definition parse_number :: "str \<Rightarrow> nat option" where
  "parse_number s =
     (let whole = takeWhile is_ascii_digit s; s = dropWhile is_ascii_digit s;
          point = (s \<noteq> [] \<and> hd s = 0x2E);
          frac = (if point then takeWhile is_ascii_digit (tl s) else []);
          s = (if point then dropWhile is_ascii_digit (tl s) else s)
      in if whole = [] \<and> frac = [] then None
         else map_option (\<lambda>e. f64_of_decimal (whole @ frac) (e - int (length frac))) (parse_exponent s))"

definition parse_f64 :: "str \<Rightarrow> f64 option" where
  "parse_f64 s =
     (let (neg, s) = split_sign s in
      if eq_ignore_ascii_case s (str_lit ''inf'') \<or> eq_ignore_ascii_case s (str_lit ''infinity'') then Some (f64_pack neg F64_INF)
      else if eq_ignore_ascii_case s (str_lit ''nan'') then Some (f64_pack neg 0x7FF8000000000000)
      else map_option (f64_pack neg) (parse_number s))"

end
