(* ===== verification/Rollup.thy ===== *)
theory Rollup
  imports Column Float64
begin

section \<open>Metric rollups\<close>

text \<open>
  \<open>crates/timeless-core/src/rollup.rs\<close>: the kernel that folds samples into buckets, the payload codec of
  rollup chunks, and the parser of the rollup ladder.
\<close>

subsection \<open>Integers\<close>

text \<open>\<open>i64::div_euclid\<close> panics on a zero divisor and on the one quotient that does not fit.\<close>

definition i64_div_euclid :: "i64 \<Rightarrow> i64 \<Rightarrow> i64 res" where
  "i64_div_euclid a b =
     (let x = i64_int a; y = i64_int b; q = (if 0 < y then x div y else - (x div - y))
      in if y = 0 \<or> q = 2 ^ 63 then Inl (Panic ''div_euclid'') else Inr (i64_of_int q))"

definition i64_checked_mul :: "i64 \<Rightarrow> i64 \<Rightarrow> i64 option" where
  "i64_checked_mul a b =
     (let p = i64_int a * i64_int b in if - (2 ^ 63) \<le> p \<and> p < 2 ^ 63 then Some (i64_of_int p) else None)"

subsection \<open>Buckets\<close>

definition ENC_ROLLUP_V1 :: byte where "ENC_ROLLUP_V1 = 2"

definition ROLLUP_ZSTD_LEVEL :: int where "ROLLUP_ZSTD_LEVEL = 7"

record rollup_bucket =
  rb_bucket_ts :: i64
  rb_count :: u64
  rb_sum :: f64
  rb_min :: f64
  rb_max :: f64
  rb_last_ts :: i64
  rb_last_val :: f64

definition rollup_start :: "i64 \<Rightarrow> i64 \<Rightarrow> i64 res" where
  "rollup_start resolution ts =
     and_then (i64_div_euclid ts resolution) (\<lambda>q.
     ok_or (i64_checked_mul q resolution) (Invalid ''rollup bucket timestamp overflows''))"

definition rollup_new :: "i64 \<Rightarrow> i64 \<Rightarrow> f64 \<Rightarrow> rollup_bucket" where
  "rollup_new bucket_ts ts val =
     \<lparr>rb_bucket_ts = bucket_ts, rb_count = 1, rb_sum = val, rb_min = val, rb_max = val, rb_last_ts = ts, rb_last_val = val\<rparr>"

definition rollup_merge :: "rollup_bucket \<Rightarrow> i64 \<Rightarrow> f64 \<Rightarrow> rollup_bucket" where
  "rollup_merge b ts val =
     (let b = b\<lparr>rb_count := rb_count b + 1, rb_sum := f64_add (rb_sum b) val,
                rb_min := f64_min (rb_min b) val, rb_max := f64_max (rb_max b) val\<rparr>
      in if ts \<ge> rb_last_ts b then b\<lparr>rb_last_ts := ts, rb_last_val := val\<rparr> else b)"

definition rollup_push :: "rollup_bucket list \<Rightarrow> i64 \<Rightarrow> i64 \<Rightarrow> f64 \<Rightarrow> rollup_bucket list" where
  "rollup_push out bucket_ts ts val =
     (if out \<noteq> [] \<and> rb_bucket_ts (last out) = bucket_ts then butlast out @ [rollup_merge (last out) ts val]
      else out @ [rollup_new bucket_ts ts val])"

fun rollup_loop :: "i64 \<Rightarrow> rollup_bucket list \<Rightarrow> (i64 \<times> f64) list \<Rightarrow> rollup_bucket list res" where
  "rollup_loop resolution out [] = Inr out"
| "rollup_loop resolution out ((ts, val) # samples) =
     and_then (rollup_start resolution ts) (\<lambda>bucket_ts.
     rollup_loop resolution (rollup_push out bucket_ts ts val) samples)"

definition rollup_buckets :: "(i64 \<times> f64) list \<Rightarrow> i64 \<Rightarrow> rollup_bucket list res" where
  "rollup_buckets samples resolution = rollup_loop resolution [] samples"

subsection \<open>The payload\<close>

definition encode_rollup_payload :: "codec_lib \<Rightarrow> rollup_bucket list \<Rightarrow> bytes res" where
  "encode_rollup_payload lib buckets =
     (let n = length buckets in
      and_then (ok_or (checked_mul n 56) (Invalid ''rollup payload: buckets exceed addressable size'')) (\<lambda>_.
      and_then (ensure (n \<le> U32_MAX) (Invalid ''rollup payload: buckets exceed u32::MAX'')) (\<lambda>_.
      let raw = u32_le (of_nat n) @ concat (map (\<lambda>b. i64_le (rb_bucket_ts b)) buckets) @
                concat (map (\<lambda>b. u64_le (rb_count b)) buckets) @ concat (map (\<lambda>b. u64_le (rb_sum b)) buckets) @
                concat (map (\<lambda>b. u64_le (rb_min b)) buckets) @ concat (map (\<lambda>b. u64_le (rb_max b)) buckets) @
                concat (map (\<lambda>b. i64_le (rb_last_ts b)) buckets) @ concat (map (\<lambda>b. u64_le (rb_last_val b)) buckets)
      in zstd_compress lib raw ROLLUP_ZSTD_LEVEL)))"

text \<open>\<open>raw[at..at + 8].try_into().unwrap()\<close>: a range outside the slice panics.\<close>

definition slice8 :: "bytes \<Rightarrow> nat \<Rightarrow> bytes res" where
  "slice8 raw at = (if at + 8 \<le> length raw then Inr (take 8 (drop at raw)) else Inl (Panic ''slice''))"

definition rollup_row :: "bytes \<Rightarrow> nat \<Rightarrow> nat \<Rightarrow> rollup_bucket res" where
  "rollup_row raw n i =
     (let col = (\<lambda>idx. 4 + n * 8 * idx) in
      and_then (slice8 raw (col 0 + i * 8)) (\<lambda>bucket_ts.
      and_then (slice8 raw (col 1 + i * 8)) (\<lambda>count.
      and_then (slice8 raw (col 2 + i * 8)) (\<lambda>sum.
      and_then (slice8 raw (col 3 + i * 8)) (\<lambda>mn.
      and_then (slice8 raw (col 4 + i * 8)) (\<lambda>mx.
      and_then (slice8 raw (col 5 + i * 8)) (\<lambda>last_ts.
      and_then (slice8 raw (col 6 + i * 8)) (\<lambda>last_val.
      Inr \<lparr>rb_bucket_ts = i64_from_le bucket_ts, rb_count = u64_from_le count, rb_sum = u64_from_le sum,
           rb_min = u64_from_le mn, rb_max = u64_from_le mx, rb_last_ts = i64_from_le last_ts,
           rb_last_val = u64_from_le last_val\<rparr>))))))))"

definition decode_rollup_payload :: "codec_lib \<Rightarrow> bytes \<Rightarrow> rollup_bucket list res" where
  "decode_rollup_payload lib payload =
     and_then (zstd_decompress_capped lib payload ''rollup payload'' (64 * 2 ^ 20)) (\<lambda>raw.
     if length raw < 4 then Inl (Invalid ''rollup payload truncated (no header)'')
     else let n = unat (u32_from_le (take 4 raw)) in
       and_then (ok_or (Option.bind (checked_mul n 56) (\<lambda>body. checked_add body 4))
                   (Invalid ''rollup payload: bucket count overflows size math'')) (\<lambda>expected.
       if length raw \<noteq> expected then Inl (Invalid ''rollup payload length'')
       else collect_r (rollup_row raw n) [0..<n]))"

subsection \<open>The ladder\<close>

record rollup_tier =
  rt_resolution :: i64
  rt_retention :: i64

definition parse_tier :: "str \<Rightarrow> rollup_tier res" where
  "parse_tier part =
     and_then (ok_or (split_once 0x3A part) (Invalid ''rollup tier: expected resolution:retention'')) (\<lambda>(res, ret).
     and_then (ok_or (parse_i64 (str_trim res)) (Invalid ''rollup tier: bad resolution'')) (\<lambda>resolution.
     and_then (ok_or (parse_i64 (str_trim ret)) (Invalid ''rollup tier: bad retention'')) (\<lambda>retention.
     and_then (ensure (\<not> resolution \<le> I64 0) (Invalid ''rollup resolution must be positive'')) (\<lambda>_.
     and_then (ensure (\<not> retention < I64 0) (Invalid ''rollup retention must be >= 0'')) (\<lambda>_.
     Inr \<lparr>rt_resolution = resolution, rt_retention = retention\<rparr>)))))"

definition tier_follows :: "rollup_tier list \<Rightarrow> rollup_tier \<Rightarrow> bool" where
  "tier_follows tiers t \<longleftrightarrow>
     tiers = [] \<or> \<not> (rt_resolution t \<le> rt_resolution (last tiers) \<or>
                       i64_int (rt_resolution t) mod i64_int (rt_resolution (last tiers)) \<noteq> 0)"

fun ladder_loop :: "rollup_tier list \<Rightarrow> str list \<Rightarrow> rollup_tier list res" where
  "ladder_loop tiers [] = Inr tiers"
| "ladder_loop tiers (part # parts) =
     (let part = str_trim part in
      if part = [] then ladder_loop tiers parts
      else and_then (parse_tier part) (\<lambda>t.
           and_then (ensure (tier_follows tiers t) (Invalid ''rollup resolutions must ascend'')) (\<lambda>_.
           ladder_loop (tiers @ [t]) parts)))"

definition parse_ladder :: "str \<Rightarrow> rollup_tier list res" where
  "parse_ladder spec = ladder_loop [] (split_by (\<lambda>b. b = 0x2C) spec)"

end
