(* ===== verification/RollupFacts.thy ===== *)
theory RollupFacts
  imports Rollup StoredLib
begin

section \<open>What rollups promise\<close>

text \<open>
  The kernel computes the naive bucket of every bucket start, bit for bit; payloads read back; a ladder that
  parses is one whose coarser tiers are made of whole finer buckets.
\<close>

subsection \<open>Bucket starts\<close>

definition bucket_start :: "i64 \<Rightarrow> i64 \<Rightarrow> int" where
  "bucket_start R ts = i64_int ts div i64_int R * i64_int R"

lemma i64_range: "- (2 ^ 63) \<le> i64_int x" "i64_int x < 2 ^ 63"
  using I64_MIN_least [of x] I64_MAX_greatest [of x] by (auto simp: less_eq_i64_def I64_MIN_def I64_MAX_def i64_int_def)

lemma div_in_range:
  assumes "0 < (r :: int)" "- (2 ^ 63) \<le> t" "t < 2 ^ 63"
  shows "- (2 ^ 63) \<le> t div r" "t div r < 2 ^ 63"
proof -
  have "- (2 ^ 63) \<le> (- (2 ^ 63) :: int) div r" using zdiv_mono2_neg [of "- (2 ^ 63)" 1 r] assms(1) by simp
  also have "\<dots> \<le> t div r" using assms by (intro zdiv_mono1) auto
  finally show "- (2 ^ 63) \<le> t div r" .
  have "t div r \<le> (2 ^ 63 - 1) div r" using assms by (intro zdiv_mono1) auto
  also have "\<dots> \<le> 2 ^ 63 - 1" using zdiv_mono2 [of "2 ^ 63 - 1" 1 r] assms(1) by simp
  finally show "t div r < 2 ^ 63" by simp
qed

lemma bucket_start_bounds:
  assumes "I64 0 < R"
  shows "bucket_start R ts \<le> i64_int ts" "i64_int ts < bucket_start R ts + i64_int R" "bucket_start R ts < 2 ^ 63"
proof -
  have "0 < i64_int R" using assms by (simp add: less_i64_def i64_int_def)
  then show le: "bucket_start R ts \<le> i64_int ts" and "i64_int ts < bucket_start R ts + i64_int R"
    using pos_mod_bound [of "i64_int R" "i64_int ts"] pos_mod_sign [of "i64_int R" "i64_int ts"] div_mult_mod_eq [of "i64_int ts" "i64_int R"]
    unfolding bucket_start_def by linarith+
  show "bucket_start R ts < 2 ^ 63" using le i64_range(2) [of ts] by simp
qed

lemma rollup_start_eq:
  assumes "I64 0 < R"
  shows "rollup_start R ts =
    (if - (2 ^ 63) \<le> bucket_start R ts then Inr (i64_of_int (bucket_start R ts)) else Inl (Invalid ''rollup bucket timestamp overflows''))"
proof -
  have R: "0 < i64_int R" using assms by (simp add: less_i64_def i64_int_def)
  note q = div_in_range [OF R i64_range, of ts]
  then have "i64_div_euclid ts R = Inr (i64_of_int (i64_int ts div i64_int R))" using R by (simp add: i64_div_euclid_def Let_def)
  then show ?thesis
    using q bucket_start_bounds(3) [OF assms, of ts] by (simp add: rollup_start_def i64_checked_mul_def Let_def bucket_start_def)
qed

lemma bucket_start_mono: "I64 0 < R \<Longrightarrow> ts \<le> ts' \<Longrightarrow> bucket_start R ts \<le> bucket_start R ts'"
  by (auto simp: bucket_start_def less_i64_def less_eq_i64_def i64_int_def intro!: mult_right_mono zdiv_mono1)

subsection \<open>The naive computation\<close>

definition bucket_of :: "i64 \<Rightarrow> i64 \<Rightarrow> i64" where
  "bucket_of R ts = i64_of_int (bucket_start R ts)"

text \<open>The samples of a bucket, folded from left to right.\<close>

definition naive_bucket :: "i64 \<Rightarrow> (i64 \<times> f64) list \<Rightarrow> i64 \<Rightarrow> rollup_bucket" where
  "naive_bucket R samples B =
     (let g = filter (\<lambda>(ts, _). bucket_of R ts = B) samples; vs = map snd g
      in \<lparr>rb_bucket_ts = B, rb_count = of_nat (length g), rb_sum = foldl f64_add (hd vs) (tl vs),
          rb_min = foldl f64_min (hd vs) (tl vs), rb_max = foldl f64_max (hd vs) (tl vs),
          rb_last_ts = fst (last g), rb_last_val = snd (last g)\<rparr>)"

definition naive_rollup :: "i64 \<Rightarrow> (i64 \<times> f64) list \<Rightarrow> rollup_bucket list" where
  "naive_rollup R samples = map (naive_bucket R samples) (remdups_adj (map (\<lambda>(ts, _). bucket_of R ts) samples))"

lemma remdups_adj_snoc:
  "remdups_adj (xs @ [x]) = (if xs \<noteq> [] \<and> last xs = x then remdups_adj xs else remdups_adj xs @ [x])"
  by (induction xs rule: remdups_adj.induct) auto

lemma sorted_remdups_adj_strict: "sorted xs \<Longrightarrow> sorted_wrt (<) (remdups_adj xs)"
  by (induction xs rule: remdups_adj.induct) (auto simp: order.strict_iff_order)

lemma sorted_le_last: "sorted (xs :: 'a::linorder list) \<Longrightarrow> x \<in> set xs \<Longrightarrow> x \<le> last xs"
  by (induction xs) (auto simp: last_in_set)

lemma naive_bucket_other: "bucket_of R ts \<noteq> B \<Longrightarrow> naive_bucket R (samples @ [(ts, v)]) B = naive_bucket R samples B"
  by (simp add: naive_bucket_def)

lemma naive_bucket_first: "\<forall>(t, _) \<in> set samples. bucket_of R t \<noteq> bucket_of R ts \<Longrightarrow>
    naive_bucket R (samples @ [(ts, v)]) (bucket_of R ts) = rollup_new (bucket_of R ts) ts v"
  by (simp add: naive_bucket_def rollup_new_def split_def)

lemma naive_bucket_merge:
  assumes "\<exists>(t, _) \<in> set samples. bucket_of R t = bucket_of R ts" "\<forall>(t, _) \<in> set samples. t \<le> ts"
  shows "naive_bucket R (samples @ [(ts, v)]) (bucket_of R ts) = rollup_merge (naive_bucket R samples (bucket_of R ts)) ts v"
proof -
  let ?g = "filter (\<lambda>(t, _). bucket_of R t = bucket_of R ts) samples"
  have ne: "?g \<noteq> []" using assms(1) by (auto simp: filter_empty_conv)
  then have "fst (last ?g) \<le> ts" using assms(2) last_in_set [OF ne] by auto
  then show ?thesis using ne by (simp add: naive_bucket_def rollup_merge_def Let_def)
qed

lemma rollup_push_naive:
  assumes "sorted (map fst (samples @ [(ts, v)]))" "I64 0 < R" "\<forall>(t, _) \<in> set (samples @ [(ts, v)]). - (2 ^ 63) \<le> bucket_start R t"
  shows "rollup_push (naive_rollup R samples) (bucket_of R ts) ts v = naive_rollup R (samples @ [(ts, v)])"
proof -
  let ?B = "map (\<lambda>(t, _). bucket_of R t) samples"
  have le: "\<forall>(t, _) \<in> set samples. t \<le> ts" using assms(1) by (auto simp: sorted_append)
  have int: "i64_int (bucket_of R t) = bucket_start R t" if "(t, u) \<in> set (samples @ [(ts, v)])" for t u
    using assms(3) that bucket_start_bounds(3) [OF assms(2), of t] by (auto simp: bucket_of_def)
  have mono: "bucket_of R (fst p) \<le> bucket_of R (fst q)" if "p \<in> set (samples @ [(ts, v)])" "q \<in> set (samples @ [(ts, v)])" "fst p \<le> fst q" for p q
    using int [of "fst p" "snd p"] int [of "fst q" "snd q"] that bucket_start_mono [OF assms(2) that(3)] by (simp add: less_eq_i64_def)
  have "sorted (map (\<lambda>(t, _). bucket_of R t) (samples @ [(ts, v)]))"
    using assms(1) mono unfolding sorted_map split_def by (rule sorted_wrt_mono_rel [rotated]) blast
  then have srt: "sorted (?B @ [bucket_of R ts])" by simp
  show ?thesis
  proof (cases "?B \<noteq> [] \<and> last ?B = bucket_of R ts")
    case True
    then have ne: "remdups_adj ?B \<noteq> []" and l: "last (remdups_adj ?B) = bucket_of R ts" by auto
    obtain C where C: "remdups_adj ?B = C @ [bucket_of R ts]" using ne l by (metis append_butlast_last_id)
    have "distinct (remdups_adj ?B)" using srt sorted_remdups_adj_strict [of ?B] strict_sorted_iff by (auto simp: sorted_append)
    then have "bucket_of R ts \<notin> set C" using C by simp
    then have "map (naive_bucket R (samples @ [(ts, v)])) C = map (naive_bucket R samples) C"
      by (intro map_cong refl naive_bucket_other) auto
    moreover have "\<exists>(t, _) \<in> set samples. bucket_of R t = bucket_of R ts" using True last_in_set [of ?B] by force
    ultimately show ?thesis
      using True C naive_bucket_merge [OF _ le, of R v] by (simp add: naive_rollup_def remdups_adj_snoc rollup_push_def naive_bucket_def [of R samples] Let_def)
  next
    case False
    have "bucket_of R ts \<notin> set ?B"
    proof
      assume a: "bucket_of R ts \<in> set ?B"
      then have "?B \<noteq> []" by auto
      moreover have "last ?B = bucket_of R ts"
        using srt a sorted_le_last [of ?B "bucket_of R ts"] last_in_set [OF calculation] by (force simp: sorted_append intro: antisym)
      ultimately show False using False by simp
    qed
    then have new: "\<forall>(t, _) \<in> set samples. bucket_of R t \<noteq> bucket_of R ts" by force
    then have "map (naive_bucket R (samples @ [(ts, v)])) (remdups_adj ?B) = map (naive_bucket R samples) (remdups_adj ?B)"
      by (intro map_cong refl naive_bucket_other) auto
    moreover have "rb_bucket_ts (last (naive_rollup R samples)) = last ?B" if "?B \<noteq> []"
      using that by (simp add: naive_rollup_def last_map naive_bucket_def Let_def)
    ultimately show ?thesis
      using False naive_bucket_first [OF new] by (auto simp: naive_rollup_def remdups_adj_snoc rollup_push_def)
  qed
qed

lemma rollup_loop_push:
  assumes "I64 0 < R" "\<forall>(t, _) \<in> set samples. - (2 ^ 63) \<le> bucket_start R t"
  shows "rollup_loop R out samples = Inr (foldl (\<lambda>out (ts, v). rollup_push out (bucket_of R ts) ts v) out samples)"
  using assms(2) by (induction samples arbitrary: out) (auto simp: rollup_start_eq [OF assms(1)] bucket_of_def)

lemma rollup_loop_overflow:
  assumes "I64 0 < R" "\<exists>p \<in> set samples. \<not> - (2 ^ 63) \<le> bucket_start R (fst p)"
  shows "rollup_loop R out samples = Inl (Invalid ''rollup bucket timestamp overflows'')"
  using assms(2)
proof (induction samples arbitrary: out)
  case (Cons p samples)
  then show ?case by (cases p; cases "- (2 ^ 63) \<le> bucket_start R (fst p)") (simp_all add: rollup_start_eq [OF assms(1)])
qed simp

lemma rollup_fold_naive:
  assumes "I64 0 < R" "sorted (map fst samples)" "\<forall>(t, _) \<in> set samples. - (2 ^ 63) \<le> bucket_start R t"
  shows "foldl (\<lambda>out (ts, v). rollup_push out (bucket_of R ts) ts v) [] samples = naive_rollup R samples"
  using assms(2,3)
proof (induction samples rule: rev_induct)
  case (snoc x samples)
  obtain ts v where x: "x = (ts, v)" by (cases x)
  have "foldl (\<lambda>out (ts, v). rollup_push out (bucket_of R ts) ts v) [] samples = naive_rollup R samples"
    using snoc by (auto simp: sorted_append)
  then show ?case using rollup_push_naive [of samples ts v R] snoc.prems assms(1) by (simp add: x)
qed (simp add: naive_rollup_def)

subsection \<open>The payload\<close>

lemma concat_words_nth:
  assumes "\<And>b. length (f b) = 8" "i < length bs"
  shows "take 8 (drop (i * 8) (concat (map f bs) @ tail)) = f (bs ! i)"
  using assms(2)
proof (induction bs arbitrary: i)
  case (Cons b bs)
  then show ?case by (cases i) (simp_all add: assms(1))
qed simp

lemma slice8_column:
  assumes "\<And>b. length (f b) = 8" "i < length bs" "length pre = at"
  shows "slice8 (pre @ concat (map f bs) @ tail) (at + i * 8) = Inr (f (bs ! i))"
proof -
  have "length (concat (map f bs)) = 8 * length bs" using assms(1) by (simp add: length_concat comp_def sum_list_triv)
  then show ?thesis using assms concat_words_nth [of f i bs tail] by (simp add: slice8_def add.commute)
qed

definition rollup_columns :: "(rollup_bucket \<Rightarrow> bytes) list" where
  "rollup_columns = [\<lambda>b. i64_le (rb_bucket_ts b), \<lambda>b. u64_le (rb_count b), \<lambda>b. u64_le (rb_sum b), \<lambda>b. u64_le (rb_min b),
     \<lambda>b. u64_le (rb_max b), \<lambda>b. i64_le (rb_last_ts b), \<lambda>b. u64_le (rb_last_val b)]"

definition rollup_raw :: "rollup_bucket list \<Rightarrow> bytes" where
  "rollup_raw bs = u32_le (of_nat (length bs)) @ concat (map (\<lambda>f. concat (map f bs)) rollup_columns)"

lemma length_columns: "f \<in> set rollup_columns \<Longrightarrow> length (f b) = 8"
  by (auto simp: rollup_columns_def i64_le_def)

lemma length_column: "f \<in> set rollup_columns \<Longrightarrow> length (concat (map f bs)) = 8 * length bs"
  by (simp add: length_concat comp_def length_columns sum_list_triv)

lemma length_rollup_raw [simp]: "length (rollup_raw bs) = 4 + 56 * length bs"
proof -
  have "length (concat (map (\<lambda>f. concat (map f bs)) fs)) = length fs * (8 * length bs)" if "set fs \<subseteq> set rollup_columns" for fs
    using that by (induction fs) (auto simp: length_column)
  from this [of rollup_columns] show ?thesis by (simp add: rollup_raw_def) (simp add: rollup_columns_def)
qed

lemma slice8_raw:
  assumes "c < length rollup_columns" "i < length bs"
  shows "slice8 (rollup_raw bs) (4 + length bs * 8 * c + i * 8) = Inr ((rollup_columns ! c) (bs ! i))"
proof -
  let ?cat = "\<lambda>fs. concat (map (\<lambda>f. concat (map f bs)) fs)"
  have split: "rollup_raw bs = (u32_le (of_nat (length bs)) @ ?cat (take c rollup_columns)) @ concat (map (rollup_columns ! c) bs) @ ?cat (drop (Suc c) rollup_columns)"
    unfolding rollup_raw_def using arg_cong [OF id_take_nth_drop [OF assms(1)], of ?cat] by (simp only: map_append concat_append list.map concat.simps append_assoc)
  have "length (?cat fs) = length fs * (8 * length bs)" if "set fs \<subseteq> set rollup_columns" for fs
    using that by (induction fs) (auto simp: length_column)
  from this [of "take c rollup_columns"] have "length (u32_le (of_nat (length bs)) @ ?cat (take c rollup_columns)) = 4 + length bs * 8 * c"
    using assms(1) set_take_subset [of c rollup_columns] by simp
  then show ?thesis unfolding split by (rule slice8_column [OF length_columns [OF nth_mem [OF assms(1)]] assms(2)])
qed

lemma rollup_row_raw:
  assumes "i < length bs"
  shows "rollup_row (rollup_raw bs) (length bs) i = Inr (bs ! i)"
  using slice8_raw [OF _ assms, of 0] slice8_raw [OF _ assms, of 1] slice8_raw [OF _ assms, of 2] slice8_raw [OF _ assms, of 3]
    slice8_raw [OF _ assms, of 4] slice8_raw [OF _ assms, of 5] slice8_raw [OF _ assms, of 6]
  by (simp add: rollup_row_def Let_def) (simp add: rollup_columns_def)

lemma encode_rollup_eq: "encode_rollup_payload lib bs = Inr p \<Longrightarrow>
    length bs \<le> U32_MAX \<and> zstd_bulk_compress lib (rollup_raw bs) ROLLUP_ZSTD_LEVEL = Some p"
  by (simp add: encode_rollup_payload_def Let_def rollup_raw_def rollup_columns_def)

lemma decode_rollup_raw:
  assumes "length bs \<le> U32_MAX" "zstd_decompress_capped lib p ''rollup payload'' (64 * 2 ^ 20) = Inr (rollup_raw bs)"
  shows "decode_rollup_payload lib p = Inr bs"
proof -
  have "take 4 (rollup_raw bs) = u32_le (of_nat (length bs))" by (simp add: rollup_raw_def)
  then have n: "unat (u32_from_le (take 4 (rollup_raw bs))) = length bs" using assms(1) by simp
  have "collect_r (rollup_row (rollup_raw bs) (length bs)) [0..<length bs] = Inr (map ((!) bs) [0..<length bs])"
    by (rule collect_r_map) (simp add: rollup_row_raw)
  then have "collect_r (rollup_row (rollup_raw bs) (length bs)) [0..<length bs] = Inr bs" by (simp add: map_nth)
  then show ?thesis
    using assms n by (simp add: decode_rollup_payload_def Let_def checked_mul_def checked_add_def machine_limits)
qed
lemma decode_rollup_over:
  assumes "zstd_decompress_capped lib p ''rollup payload'' (64 * 2 ^ 20) = Inl e"
  shows "decode_rollup_payload lib p = Inl e"
  using assms by (simp add: decode_rollup_payload_def)

subsection \<open>The ladder\<close>

definition ladder_ok :: "rollup_tier list \<Rightarrow> bool" where
  "ladder_ok tiers \<longleftrightarrow> (\<forall>t \<in> set tiers. I64 0 < rt_resolution t \<and> I64 0 \<le> rt_retention t) \<and>
     sorted_wrt (\<lambda>a b. rt_resolution a < rt_resolution b \<and> i64_int (rt_resolution a) dvd i64_int (rt_resolution b)) tiers"

lemma parse_tier_ok: "parse_tier part = Inr t \<Longrightarrow> I64 0 < rt_resolution t \<and> I64 0 \<le> rt_retention t"
  by (auto simp: parse_tier_def)

lemma ladder_snoc:
  assumes "ladder_ok tiers" "I64 0 < rt_resolution t \<and> I64 0 \<le> rt_retention t" "tier_follows tiers t"
  shows "ladder_ok (tiers @ [t])"
proof (cases tiers rule: rev_cases)
  case Nil
  then show ?thesis using assms(2) by (simp add: ladder_ok_def)
next
  case (snoc ts u)
  have u: "rt_resolution u < rt_resolution t" "i64_int (rt_resolution u) dvd i64_int (rt_resolution t)"
    using assms(3) snoc by (auto simp: tier_follows_def mod_eq_0_iff_dvd)
  then show ?thesis
    using assms(1,2) snoc by (auto simp: ladder_ok_def sorted_wrt_append intro: order.strict_trans dvd_trans)
qed

lemma ladder_loop_ok: "ladder_loop tiers parts = Inr out \<Longrightarrow> ladder_ok tiers \<Longrightarrow> ladder_ok out"
proof (induction parts arbitrary: tiers)
  case (Cons part parts)
  show ?case
  proof (cases "str_trim part = []")
    case True
    then show ?thesis using Cons by simp
  next
    case False
    then obtain t where "parse_tier (str_trim part) = Inr t" "tier_follows tiers t" "ladder_loop (tiers @ [t]) parts = Inr out"
      using Cons.prems(1) by (auto simp: Let_def)
    then show ?thesis using Cons.IH ladder_snoc [OF Cons.prems(2)] parse_tier_ok by blast
  qed
qed simp

lemma bucket_start_coarser:
  assumes "I64 0 < R" "I64 0 < S" "i64_int R dvd i64_int S" "- (2 ^ 63) \<le> bucket_start R ts"
  shows "bucket_start S (bucket_of R ts) = bucket_start S ts"
proof -
  obtain k where k: "i64_int S = i64_int R * k" using assms(3) by (auto elim: dvdE)
  have pos: "0 < i64_int R" "0 < i64_int S" using assms(1,2) by (simp_all add: less_i64_def i64_int_def)
  then have "0 < k" using k zero_less_mult_pos by fastforce
  then have "i64_int ts div i64_int R * i64_int R div i64_int S = i64_int ts div i64_int S"
    using pos(1) by (simp add: k zdiv_zmult2_eq)
  moreover have "i64_int (bucket_of R ts) = bucket_start R ts"
    using assms(4) bucket_start_bounds(3) [OF assms(1), of ts] by (simp add: bucket_of_def)
  ultimately show ?thesis by (simp add: bucket_start_def)
qed

subsection \<open>Claims\<close>

text \<open>
  C20. The rollup kernel is the naive computation, bit for bit: for a positive resolution and samples in
  ascending time order it fails exactly when the start of some sample's bucket lies below the smallest
  timestamp, and otherwise returns one bucket per non-empty interval \<open>[B, B + R)\<close>, in ascending order, each with
  the count, the left-to-right sum, minimum and maximum and the last sample of exactly the samples in it.
\<close>

theorem rollup_exact:
  assumes "I64 0 < R" "sorted (map fst samples)"
  shows "rollup_buckets samples R =
    (if \<exists>(ts, _) \<in> set samples. bucket_start R ts < - (2 ^ 63) then Inl (Invalid ''rollup bucket timestamp overflows'')
     else Inr (naive_rollup R samples))"
proof (cases "\<exists>(ts, _) \<in> set samples. bucket_start R ts < - (2 ^ 63)")
  case True
  then have "\<exists>p \<in> set samples. \<not> - (2 ^ 63) \<le> bucket_start R (fst p)" by force
  then show ?thesis using True rollup_loop_overflow [OF assms(1)] by (simp add: rollup_buckets_def)
next
  case False
  then have fits: "\<forall>(t, _) \<in> set samples. - (2 ^ 63) \<le> bucket_start R t" by force
  then show ?thesis
    using False rollup_loop_push [OF assms(1) fits] rollup_fold_naive [OF assms fits] by (simp add: rollup_buckets_def)
qed

theorem rollup_exact_witness:
  "I64 0 < I64 10 \<and> sorted (map fst [(i64_of_int (- 5), 0x3FF0000000000000 :: f64), (I64 3, 0), (I64 9, 0x4000000000000000), (I64 10, 1)]) \<and>
   rollup_buckets [(i64_of_int (- 5), 0x3FF0000000000000), (I64 3, 0), (I64 9, 0x4000000000000000), (I64 10, 1)] (I64 10) =
     Inr (naive_rollup (I64 10) [(i64_of_int (- 5), 0x3FF0000000000000), (I64 3, 0), (I64 9, 0x4000000000000000), (I64 10, 1)])"
proof -
  let ?s = "[(i64_of_int (- 5), 0x3FF0000000000000 :: f64), (I64 3, 0), (I64 9, 0x4000000000000000), (I64 10, 1)]"
  have s: "sorted (map fst ?s)" and r: "I64 0 < I64 10" by (simp_all add: less_eq_i64_def less_i64_def i64_int_def i64_of_int_def)
  have "\<not> (\<exists>(ts, _) \<in> set ?s. bucket_start (I64 10) ts < - (2 ^ 63))"
    by (simp add: bucket_start_def i64_int_def i64_of_int_def)
  then show ?thesis using rollup_exact [OF r s] s r by simp
qed

text \<open>
  C23. A rollup payload that was written decodes to exactly its buckets, bit patterns of floats included, as long
  as it is within the 64 MiB the decoder accepts (1,198,372 buckets); beyond that the encoder still succeeds and the decoder
  always fails.
\<close>

theorem rollup_payload_roundtrip:
  assumes "codec_lib_ok lib" "encode_rollup_payload lib bs = Inr p"
  shows "decode_rollup_payload lib p = (if length bs \<le> 1198372 then Inr bs else Inl (DecompressFailed ''rollup payload''))"
proof -
  have e: "length bs \<le> U32_MAX" "zstd_bulk_compress lib (rollup_raw bs) ROLLUP_ZSTD_LEVEL = Some p"
    using encode_rollup_eq [OF assms(2)] by simp_all
  then have "zstd_bulk_decompress lib p (64 * 2 ^ 20) = (if 4 + 56 * length bs \<le> 64 * 2 ^ 20 then Some (rollup_raw bs) else None)"
    using assms(1) unfolding codec_lib_ok_def zstd_ok_def by (metis length_rollup_raw)
  then have "zstd_decompress_capped lib p ''rollup payload'' (64 * 2 ^ 20) =
      (if length bs \<le> 1198372 then Inr (rollup_raw bs) else Inl (DecompressFailed ''rollup payload''))"
    by (simp add: zstd_decompress_capped_def)
  then show ?thesis using decode_rollup_raw [OF e(1), of lib p] decode_rollup_over [of lib p] by simp
qed

theorem rollup_payload_roundtrip_witness:
  "\<exists>p. encode_rollup_payload stored_lib [rollup_new (I64 0) (I64 3) 0x7FF8000000000001] = Inr p \<and>
       decode_rollup_payload stored_lib p = Inr [rollup_new (I64 0) (I64 3) 0x7FF8000000000001]"
proof -
  obtain p where p: "encode_rollup_payload stored_lib [rollup_new (I64 0) (I64 3) 0x7FF8000000000001] = Inr p"
    by (simp add: encode_rollup_payload_def Let_def checked_mul_def machine_limits zstd_compress_def stored_lib_def)
  then show ?thesis using rollup_payload_roundtrip [OF stored_lib_ok p] by simp
qed

text \<open>
  C24. A ladder that parses is usable: every tier has a positive resolution and a retention that is not negative,
  resolutions ascend, and of two tiers the coarser is made of whole buckets of the finer: the coarse bucket of a
  sample is the coarse bucket of the start of its fine bucket.
\<close>

theorem ladder_nests:
  assumes "parse_ladder spec = Inr tiers"
  shows "(\<forall>t \<in> set tiers. I64 0 < rt_resolution t \<and> I64 0 \<le> rt_retention t) \<and>
    sorted_wrt (\<lambda>a b. rt_resolution a < rt_resolution b \<and> (\<forall>ts s. rollup_start (rt_resolution a) ts = Inr s \<longrightarrow>
      rollup_start (rt_resolution b) s = rollup_start (rt_resolution b) ts)) tiers"
proof -
  have ok: "ladder_ok tiers" using ladder_loop_ok assms by (force simp: parse_ladder_def ladder_ok_def)
  have "rollup_start S s = rollup_start S ts"
    if "I64 0 < R" "I64 0 < S" "i64_int R dvd i64_int S" "rollup_start R ts = Inr s" for R S ts s
    using bucket_start_coarser [OF that(1-3), of ts] that(4) unfolding rollup_start_eq [OF that(1)] rollup_start_eq [OF that(2)]
    by (auto simp: bucket_of_def split: if_split_asm)
  then show ?thesis using ok unfolding ladder_ok_def by (auto elim!: sorted_wrt_mono_rel [rotated])
qed

theorem ladder_nests_witness:
  "parse_ladder (str_lit ''5:90, 60:0'') = Inr [\<lparr>rt_resolution = I64 5, rt_retention = I64 90\<rparr>, \<lparr>rt_resolution = I64 60, rt_retention = I64 0\<rparr>] \<and>
   rollup_start (I64 60) (I64 130) = rollup_start (I64 60) (I64 134)"
proof -
  have p: "parse_ladder (str_lit ''5:90, 60:0'') =
      Inr [\<lparr>rt_resolution = I64 5, rt_retention = I64 90\<rparr>, \<lparr>rt_resolution = I64 60, rt_retention = I64 0\<rparr>]"
    by code_simp
  have "rollup_start (I64 5) (I64 134) = Inr (I64 130)" by code_simp
  then show ?thesis using ladder_nests [OF p] p by simp
qed

end
