(* ===== verification/PromText.thy ===== *)
theory PromText
  imports Float64
begin

section \<open>The Prometheus text format\<close>

text \<open>
  \<open>crates/timeless-core/src/prom_text.rs\<close>: the streaming parser of the exposition format. A cursor into a
  slice is the rest of the slice. The loop over labels has no counter, so it is a partial function: a value
  \<open>None\<close> would be a run that never ends.
\<close>

definition parse_prom_value :: "bytes \<Rightarrow> f64 option" where
  "parse_prom_value bs = (if valid_utf8 bs then parse_f64 bs else None)"

text \<open>The index of the quote that ends a quoted string, from the byte after the one that opens it.\<close>

fun quoted_end :: "bytes \<Rightarrow> nat option" where
  "quoted_end [] = None"
| "quoted_end [b] = (if b = 0x22 then Some 0 else None)"
| "quoted_end (b # c # s) =
     (if b = 0x5C then map_option (\<lambda>i. i + 2) (quoted_end s)
      else if b = 0x22 then Some 0
      else map_option Suc (quoted_end (c # s)))"

definition take_prom_quoted :: "bytes \<Rightarrow> (bytes \<times> bytes) option" where
  "take_prom_quoted bs =
     (case bs of
        b # s \<Rightarrow> if b = 0x22 then map_option (\<lambda>i. (take i s, drop (Suc i) s)) (quoted_end s) else None
      | [] \<Rightarrow> None)"

text \<open>The index of the brace that closes a label block, from the byte after the one that opens it.\<close>

fun label_close :: "bool \<Rightarrow> bytes \<Rightarrow> nat option" where
  "label_close quoted [] = None"
| "label_close quoted [b] = (if b = 0x7D \<and> \<not> quoted then Some 0 else None)"
| "label_close quoted (b # c # s) =
     (if b = 0x5C \<and> quoted then map_option (\<lambda>i. i + 2) (label_close quoted s)
      else if b = 0x22 then map_option Suc (label_close (\<not> quoted) (c # s))
      else if b = 0x7D \<and> \<not> quoted then Some 0
      else map_option Suc (label_close quoted (c # s)))"

definition find_prom_label_close :: "bytes \<Rightarrow> nat \<Rightarrow> nat option" where
  "find_prom_label_close line open = map_option (\<lambda>i. Suc open + i) (label_close False (drop (Suc open) line))"

definition trim_prom_separators :: "bytes \<Rightarrow> bytes" where
  "trim_prom_separators bs = dropWhile (\<lambda>b. b = 0x20 \<or> b = 0x09 \<or> b = 0x2C) bs"

definition prom_blank :: "byte \<Rightarrow> bool" where
  "prom_blank b \<longleftrightarrow> b = 0x20 \<or> b = 0x09"

definition prom_key :: "bytes \<Rightarrow> (bytes \<times> bytes) option" where
  "prom_key s =
     (if hd s = 0x22 then take_prom_quoted s
      else if 0x3D \<in> set s then
        Some (rev (dropWhile prom_blank (rev (takeWhile (\<lambda>b. b \<noteq> 0x3D) s))), dropWhile (\<lambda>b. b \<noteq> 0x3D) s)
      else None)"

text \<open>One round of the loop: the next label and the rest, or why the loop returns.\<close>

definition prom_label :: "bytes \<Rightarrow> (bool, (bytes \<times> bytes) \<times> bytes) sum" where
  "prom_label s =
     (let s = trim_prom_separators s in
      if s = [] then Inl True
      else case prom_key s of
          None \<Rightarrow> Inl False
        | Some (key, s) \<Rightarrow>
            if key = [] then Inl False
            else case dropWhile prom_blank s of
                [] \<Rightarrow> Inl False
              | b # s \<Rightarrow>
                  if b \<noteq> 0x3D then Inl False
                  else case take_prom_quoted (dropWhile prom_blank s) of
                      None \<Rightarrow> Inl False
                    | Some (val, s) \<Rightarrow> Inr ((key, val), s))"

partial_function (option) parse_prom_labels_into ::
  "bytes \<Rightarrow> (bytes \<times> bytes) list \<Rightarrow> (bool \<times> (bytes \<times> bytes) list) option" where
  [code]: "parse_prom_labels_into s out =
     (case prom_label s of
        Inl ok \<Rightarrow> Some (ok, out)
      | Inr (label, s) \<Rightarrow> parse_prom_labels_into s (out @ [label]))"

fun unescape_prom_label_value :: "bytes \<Rightarrow> bytes" where
  "unescape_prom_label_value [] = []"
| "unescape_prom_label_value [b] = [b]"
| "unescape_prom_label_value (b # c # s) =
     (if b \<noteq> 0x5C then b # unescape_prom_label_value (c # s)
      else (if c = 0x6E then [0x0A] else if c = 0x5C \<or> c = 0x22 then [c] else [0x5C, c]) @ unescape_prom_label_value s)"

text \<open>
  The name, the labels and the rest of a line; the inner option is the \<open>Option\<close> of the source, the outer one
  is termination.
\<close>

definition prom_braced :: "bytes \<Rightarrow> (bytes \<times> (bytes \<times> bytes) list \<times> bytes) option option" where
  "prom_braced line =
     (case find_prom_label_close line 0 of None \<Rightarrow> Some None | Some close \<Rightarrow>
      case take_prom_quoted (trim_ascii (drop 1 (take close line))) of None \<Rightarrow> Some None | Some (name, remaining) \<Rightarrow>
      if name = [] then Some None
      else let remaining = trim_ascii remaining in
        if remaining = [] then Some (Some (name, [], drop (Suc close) line))
        else if hd remaining \<noteq> 0x2C then Some None
        else Option.bind (parse_prom_labels_into (tl remaining) []) (\<lambda>(ok, labels).
             Some (if ok then Some (name, labels, drop (Suc close) line) else None)))"

definition prom_named :: "bytes \<Rightarrow> (bytes \<times> (bytes \<times> bytes) list \<times> bytes) option option" where
  "prom_named line =
     (let name = takeWhile (\<lambda>b. \<not> (b = 0x7B \<or> b = 0x20 \<or> b = 0x09)) line; name_end = length name in
      if name_end = length line then Some None
      else if name_end = 0 then Some None
      else if line ! name_end = 0x7B then
        (case find_prom_label_close line name_end of None \<Rightarrow> Some None | Some close \<Rightarrow>
         Option.bind (parse_prom_labels_into (drop (Suc name_end) (take close line)) []) (\<lambda>(ok, labels).
         Some (if ok then Some (name, labels, drop (Suc close) line) else None)))
      else Some (Some (name, [], drop name_end line)))"

definition prom_sample :: "bytes \<Rightarrow> (f64 \<times> i64) option" where
  "prom_sample s =
     (case filter (\<lambda>f. f \<noteq> []) (split_by prom_blank s) of
        [] \<Rightarrow> None
      | f # fs \<Rightarrow>
          map_option (\<lambda>v. (v, case fs of
              [] \<Rightarrow> I64 0
            | g # _ \<Rightarrow> (case (if valid_utf8 g then parse_i64 g else None) of Some t \<Rightarrow> t | None \<Rightarrow> I64 0)))
            (parse_prom_value f))"

type_synonym prom_entry = "bytes \<times> (bytes \<times> bytes) list \<times> f64 \<times> i64"

definition parse_prom_line_into :: "bytes \<Rightarrow> prom_entry option option" where
  "parse_prom_line_into line =
     (let line = trim_ascii line in
      if line = [] \<or> hd line = 0x23 then Some None
      else Option.bind (if hd line = 0x7B then prom_braced line else prom_named line) (\<lambda>r.
        Some (case r of None \<Rightarrow> None
              | Some (name, labels, s) \<Rightarrow> map_option (\<lambda>(v, t). (name, labels, v, t)) (prom_sample s))))"

text \<open>\<open>sink\<close> is the caller's closure, with the state it captures.\<close>

fun visit_lines :: "(prom_entry \<Rightarrow> 'e \<Rightarrow> 'e) \<Rightarrow> bytes list \<Rightarrow> nat \<Rightarrow> nat \<Rightarrow> 'e \<Rightarrow> (nat \<times> nat \<times> 'e) option" where
  "visit_lines sink [] cnt errs e = Some (cnt, errs, e)"
| "visit_lines sink (line # lines) cnt errs e =
     Option.bind (parse_prom_line_into line) (\<lambda>r.
     case r of
       Some entry \<Rightarrow> visit_lines sink lines (Suc cnt) errs (sink entry e)
     | None \<Rightarrow>
         (let t = trim_ascii line in
          visit_lines sink lines cnt (if t \<noteq> [] \<and> hd t \<noteq> 0x23 then Suc errs else errs) e))"

definition parse_prom_body_visit :: "bytes \<Rightarrow> (prom_entry \<Rightarrow> 'e \<Rightarrow> 'e) \<Rightarrow> 'e \<Rightarrow> (nat \<times> nat \<times> 'e) option" where
  "parse_prom_body_visit body sink e = visit_lines sink (split_by (\<lambda>b. b = 0x0A) body) 0 0 e"

end
