(* ===== verification/PromFacts.thy ===== *)
theory PromFacts
  imports PromText
begin

section \<open>What the exposition parser promises\<close>

text \<open>
  Every body is parsed to the end, every line that is neither blank nor a comment is counted once, and what
  is written in the format is read back, whatever bytes the label values hold.
\<close>

subsection \<open>Every round of the label loop consumes input\<close>

lemma quoted_end_less: "quoted_end s = Some i \<Longrightarrow> i < length s"
  by (induction s arbitrary: i rule: quoted_end.induct) (auto split: if_split_asm)

lemma take_prom_quoted_shorter: "take_prom_quoted s = Some (v, r) \<Longrightarrow> length r < length s"
  by (auto simp: take_prom_quoted_def split: list.split_asm if_split_asm)

lemma prom_key_shorter: "prom_key s = Some (k, r) \<Longrightarrow> length r \<le> length s"
  using length_dropWhile_le [of _ s] by (auto simp: prom_key_def split: if_split_asm dest: take_prom_quoted_shorter)

lemma prom_label_shorter:
  assumes "prom_label s = Inr (l, r)"
  shows "length r < length s"
proof -
  obtain k s1 s2 v where 1: "prom_key (trim_prom_separators s) = Some (k, s1)" and 2: "dropWhile prom_blank s1 = 0x3D # s2"
    and 3: "take_prom_quoted (dropWhile prom_blank s2) = Some (v, r)"
    using assms by (auto simp: prom_label_def Let_def split: if_split_asm option.split_asm list.split_asm)
  have "length r < length s2" using take_prom_quoted_shorter [OF 3] length_dropWhile_le [of prom_blank s2] by simp
  moreover have "length s2 < length s1" using 2 length_dropWhile_le [of prom_blank s1] by simp
  moreover have "length s1 \<le> length s"
    using prom_key_shorter [OF 1] length_dropWhile_le [of _ s] unfolding trim_prom_separators_def by (rule order.trans)
  ultimately show ?thesis by simp
qed

lemma prom_labels_return: "\<exists>ok labels. parse_prom_labels_into s out = Some (ok, labels)"
proof (induction "length s" arbitrary: s out rule: less_induct)
  case less
  show ?case
  proof (cases "prom_label s")
    case (Inl ok)
    then show ?thesis by (simp add: parse_prom_labels_into.simps [of s])
  next
    case (Inr lr)
    then show ?thesis using less [OF prom_label_shorter] by (cases lr) (simp add: parse_prom_labels_into.simps [of s])
  qed
qed

lemma prom_line_returns: "\<exists>r. parse_prom_line_into line = Some r"
proof -
  have labels: "\<exists>r. Option.bind (parse_prom_labels_into s []) (\<lambda>(ok, labels). Some (f ok labels)) = Some r" for s and f :: "bool \<Rightarrow> (bytes \<times> bytes) list \<Rightarrow> 'x"
    using prom_labels_return [of s "[]"] by auto
  have "\<exists>r. prom_braced l = Some r" "\<exists>r. prom_named l = Some r" for l
    using labels by (auto simp: prom_braced_def prom_named_def Let_def split: option.split)
  then obtain r where "(if hd (trim_ascii line) = 0x7B then prom_braced (trim_ascii line) else prom_named (trim_ascii line)) = Some r" by metis
  then show ?thesis by (simp add: parse_prom_line_into_def Let_def)
qed

definition sample_line :: "bytes \<Rightarrow> bool" where
  "sample_line line \<longleftrightarrow> trim_ascii line \<noteq> [] \<and> hd (trim_ascii line) \<noteq> 0x23"

lemma entry_line: "parse_prom_line_into line = Some (Some en) \<Longrightarrow> sample_line line"
  by (auto simp: parse_prom_line_into_def sample_line_def Let_def split: if_split_asm)

lemma visit_lines_eq:
  "\<exists>entries errs'. visit_lines sink lines cnt errs e = Some (cnt + length entries, errs + errs', fold sink entries e) \<and>
     length entries + errs' = length (filter sample_line lines)"
proof (induction lines arbitrary: cnt errs e)
  case (Cons line lines)
  obtain r where r: "parse_prom_line_into line = Some r" using prom_line_returns by blast
  show ?case
  proof (cases r)
    case None
    obtain entries errs' where "visit_lines sink lines cnt (if sample_line line then Suc errs else errs) e =
        Some (cnt + length entries, (if sample_line line then Suc errs else errs) + errs', fold sink entries e)"
        "length entries + errs' = length (filter sample_line lines)" using Cons.IH by blast
    then show ?thesis
      using r None by (intro exI [of _ entries] exI [of _ "if sample_line line then Suc errs' else errs'"]) (auto simp: sample_line_def [of line] Let_def)
  next
    case (Some en)
    obtain entries errs' where "visit_lines sink lines (Suc cnt) errs (sink en e) = Some (Suc cnt + length entries, errs + errs', fold sink entries (sink en e))"
        "length entries + errs' = length (filter sample_line lines)" using Cons.IH by blast
    then show ?thesis using r Some entry_line by (intro exI [of _ "en # entries"] exI [of _ errs']) auto
  qed
qed auto

subsection \<open>Writing the format\<close>

definition escape_label :: "bytes \<Rightarrow> bytes" where
  "escape_label v = concat (map (\<lambda>b. if b = 0x5C then [0x5C, 0x5C] else if b = 0x22 then [0x5C, 0x22] else if b = 0x0A then [0x5C, 0x6E] else [b]) v)"

lemma escape_label_simps [simp]:
  "escape_label [] = []"
  "escape_label (b # v) = (if b = 0x5C then [0x5C, 0x5C] else if b = 0x22 then [0x5C, 0x22] else if b = 0x0A then [0x5C, 0x6E] else [b]) @ escape_label v"
  by (simp_all add: escape_label_def)

lemma unescape_Cons: "b \<noteq> 0x5C \<Longrightarrow> unescape_prom_label_value (b # s) = b # unescape_prom_label_value s"
  by (cases s) simp_all

lemma unescape_escape [simp]: "unescape_prom_label_value (escape_label v) = v"
  by (induction v) (auto simp: unescape_Cons)

lemma scan_simps:
  "b \<noteq> 0x5C \<Longrightarrow> b \<noteq> 0x22 \<Longrightarrow> quoted_end (b # s) = map_option Suc (quoted_end s)" "quoted_end (0x22 # s) = Some 0"
  "quoted_end (0x5C # c # s) = map_option (\<lambda>i. i + 2) (quoted_end s)"
  "b \<noteq> 0x22 \<Longrightarrow> b \<noteq> 0x7D \<Longrightarrow> label_close False (b # s) = map_option Suc (label_close False s)"
  "b \<noteq> 0x22 \<Longrightarrow> b \<noteq> 0x5C \<Longrightarrow> label_close True (b # s) = map_option Suc (label_close True s)"
  "label_close q (0x22 # s) = map_option Suc (label_close (\<not> q) s)" "label_close False (0x7D # s) = Some 0"
  "label_close True (0x5C # c # s) = map_option (\<lambda>i. i + 2) (label_close True s)"
  by (cases s; simp)+

lemma quoted_end_escape: "quoted_end (escape_label v @ 0x22 # s) = Some (length (escape_label v))"
  by (induction v) (auto simp: scan_simps)

lemma label_close_escape:
  "label_close True (escape_label v @ 0x22 # s) = map_option (\<lambda>i. Suc (length (escape_label v) + i)) (label_close False s)"
  by (induction v) (auto simp: scan_simps option.map_comp comp_def)

lemma label_close_plain:
  "0x22 \<notin> set k \<Longrightarrow> 0x7D \<notin> set k \<Longrightarrow> label_close False (k @ s) = map_option (\<lambda>i. length k + i) (label_close False s)"
  by (induction k; cases "label_close False s") (auto simp: scan_simps)

text \<open>The characters of metric names, and of label names, which have no colon.\<close>

definition name_char :: "byte \<Rightarrow> bool" where
  "name_char b \<longleftrightarrow> is_ascii_alphanumeric b \<or> b = 0x5F \<or> b = 0x3A"

definition name_ok :: "bytes \<Rightarrow> bool" where
  "name_ok k \<longleftrightarrow> k \<noteq> [] \<and> list_all name_char k"

lemma name_char_plain:
  "name_char b \<Longrightarrow> b \<noteq> 0x20 \<and> b \<noteq> 0x09 \<and> b \<noteq> 0x0A \<and> b \<noteq> 0x0C \<and> b \<noteq> 0x0D \<and> b \<noteq> 0x22 \<and> b \<noteq> 0x23 \<and> b \<noteq> 0x2C \<and> b \<noteq> 0x3D \<and> b \<noteq> 0x7B \<and> b \<noteq> 0x7D"
  by (auto simp: name_char_def is_ascii_alphanumeric_def is_ascii_alphabetic_def is_ascii_upper_def is_ascii_lower_def is_ascii_digit_def)

lemma name_ok_free:
  assumes "name_ok k"
  shows "0x22 \<notin> set k" "0x3D \<notin> set k" "0x7B \<notin> set k" "0x7D \<notin> set k" "0x0A \<notin> set k" "0x20 \<notin> set k" "0x09 \<notin> set k"
  using assms name_char_plain unfolding name_ok_def list_all_iff by blast+

definition label_text :: "bytes \<times> bytes \<Rightarrow> bytes" where
  "label_text l = fst l @ [0x3D, 0x22] @ escape_label (snd l) @ [0x22]"

fun labels_text :: "(bytes \<times> bytes) list \<Rightarrow> bytes" where
  "labels_text [] = []"
| "labels_text [l] = label_text l"
| "labels_text (l # ls) = label_text l @ 0x2C # labels_text ls"

lemma label_close_label:
  assumes "name_ok (fst l)"
  shows "label_close False (label_text l @ s) = map_option (\<lambda>i. length (label_text l) + i) (label_close False s)"
proof -
  have "label_close False (fst l @ 0x3D # 0x22 # escape_label (snd l) @ 0x22 # s) =
      map_option (\<lambda>i. length (fst l) + i) (map_option Suc (map_option Suc (map_option (\<lambda>i. Suc (length (escape_label (snd l)) + i)) (label_close False s))))"
    using label_close_plain [OF name_ok_free(1,4) [OF assms]] by (simp add: scan_simps label_close_escape)
  then show ?thesis by (cases "label_close False s") (simp_all add: label_text_def)
qed

lemma label_close_labels:
  "\<forall>l \<in> set ls. name_ok (fst l) \<Longrightarrow> label_close False (labels_text ls @ 0x7D # s) = Some (length (labels_text ls))"
  by (induction ls rule: labels_text.induct) (simp_all add: label_close_label scan_simps)

lemma until_byte: "c \<notin> set k \<Longrightarrow> takeWhile (\<lambda>b. b \<noteq> c) (k @ c # s) = k" "c \<notin> set k \<Longrightarrow> dropWhile (\<lambda>b. b \<noteq> c) (k @ c # s) = c # s"
  by (induction k) auto

lemma prom_label_text:
  assumes "name_ok (fst l)" "list_all (\<lambda>b. b = 0x2C) sep"
  shows "prom_label (sep @ label_text l @ s) = Inr ((fst l, escape_label (snd l)), s)"
proof -
  obtain b k where k: "fst l = b # k" "name_char b" using assms(1) by (auto simp: name_ok_def neq_Nil_conv)
  have trim: "trim_prom_separators (sep @ label_text l @ s) = fst l @ 0x3D # 0x22 # escape_label (snd l) @ 0x22 # s"
    using k name_char_plain [OF k(2)] assms(2) by (induction sep) (simp_all add: trim_prom_separators_def label_text_def)
  have key: "rev (dropWhile prom_blank (rev (fst l))) = fst l"
    using name_ok_free(6,7) [OF assms(1)] by (cases "fst l" rule: rev_cases) (auto simp: prom_blank_def)
  have "hd (fst l @ t) \<noteq> 0x22" for t using k name_char_plain [OF k(2)] by simp
  then have "prom_key (fst l @ 0x3D # 0x22 # escape_label (snd l) @ 0x22 # s) = Some (fst l, 0x3D # 0x22 # escape_label (snd l) @ 0x22 # s)"
    unfolding prom_key_def until_byte [OF name_ok_free(2) [OF assms(1)]] key by simp
  moreover have "fst l \<noteq> []" using k by simp
  ultimately show ?thesis
    by (simp add: prom_label_def trim prom_blank_def take_prom_quoted_def quoted_end_escape)
qed

lemma prom_label_end: "prom_label [] = Inl True"
  by (simp add: prom_label_def trim_prom_separators_def)

lemma parse_labels_text:
  assumes "\<forall>l \<in> set ls. name_ok (fst l)" "list_all (\<lambda>b. b = 0x2C) sep"
  shows "ls \<noteq> [] \<Longrightarrow> parse_prom_labels_into (sep @ labels_text ls) out = Some (True, out @ map (\<lambda>(k, v). (k, escape_label v)) ls)"
  using assms
proof (induction ls arbitrary: out sep rule: labels_text.induct)
  case (2 l)
  then have "prom_label (sep @ label_text l @ []) = Inr ((fst l, escape_label (snd l)), [])" by (intro prom_label_text) simp_all
  then show ?case
    by (simp add: split_def parse_prom_labels_into.simps [of "sep @ label_text l"] parse_prom_labels_into.simps [of "[]"] prom_label_end)
next
  case (3 l l2 ls)
  have "prom_label (sep @ label_text l @ [0x2C] @ labels_text (l2 # ls)) = Inr ((fst l, escape_label (snd l)), [0x2C] @ labels_text (l2 # ls))"
    using 3(3,4) by (intro prom_label_text) simp_all
  moreover have "parse_prom_labels_into ([0x2C] @ labels_text (l2 # ls)) (out @ [(fst l, escape_label (snd l))]) =
      Some (True, (out @ [(fst l, escape_label (snd l))]) @ map (\<lambda>(k, v). (k, escape_label v)) (l2 # ls))"
    using 3(3) by (intro 3(1)) simp_all
  ultimately show ?case
    by (simp add: split_def parse_prom_labels_into.simps [of "sep @ label_text l @ 0x2C # labels_text (l2 # ls)"])
qed simp

subsection \<open>Lines\<close>

definition i64_text :: "i64 \<Rightarrow> bytes" where
  "i64_text x = (if i64_int x < 0 then [0x2D] else []) @ decimal_digits (nat \<bar>i64_int x\<bar>)"

lemma decimal_val_digits [simp]: "decimal_val 0 (decimal_digits n) = n"
proof (induction n rule: decimal_digits.induct)
  case (1 n)
  have d: "digit_val (of_nat (48 + k)) = k" if "k < 10" for k using unat_digit [OF that] by (simp add: digit_val_def del: of_nat_add)
  show ?case
    using 1 d [of n] d [of "n mod 10"] by (subst decimal_digits.simps) (auto simp: decimal_val_append simp del: of_nat_add)
qed

lemma parse_i64_text: "parse_i64 (i64_text x) = Some x"
proof -
  have hd: "hd (decimal_digits n) \<noteq> 0x2D \<and> hd (decimal_digits n) \<noteq> 0x2B" for n
    using decimal_digits_all [of n] by (cases "decimal_digits n") (auto simp: is_ascii_digit_def)
  show ?thesis
    using decimal_digits_all I64_MIN_least [of x] I64_MAX_greatest [of x] hd
    by (auto simp: parse_i64_def i64_text_def Let_def less_eq_i64_def I64_MIN_def I64_MAX_def i64_int_def [of "I64 _"])
qed

lemma i64_text_plain: "b \<in> set (i64_text x) \<Longrightarrow> is_ascii_digit b \<or> b = 0x2D" "i64_text x \<noteq> []"
  using decimal_digits_all by (auto simp: i64_text_def list_all_iff split: if_split_asm)

lemma i64_text_free: "b \<in> set (i64_text x) \<Longrightarrow> \<not> is_ascii_whitespace b" "valid_utf8 (i64_text x)"
proof -
  show "\<not> is_ascii_whitespace b" if "b \<in> set (i64_text x)" for b
    using i64_text_plain(1) [OF that] by (auto simp: is_ascii_whitespace_def is_ascii_digit_def)
  show "valid_utf8 (i64_text x)"
    using i64_text_plain(1) is_ascii_digit_ascii by (intro is_ascii_valid) (fastforce simp: is_ascii_def list_all_iff)
qed

lemma split_by_free: "\<forall>b \<in> set xs. \<not> P b \<Longrightarrow> split_by P xs = [xs]" "\<forall>b \<in> set xs. \<not> P b \<Longrightarrow> P c \<Longrightarrow> split_by P (xs @ c # ys) = xs # split_by P ys"
  by (induction xs) auto

lemma prom_blank_ws: "prom_blank b \<Longrightarrow> is_ascii_whitespace b"
  by (auto simp: prom_blank_def is_ascii_whitespace_def)

lemma trim_ascii_id: "xs \<noteq> [] \<Longrightarrow> \<not> is_ascii_whitespace (hd xs) \<Longrightarrow> \<not> is_ascii_whitespace (last xs) \<Longrightarrow> trim_ascii xs = xs"
proof -
  assume xs: "xs \<noteq> []" "\<not> is_ascii_whitespace (hd xs)" "\<not> is_ascii_whitespace (last xs)"
  have stay: "dropWhile is_ascii_whitespace ys = ys" if "ys \<noteq> []" "\<not> is_ascii_whitespace (hd ys)" for ys using that by (cases ys) simp_all
  show ?thesis using xs stay [of xs] stay [of "rev xs"] by (simp add: trim_ascii_def hd_rev)
qed

text \<open>A sample in the format: name, labels, the text of the value, and the time.\<close>

type_synonym prom_text_sample = "bytes \<times> (bytes \<times> bytes) list \<times> bytes \<times> i64"

fun prom_line_text :: "prom_text_sample \<Rightarrow> bytes" where
  "prom_line_text (name, ls, w, t) = name @ (if ls = [] then [] else 0x7B # labels_text ls @ [0x7D]) @ 0x20 # w @ 0x20 # i64_text t"

fun prom_sample_ok :: "prom_text_sample \<Rightarrow> bool" where
  "prom_sample_ok (name, ls, w, t) \<longleftrightarrow> name_ok name \<and> (\<forall>l \<in> set ls. name_ok (fst l)) \<and>
     w \<noteq> [] \<and> (\<forall>b \<in> set w. \<not> is_ascii_whitespace b) \<and> parse_prom_value w \<noteq> None"

fun prom_read :: "prom_text_sample \<Rightarrow> prom_entry" where
  "prom_read (name, ls, w, t) = (name, map (\<lambda>(k, v). (k, escape_label v)) ls, the (parse_prom_value w), t)"

lemma prom_sample_text:
  assumes "prom_sample_ok (name, ls, w, t)"
  shows "prom_sample (0x20 # w @ 0x20 # i64_text t) = Some (the (parse_prom_value w), t)"
proof -
  have "\<forall>b \<in> set w. \<not> prom_blank b" "\<forall>b \<in> set (i64_text t). \<not> prom_blank b"
    using assms i64_text_free(1) prom_blank_ws by auto
  then have "split_by prom_blank (0x20 # w @ 0x20 # i64_text t) = [[], w, i64_text t]" by (simp add: split_by_free prom_blank_def)
  then show ?thesis
    using assms i64_text_plain(2) i64_text_free(2) by (auto simp: prom_sample_def parse_i64_text)
qed

lemma prom_named_text:
  assumes "prom_sample_ok (name, ls, w, t)"
  shows "prom_named (prom_line_text (name, ls, w, t)) = Some (Some (name, map (\<lambda>(k, v). (k, escape_label v)) ls, 0x20 # w @ 0x20 # i64_text t))"
proof -
  let ?tl = "0x20 # w @ 0x20 # i64_text t"
  let ?stop = "\<lambda>b. b = 0x7B \<or> b = 0x20 \<or> b = 0x09"
  have name: "name_ok name" "name \<noteq> []" and ls: "\<forall>l \<in> set ls. name_ok (fst l)" using assms by (simp_all add: name_ok_def)
  have until: "takeWhile (\<lambda>b. \<not> ?stop b) (name @ c # s) = name" if "?stop c" for c s
    using name_ok_free(3,6,7) [OF name(1)] that by (subst takeWhile_append2) auto
  show ?thesis
  proof (cases "ls = []")
    case True
    then show ?thesis using until [of "0x20"] name(2) by (simp add: prom_named_def)
  next
    case False
    have line: "prom_line_text (name, ls, w, t) = name @ 0x7B # labels_text ls @ 0x7D # ?tl" using False by simp
    have "find_prom_label_close (name @ 0x7B # labels_text ls @ 0x7D # ?tl) (length name) = Some (Suc (length name) + length (labels_text ls))"
      using label_close_labels [OF ls, of ?tl] by (simp add: find_prom_label_close_def)
    moreover have "parse_prom_labels_into (labels_text ls) [] = Some (True, map (\<lambda>(k, v). (k, escape_label v)) ls)"
      using parse_labels_text [OF ls, of "[]" "[]"] False by simp
    ultimately show ?thesis unfolding line using until [of "0x7B"] name(2) by (simp add: prom_named_def Let_def)
  qed
qed

lemma prom_line_read:
  assumes "prom_sample_ok s"
  shows "parse_prom_line_into (prom_line_text s) = Some (Some (prom_read s))"
proof -
  obtain name ls w t where s: "s = (name, ls, w, t)" by (cases s)
  obtain b k where k: "name = b # k" "name_char b" using assms by (auto simp: s name_ok_def neq_Nil_conv)
  let ?line = "prom_line_text s"
  have hd: "?line \<noteq> []" "hd ?line = b" using k by (simp_all add: s)
  have "last ?line = last (i64_text t)" using i64_text_plain(2) by (simp add: s)
  then have "\<not> is_ascii_whitespace (last ?line)" using i64_text_free(1) [of "last ?line" t] last_in_set [OF i64_text_plain(2) [of t]] by simp
  then have "trim_ascii ?line = ?line"
    using hd name_char_plain [OF k(2)] by (intro trim_ascii_id) (simp_all add: is_ascii_whitespace_def)
  then show ?thesis
    using hd name_char_plain [OF k(2)] prom_named_text [of name ls w t] prom_sample_text [of name ls w t] assms
    by (simp add: parse_prom_line_into_def s Let_def del: prom_line_text.simps)
qed

subsection \<open>Bodies\<close>

lemma escape_no_newline: "0x0A \<notin> set (escape_label v)"
  by (induction v) auto

lemma labels_no_newline: "\<forall>l \<in> set ls. name_ok (fst l) \<Longrightarrow> 0x0A \<notin> set (labels_text ls)"
  by (induction ls rule: labels_text.induct) (auto simp: label_text_def escape_no_newline dest: name_ok_free(5))

lemma line_no_newline: "prom_sample_ok s \<Longrightarrow> 0x0A \<notin> set (prom_line_text s)"
proof -
  assume ok: "prom_sample_ok s"
  obtain name ls w t where s: "s = (name, ls, w, t)" by (cases s)
  have "is_ascii_whitespace 0x0A" by (simp add: is_ascii_whitespace_def)
  then show ?thesis
    using ok labels_no_newline [of ls] name_ok_free(5) [of name] i64_text_free(1) [of "0x0A" t] by (auto simp: s)
qed

lemma split_lines: "\<forall>s \<in> set ss. prom_sample_ok s \<Longrightarrow>
    split_by (\<lambda>b. b = 0x0A) (concat (map (\<lambda>s. prom_line_text s @ [0x0A]) ss)) = map prom_line_text ss @ [[]]"
proof (induction ss)
  case (Cons s ss)
  have "\<forall>b \<in> set (prom_line_text s). \<not> b = 0x0A" using line_no_newline [of s] Cons.prems by fastforce
  then show ?case using Cons split_by_free(2) [of "prom_line_text s" "\<lambda>b. b = 0x0A" "0x0A"] by simp
qed simp

lemma visit_texts: "\<forall>s \<in> set ss. prom_sample_ok s \<Longrightarrow>
    visit_lines sink (map prom_line_text ss @ [[]]) cnt errs e = Some (cnt + length ss, errs, fold sink (map prom_read ss) e)"
proof (induction ss arbitrary: cnt e)
  case Nil
  have "trim_ascii [] = []" by (simp add: trim_ascii_def)
  then show ?case by (simp add: parse_prom_line_into_def)
qed (simp add: prom_line_read)
lemma unescape_read:
  "map (\<lambda>(name, labels, v, t). map (\<lambda>(k, x). (k, unescape_prom_label_value x)) labels) (map prom_read ss) = map (\<lambda>(name, ls, w, t). ls) ss"
proof (induction ss)
  case (Cons s ss)
  have "map (\<lambda>(k, x). (k, unescape_prom_label_value x)) (map (\<lambda>(k, v). (k, escape_label v)) ls) = ls" for ls
    by (induction ls) auto
  then show ?case using Cons by (cases s) simp
qed simp

subsection \<open>Claims\<close>

text \<open>
  C21. Parsing an exposition body always ends, whatever bytes it holds: the loop over labels consumes input in
  every round. And no line is lost: each line that is neither blank nor a comment is either handed to the
  sink, in order, and counted as an entry, or counted as an error.
\<close>

theorem prom_body_terminates:
  "\<exists>entries errs. parse_prom_body_visit body sink e = Some (length entries, errs, fold sink entries e) \<and>
     length entries + errs = length (filter sample_line (split_by (\<lambda>b. b = 0x0A) body))"
  using visit_lines_eq [of sink _ 0 0 e] by (auto simp: parse_prom_body_visit_def)

text \<open>
  C22. What is written in the exposition format is read back: for samples with well-formed metric and label
  names, label values of arbitrary bytes (escaped), a value text the parser accepts and a timestamp, the body of
  their lines gives exactly these samples, in order, without an error, and unescaping the labels of
  each gives the original values.
\<close>

theorem prom_body_roundtrip:
  assumes "\<forall>s \<in> set ss. prom_sample_ok s"
  shows "parse_prom_body_visit (concat (map (\<lambda>s. prom_line_text s @ [0x0A]) ss)) (\<lambda>en es. es @ [en]) [] =
      Some (length ss, 0, map prom_read ss) \<and>
    map (\<lambda>(name, labels, v, t). map (\<lambda>(k, x). (k, unescape_prom_label_value x)) labels) (map prom_read ss) = map (\<lambda>(name, ls, w, t). ls) ss"
proof
  have "fold (\<lambda>en es. es @ [en]) xs ys = ys @ xs" for xs ys :: "prom_entry list" by (induction xs arbitrary: ys) simp_all
  then show "parse_prom_body_visit (concat (map (\<lambda>s. prom_line_text s @ [0x0A]) ss)) (\<lambda>en es. es @ [en]) [] = Some (length ss, 0, map prom_read ss)"
    unfolding parse_prom_body_visit_def split_lines [OF assms] using visit_texts [OF assms, of "\<lambda>en es. es @ [en]" 0 0 "[]"] by simp
  show "map (\<lambda>(name, labels, v, t). map (\<lambda>(k, x). (k, unescape_prom_label_value x)) labels) (map prom_read ss) = map (\<lambda>(name, ls, w, t). ls) ss"
    by (rule unescape_read)
qed

theorem prom_body_roundtrip_witness:
  "prom_sample_ok (str_lit ''up'', [(str_lit ''job'', [0x22, 0x0A, 0x5C, 0x7D])], str_lit ''NaN'', I64 7) \<and>
   parse_prom_body_visit (concat (map (\<lambda>s. prom_line_text s @ [0x0A]) [(str_lit ''up'', [(str_lit ''job'', [0x22, 0x0A, 0x5C, 0x7D])], str_lit ''NaN'', I64 7)]))
     (\<lambda>en es. es @ [en]) [] =
   Some (1, 0, [(str_lit ''up'', [(str_lit ''job'', [0x5C, 0x22, 0x5C, 0x6E, 0x5C, 0x5C, 0x7D])], 0x7FF8000000000000, I64 7)])"
proof -
  let ?s = "(str_lit ''up'', [(str_lit ''job'', [0x22, 0x0A, 0x5C, 0x7D])], str_lit ''NaN'', I64 7)"
  have "split_sign (str_lit ''NaN'') = (False, str_lit ''NaN'') \<and> eq_ignore_ascii_case (str_lit ''NaN'') (str_lit ''nan'') \<and> valid_utf8 (str_lit ''NaN'') \<and>
      \<not> eq_ignore_ascii_case (str_lit ''NaN'') (str_lit ''inf'') \<and> \<not> eq_ignore_ascii_case (str_lit ''NaN'') (str_lit ''infinity'')" by code_simp
  then have v: "parse_prom_value (str_lit ''NaN'') = Some 0x7FF8000000000000" by (simp add: parse_prom_value_def parse_f64_def f64_pack_def)
  have "name_ok (str_lit ''up'') \<and> name_ok (str_lit ''job'') \<and> (\<forall>b \<in> set (str_lit ''NaN''). \<not> is_ascii_whitespace b) \<and> str_lit ''NaN'' \<noteq> []" by code_simp
  then have ok: "prom_sample_ok ?s" by (simp add: v)
  then have "\<forall>s \<in> set [?s]. prom_sample_ok s" by simp
  from conjunct1 [OF prom_body_roundtrip [OF this]] show ?thesis using ok v by simp
qed

end
