(* ===== verification/Spec2Isabelle.thy ===== *)
theory Spec2Isabelle
  imports CodecFacts BlockClaims StoreClaims EngineClaims RollupFacts PromFacts
begin

text \<open>
  \<^bold>\<open>A verification library for timeless-libsql\<close>

  \<^bold>\<open>The program.\<close> \<open>timeless-libsql\<close> keeps metrics, logs and traces in SQLite tables. Bottom up it consists of
  a typed column codec (\<open>crates/timeless-codec\<close>); the storage engines of \<open>crates/timeless-core\<close>, one for
  metrics (\<open>engine.rs\<close>, \<open>store/\<close>, \<open>rollup.rs\<close>, \<open>prom_text.rs\<close>, \<open>waist.rs\<close>), one for logs (\<open>blocks/\<close>) and one
  for traces (\<open>spans/\<close>); the SQLite extension that offers them as virtual tables (\<open>crates/timeless-ext\<close>); and
  HTTP servers and tools on top. An engine collects entries, encodes them column by column into blocks, hands
  each block to a store together with the terms that index it, and answers a query by asking the store for
  candidate blocks, ruling out blocks by their dictionaries, and decoding only what the query needs. The
  library models the part of this pipeline in which bytes at rest are produced and read, where a mistake
  loses data silently.

  \<^bold>\<open>Prelude.\<close> \<^theory_text>\<open>Base\<close> has machine integers (\<open>u8\<close> to \<open>u64\<close> are words, \<open>i64\<close> is a type of its own with the
  signed order, \<open>usize\<close> is \<open>nat\<close> with its bound where a conversion can overflow; the release profile wraps,
  and the arithmetic that can wrap is written on words), results (\<open>'a res\<close>, where \<open>?\<close> is
  \<open>and_then\<close>; a panic is the error \<open>Panic\<close>, so that its absence is a theorem), and ordered maps. The panics that are
  modelled: slices (\<open>slice_r\<close>) and indices (\<open>index_r\<close>) that depend on the data, conversions to arrays (\<open>array_r\<close>), \<open>unwrap\<close>
  and \<open>expect\<close>, string slices off a character boundary, and the buffers of the pco and template decoders, which are sized by the caller's count
  (\<open>alloc_r\<close>: more than \<open>isize::MAX\<close> bytes is a capacity overflow). Not modelled: running out of memory, capacity hints
  for vectors no larger than data at hand, the hint \<open>Vec::with_capacity(n)\<close> of \<open>decode_u8\<close>, and indices by a
  literal into an array of fixed length, which cannot fail. Error values keep their kind, not their wording. \<^theory_text>\<open>Text\<close> has the part of
  \<open>str\<close> and \<open>u8\<close> of the standard library that the sources use: UTF-8 validity, case folding, numbers,
  substring search.

  \<^bold>\<open>Column codec\<close> (\<open>timeless-codec/src/lib.rs\<close>). \<^theory_text>\<open>Reader\<close>: the bounds-checked reader, column frames,
  presence bitmaps. \<^theory_text>\<open>Column\<close>, \<^theory_text>\<open>NumColumn\<close>, \<^theory_text>\<open>StrColumn\<close>: one function per encoder and decoder. The
  compressors (zstd, pco) are third-party code: they are the record \<open>codec_lib\<close>, an argument of every
  definition that compresses, and \<open>codec_lib_ok\<close> states what is relied on, that a compressed value
  decompresses to itself under its own length and never beyond the limit. \<^theory_text>\<open>StoredLib\<close> has an instance, which the
  witnesses use. \<^theory_text>\<open>CodecFacts\<close>: round trips of all column types, the absence of panics on arbitrary bytes, the
  equivalence of the row-selecting string decoder with the full one, canonicity of bitmaps, the severity table.

  \<^bold>\<open>Limits.\<close> A decoder decompresses at most 64 MiB and accepts at most 1,048,576 entries; the round trips hold within these
  limits, which the encoders do not check (two theorems show what is written beyond them and never read). For the
  template codec the round trip asks for at most 8 MiB of messages, which keeps every stream of it, at up to eight bytes
  per byte of text, within the limit. JSON metadata of rich entries is without floats and at most 127 deep, where the
  JSON library is assumed to read back what it prints. \<open>isize::MAX\<close>, the most bytes a vector can have, bounds the counts
  that size buffers.

  \<^bold>\<open>Block data\<close> (\<open>blocks/mod.rs\<close>, \<open>timeless-ext/src/flatjson.rs\<close>). \<^theory_text>\<open>BlockData\<close>: entries, severities, metadata
  lookup, byte accounting. \<^theory_text>\<open>FlatJson\<close>: the printer and parsers of flat JSON objects. \<^theory_text>\<open>PairsColumn\<close>: the
  metadata columns of \<open>blocks/codec.rs\<close>.

  \<^bold>\<open>Message templates\<close> (\<open>blocks/template.rs\<close>). \<^theory_text>\<open>Template\<close>: the tokenizer that splits a message into a template
  and variables. \<^theory_text>\<open>TemplateColumn\<close>: the column with its dictionary, group layout and streams. \<^theory_text>\<open>TemplateFacts\<close>:
  its round trip, and that its cursors stay inside the streams whatever the bytes. \<^theory_text>\<open>TemplateSearch\<close>: the
  dictionary check and the decoder that renders matching rows only. \<^theory_text>\<open>PieceSearch\<close>, \<^theory_text>\<open>SearchFacts\<close>, \<^theory_text>\<open>FilterFacts\<close>:
  where an occurrence of a needle can lie in a rendered message, hence that the check never rules out a
  match and the row-skipping decoder is exact, except for needles with an inner run of more than 19 digits, for
  which a theorem shows the loss.

  \<^bold>\<open>Blocks\<close> (\<open>blocks/codec.rs\<close>). \<^theory_text>\<open>BlockCodec\<close>: the container with its seven codecs, projections, the row-skipping
  decode and the pre-decode check. The JSON library is the record \<open>json_lib\<close> with the hypothesis \<open>json_lib_ok\<close>
  and the instance \<open>stored_json\<close> (\<^theory_text>\<open>StoredJson\<close>); the Unicode lowercase mapping is the parameter \<open>lower\<close>.
  \<^theory_text>\<open>BlockFacts\<close>, \<^theory_text>\<open>BlockTrip\<close>, \<^theory_text>\<open>RichTrip\<close>, \<^theory_text>\<open>BlockSearch\<close>: the lemmas on containers, rows and searches.
  \<^theory_text>\<open>BlockClaims\<close>: plain and rich round trips, projections, well-formedness of what any bytes decode to, exactness
  of the filtered decode, soundness of the check, and the blocks that can be written but not read.

  \<^bold>\<open>Block store\<close> (\<open>blocks/mem.rs\<close>, the trait \<open>BlockStore\<close> of \<open>blocks/mod.rs\<close>). \<^theory_text>\<open>BlockStore\<close>: one function per
  operation on the record of the store. \<^theory_text>\<open>StoreFacts\<close>: the invariant, the abstract store (a map from ids to
  blocks with their sets of terms), the locale \<open>block_store\<close> of what a client may rely on and its
  interpretation. \<^theory_text>\<open>StoreClaims\<close>: the operations as a step relation, the simulation, and the consequences for
  queries and replacements. Ids come from a counter of 63 bits; steps that insert ask for room below its bound.

  \<^bold>\<open>Block engine\<close> (\<open>blocks/engine.rs\<close>). \<^theory_text>\<open>Engine\<close>: its state, the transaction journal, normalization of entries,
  index terms. The store is a record of operations on a state of its own, as the trait object is in the source. \<^theory_text>\<open>EnginePlan\<close>:
  the planner of compaction. \<^theory_text>\<open>EngineOps\<close>: recovery, push, flush, optimize, prune, retention and reindexing; an operation
  returns its result and the engine it leaves, after an error too. \<^theory_text>\<open>EnginePlanFacts\<close>: every raw block is planned once, no block
  twice, raw groups first. \<^theory_text>\<open>EngineTxn\<close>: what a journal frame must hold to get back to the moment it was opened, and how each
  kind of change keeps it. \<^theory_text>\<open>EngineSafe\<close>: the locale \<open>id_store\<close> of what the engine needs of a store, and every operation on
  such a store. \<^theory_text>\<open>EngineMem\<close>: its interpretation on the in-memory store. \<^theory_text>\<open>EngineRun\<close>: transactions of the host as a step
  relation of operations, savepoints, releases and rollbacks, and that the stack of journal frames leads back to each open
  savepoint. \<^theory_text>\<open>EngineDrain\<close>: what a successful compaction does to the index, and the locale \<open>live_store\<close> of a store that does not
  fail while it has room, on which compaction succeeds; interpreted on the in-memory store. \<^theory_text>\<open>EngineClaims\<close>: the index of an
  engine names readable blocks only, a rollback gives buffer and index back, compaction leaves no raw block. The
  in-memory store stands for the rows of the host there: on a rollback the host puts it back.

  \<^bold>\<open>Metrics\<close> (\<open>rollup.rs\<close>, \<open>prom_text.rs\<close>). \<^theory_text>\<open>Float64\<close>: the part of \<open>f64\<close> that is used, on bit patterns, with
  addition and parsing rounded to nearest even. \<^theory_text>\<open>Rollup\<close>, \<^theory_text>\<open>RollupFacts\<close>: the bucket kernel and its equality with
  the naive computation, the payload codec and its round trip, the ladder parser and the nesting of tiers.
  \<^theory_text>\<open>PromText\<close>, \<^theory_text>\<open>PromFacts\<close>: the exposition parser; it ends on every body, accounts for every line, and reads back
  what is written in the format.

  \<^bold>\<open>Recursion.\<close> No definition needs fuel: loops are structural recursions, or recursions with a measure
  (the bytes left, the rows left). The loop over exposition labels has no counter in the source; it is a partial
  function whose value \<open>None\<close> is a run without end, and a theorem shows that it always has a value.

  \<^bold>\<open>Not modelled.\<close> Of the block engine the query paths, field listings and counts are left out, and with them the interleaving of
  queries with the operations; these run one at a time under the transition lock. The other engines (\<open>engine.rs\<close>, \<open>spans/engine.rs\<close>)
  interleave locks, background work and clocks around code of the same kind. The metrics chunk stores and the span
  codec repeat the shape of the log side and are not translated. The virtual tables and shadow stores of
  \<open>timeless-ext\<close> are calls into SQLite, whose code is not part of the repository. \<open>dbhealth-ext\<close>, the servers and the
  tools are HTTP handlers, query-language front ends and benchmarks over those. Error wording, logging and
  statistics are left out throughout.
\<close>

end
